(* ===== verification/Kernel_Prelude.thy ===== *)
theory Kernel_Prelude
  imports Main "HOL-Library.Word"
begin

text \<open>
  What every theory of the development shares: the kernel's error numbers, the value of an
  operation that may panic, unsigned 32-bit arithmetic written out on natural numbers, and
  generic lemmas on lists.

  Sizes, addresses and counters of type \<^verbatim>\<open>size_t\<close>, \<^verbatim>\<open>ulong_t\<close> and \<^verbatim>\<open>uint_t\<close> (all 32 bits
  wide in this release) are natural numbers, and an addition the C code performs on them is
  \<open>uadd\<close>, which wraps at \<open>2 ^ 32\<close>. Flag words are \<open>32 word\<close>.
\<close>

unbundle bit_operations_syntax

named_theorems kern_defs \<open>definitions unfolded by the component proofs\<close>

named_theorems kern_frame \<open>fields an operation leaves alone\<close>

section \<open>Error numbers and panics\<close>

text \<open>The error numbers of \<^verbatim>\<open>sys/errno.h\<close> that the modelled code returns.\<close>

datatype errno =
    EPERM | ENOENT | EINTR | E2BIG | EAGAIN | ENOMEM | EACCES | EFAULT | EBUSY | EEXIST
  | EINVAL | EFBIG | ENOSPC | ERANGE | ENOMSG | EIDRM | EOVERFLOW | EBADF | EMFILE | ESRCH

text \<open>
  How a call can fail to return: \<open>Panic\<close> carries the message of \<^verbatim>\<open>panic(9F)\<close>, \<open>Wild\<close> says that
  the code dereferences memory outside the object it works on.
\<close>

datatype kfault = Panic string | Wild string

type_synonym 'a kres = "kfault + 'a"

section \<open>Unsigned 32-bit arithmetic\<close>

definition u32 :: "nat \<Rightarrow> nat" where
  "u32 n = n mod 2 ^ 32"

definition uadd :: "nat \<Rightarrow> nat \<Rightarrow> nat" where
  "uadd a b = u32 (a + b)"

text \<open>\<open>usub\<close> is C's unsigned subtraction, for operands below \<open>2 ^ 32\<close>.\<close>

definition usub :: "nat \<Rightarrow> nat \<Rightarrow> nat" where
  "usub a b = u32 (a + (2 ^ 32 - b))"

text \<open>The test \<^verbatim>\<open>(ssize_t)size > 0\<close> on a \<^verbatim>\<open>size_t\<close>.\<close>

definition ssize_pos :: "nat \<Rightarrow> bool" where
  "ssize_pos n \<longleftrightarrow> 0 < n \<and> n < 2 ^ 31"

lemma u32_less [simp]: "u32 n < 2 ^ 32"
  by (simp add: u32_def)

lemma u32_id [simp]: "n < 2 ^ 32 \<Longrightarrow> u32 n = n"
  by (simp add: u32_def)

lemma uadd_eq [simp]: "a + b < 2 ^ 32 \<Longrightarrow> uadd a b = a + b"
  by (simp add: uadd_def)

lemma usub_eq [simp]:
  assumes "b \<le> a" and "a < 2 ^ 32"
  shows "usub a b = a - b"
proof -
  have "a + (2 ^ 32 - b) = (a - b) + 2 ^ 32" using assms by simp
  then have "usub a b = ((a - b) + 2 ^ 32) mod 2 ^ 32" by (simp only: usub_def u32_def)
  also have "\<dots> = a - b" using assms by (simp only: mod_add_self2) (rule mod_less, simp)
  finally show ?thesis .
qed

lemma usub_u32: "b < 2 ^ 32 \<Longrightarrow> usub (u32 (a + b)) b = u32 a"
proof -
  assume "b < 2 ^ 32"
  then have "usub (u32 (a + b)) b = (a + b + (2 ^ 32 - b)) mod 2 ^ 32" by (simp only: usub_def u32_def mod_add_left_eq)
  also have "a + b + (2 ^ 32 - b) = a + 2 ^ 32" using \<open>b < 2 ^ 32\<close> by simp
  finally show ?thesis by (simp only: u32_def mod_add_self2)
qed

lemma uadd_u32: "uadd (u32 a) b = u32 (a + b)"
  by (simp add: uadd_def u32_def mod_add_left_eq)

section \<open>Short integers\<close>

text \<open>Conversion to \<^verbatim>\<open>unsigned short\<close> and to \<^verbatim>\<open>short\<close>.\<close>

definition u16 :: "int \<Rightarrow> nat" where
  "u16 x = nat (x mod 2 ^ 16)"

definition s16 :: "int \<Rightarrow> int" where
  "s16 x = (x + 2 ^ 15) mod 2 ^ 16 - 2 ^ 15"

lemma u16_id [simp]: "0 \<le> x \<Longrightarrow> x < 2 ^ 16 \<Longrightarrow> u16 x = nat x"
  by (simp add: u16_def)

lemma u16_of_nat [simp]: "n < 2 ^ 16 \<Longrightarrow> u16 (int n) = n"
  by (simp add: u16_def)

lemma s16_id [simp]: "- (2 ^ 15) \<le> x \<Longrightarrow> x < 2 ^ 15 \<Longrightarrow> s16 x = x"
  by (simp add: s16_def)

lemma s16_range [simp]: "- (2 ^ 15) \<le> s16 x" "s16 x < 2 ^ 15"
  by (simp_all add: s16_def)

lemma s16_diff_add [simp]: "s16 (s16 (x - v) + v) = s16 x"
proof -
  have "s16 (x - v) + v + 2 ^ 15 = (x - v + 2 ^ 15) mod 2 ^ 16 + v" by (simp add: s16_def)
  then have "(s16 (x - v) + v + 2 ^ 15) mod 2 ^ 16 = (x - v + 2 ^ 15 + v) mod 2 ^ 16"
    by (simp only: mod_add_left_eq)
  then show ?thesis by (simp add: s16_def)
qed

text \<open>Conversion to \<^verbatim>\<open>int\<close>.\<close>

definition s32 :: "int \<Rightarrow> int" where
  "s32 x = (x + 2 ^ 31) mod 2 ^ 32 - 2 ^ 31"

lemma s32_id [simp]: "- (2 ^ 31) \<le> x \<Longrightarrow> x < 2 ^ 31 \<Longrightarrow> s32 x = x"
  by (simp add: s32_def)

section \<open>Lists\<close>

lemma takeWhile_dropWhile_sorted:
  "takeWhile P xs = ls \<Longrightarrow> dropWhile P xs = rs \<Longrightarrow>
   xs = ls @ rs \<and> (\<forall>x \<in> set ls. P x) \<and> (rs \<noteq> [] \<longrightarrow> \<not> P (hd rs))"
  by (metis hd_dropWhile set_takeWhileD takeWhile_dropWhile_id)

lemma nth_list_update_cases:
  "i < length xs \<Longrightarrow> j < length xs \<Longrightarrow> xs[i := v] ! j = (if i = j then v else xs ! j)"
  by (simp add: nth_list_update)

end
