(* ===== verification/Space_Alloc.thy ===== *)
theory Space_Alloc
  imports Kernel_Prelude
begin

text \<open>
  The contract of an allocator of number ranges, as its clients see it: what \<^verbatim>\<open>rmalloc\<close> and
  \<^verbatim>\<open>rmfree\<close> of \<^verbatim>\<open>os/rmap.c\<close> promise to the System V semaphore and message modules. A client keeps
  a table of the ranges it holds (\<open>owned_ok\<close>: they are apart from each other and from the free
  space); the lemmas of the locale say that taking and giving back ranges keeps that table, and
  that giving back a range the table holds never panics.
\<close>

definition owned_ok :: "nat set \<Rightarrow> ('i \<rightharpoonup> nat \<times> nat) \<Rightarrow> bool" where
  "owned_ok S own \<longleftrightarrow>
     (\<forall>i a n. own i = Some (a, n) \<longrightarrow>
        0 < a \<and> 0 < n \<and> n < 2 ^ 31 \<and> a + n < 2 ^ 32 \<and> S \<inter> {a ..< a + n} = {})
   \<and> (\<forall>i j a n b k. i \<noteq> j \<longrightarrow> own i = Some (a, n) \<longrightarrow> own j = Some (b, k) \<longrightarrow>
        {a ..< a + n} \<inter> {b ..< b + k} = {})"

lemma owned_okD:
  assumes "owned_ok S own" and "own i = Some (a, n)"
  shows "0 < a" "0 < n" "n < 2 ^ 31" "a + n < 2 ^ 32" "S \<inter> {a ..< a + n} = {}"
  using assms unfolding owned_ok_def by blast+

lemma owned_ok_apart:
  "owned_ok S own \<Longrightarrow> i \<noteq> j \<Longrightarrow> own i = Some (a, n) \<Longrightarrow> own j = Some (b, k) \<Longrightarrow>
   {a ..< a + n} \<inter> {b ..< b + k} = {}"
  unfolding owned_ok_def by blast

lemma owned_ok_empty [simp]: "owned_ok S Map.empty"
  by (simp add: owned_ok_def)

lemma owned_ok_take:
  assumes "owned_ok S own" and "{a ..< a + n} \<subseteq> S" and "0 < a" "0 < n" "n < 2 ^ 31" "a + n < 2 ^ 32"
  shows "owned_ok (S - {a ..< a + n}) (own(i \<mapsto> (a, n)))"
proof -
  have apart: "{a ..< a + n} \<inter> {b ..< b + k} = {}" if "own j = Some (b, k)" for j b k
    using owned_okD(5) [OF assms(1) that] assms(2) by blast
  have old: "0 < b \<and> 0 < k \<and> k < 2 ^ 31 \<and> b + k < 2 ^ 32 \<and> (S - {a ..< a + n}) \<inter> {b ..< b + k} = {}"
    if "own j = Some (b, k)" for j b k
    using owned_okD [OF assms(1) that] by blast
  show ?thesis
    unfolding owned_ok_def
  proof (intro conjI allI impI)
    fix j b k l c m
    assume "j \<noteq> l" "(own(i \<mapsto> (a, n))) j = Some (b, k)" "(own(i \<mapsto> (a, n))) l = Some (c, m)"
    then show "{b ..< b + k} \<inter> {c ..< c + m} = {}"
      using apart owned_ok_apart [OF assms(1)] by (auto split: if_splits)
  qed (use old assms(3-6) in \<open>auto split: if_splits\<close>)
qed

lemma owned_ok_drop:
  assumes "owned_ok S own" and "own i = Some (a, n)" and "T \<subseteq> S \<union> {a ..< a + n}"
  shows "owned_ok T (own(i := None))"
proof -
  have "T \<inter> {b ..< b + k} = {}" if "j \<noteq> i" "own j = Some (b, k)" for j b k
    using owned_ok_apart [OF assms(1) that(1) that(2) assms(2)] owned_okD(5) [OF assms(1) that(2)] assms(3)
    by blast
  then show ?thesis
    using assms(1) unfolding owned_ok_def
    by (auto split: if_splits)
qed

locale space_alloc =
  fixes alloc :: "'m \<Rightarrow> nat \<Rightarrow> nat \<times> 'm"
    and release :: "'m \<Rightarrow> nat \<Rightarrow> nat \<Rightarrow> 'm option"
    and wf :: "'m \<Rightarrow> bool"
    and space :: "'m \<Rightarrow> nat set"
  assumes alloc_some:
      "wf m \<Longrightarrow> 0 < n \<Longrightarrow> alloc m n = (a, m') \<Longrightarrow> a \<noteq> 0 \<Longrightarrow>
       wf m' \<and> a + n < 2 ^ 32 \<and> {a ..< a + n} \<subseteq> space m \<and> space m' = space m - {a ..< a + n}"
    and alloc_none: "wf m \<Longrightarrow> 0 < n \<Longrightarrow> alloc m n = (0, m') \<Longrightarrow> m' = m"
    and release_ok:
      "wf m \<Longrightarrow> 0 < a \<Longrightarrow> 0 < n \<Longrightarrow> n < 2 ^ 31 \<Longrightarrow> a + n < 2 ^ 32 \<Longrightarrow>
       space m \<inter> {a ..< a + n} = {} \<Longrightarrow>
       \<exists>m'. release m n a = Some m' \<and> wf m' \<and> space m' \<subseteq> space m \<union> {a ..< a + n}"
begin

lemma alloc_owned:
  assumes "wf m" "owned_ok (space m) own" "0 < n" "n < 2 ^ 31" "alloc m n = (a, m')" "a \<noteq> 0"
  shows "wf m' \<and> owned_ok (space m') (own(i \<mapsto> (a, n)))"
  using alloc_some [OF assms(1,3,5,6)] owned_ok_take [OF assms(2), of a n i] assms by auto

lemma release_owned:
  assumes "wf m" "owned_ok (space m) own" "own i = Some (a, n)"
  shows "\<exists>m'. release m n a = Some m' \<and> wf m' \<and> owned_ok (space m') (own(i := None))"
proof -
  obtain m' where "release m n a = Some m'" "wf m'" "space m' \<subseteq> space m \<union> {a ..< a + n}"
    using release_ok [OF assms(1) owned_okD [OF assms(2,3)]] by blast
  then show ?thesis using owned_ok_drop [OF assms(2,3)] by blast
qed

text \<open>A range can be taken and given back at once without disturbing the table.\<close>

lemma alloc_release_owned:
  assumes "wf m" "owned_ok (space m) own" "0 < n" "n < 2 ^ 31" "alloc m n = (a, m')" "a \<noteq> 0"
  shows "\<exists>m''. release m' n a = Some m'' \<and> wf m'' \<and> owned_ok (space m'') own \<and> space m'' \<subseteq> space m"
proof -
  have a: "wf m'" "a + n < 2 ^ 32" "{a ..< a + n} \<subseteq> space m" "space m' = space m - {a ..< a + n}"
    using alloc_some [OF assms(1,3,5,6)] by auto
  then obtain m'' where r: "release m' n a = Some m''" "wf m''" "space m'' \<subseteq> space m' \<union> {a ..< a + n}"
    using release_ok [of m' a n] assms(3,4,6) by auto
  then have "space m'' \<subseteq> space m" using a by auto
  then have "owned_ok (space m'') own" using assms(2) unfolding owned_ok_def by blast
  then show ?thesis using r \<open>space m'' \<subseteq> space m\<close> by blast
qed

end

end
