(* ===== verification/Rmap.thy ===== *)
theory Rmap
  imports Space_Alloc
begin

text \<open>
  The resource map allocator of \<^verbatim>\<open>os/rmap.c\<close>: a dense array of free segments in address order,
  ended by an entry of size 0, with a count of unused slots. A map is the list of its entries
  before that delimiter, so a loop \<^verbatim>\<open>for (bp = ep; bp->m_size; bp++)\<close> runs over the list.
  The lock of the map is held across every operation below, so each is one atomic step;
  \<open>rmalloc_wait\<close> gives up the lock while it sleeps and takes what other threads do to the
  map meanwhile as an argument.
\<close>

section \<open>Data\<close>

record map_ent =
  m_size :: nat
  m_addr :: nat

record map_head =
  mh_free :: nat
  mh_want :: nat
  mh_nam :: string
  mh_size :: nat
  mh_map :: "map_ent list"

text \<open>
  \<^verbatim>\<open>sizeof (struct map_head)\<close> is 36 and \<^verbatim>\<open>sizeof (struct map)\<close> is 8 (a \<^verbatim>\<open>kmutex_t\<close> takes 8 bytes,
  a \<^verbatim>\<open>kcondvar_t\<close> 2, padded to 4).
\<close>

definition MAP_OVERHEAD :: nat where
  "MAP_OVERHEAD = (36 + 2 * 8 - 1) div 8"

section \<open>Operations\<close>

definition mapinit :: "nat \<Rightarrow> nat \<Rightarrow> string \<Rightarrow> nat \<Rightarrow> map_head kres" where
  "mapinit sz addr name mapsize =
     (if mapsize < MAP_OVERHEAD + 1 then Inl (Panic ''mapinit: map too small'')
      else
        let slots = mapsize - MAP_OVERHEAD in
        Inr \<lparr>mh_free = (if sz \<noteq> 0 then slots - 1 else slots),
             mh_want = 0, mh_nam = name, mh_size = slots,
             mh_map = (if sz \<noteq> 0 then [\<lparr>m_size = sz, m_addr = addr\<rparr>] else [])\<rparr>)"

text \<open>\<open>kmem_ok\<close> says whether \<^verbatim>\<open>kmem_zalloc(..., KM_NOSLEEP)\<close> finds the memory.\<close>

definition rmallocmap :: "bool \<Rightarrow> nat \<Rightarrow> map_head option kres" where
  "rmallocmap kmem_ok mapsize =
     (if \<not> kmem_ok then Inr None
      else map_sum id Some (mapinit 0 0 ''rmallocmap'' (uadd mapsize MAP_OVERHEAD)))"

definition rmallocmap_wait :: "nat \<Rightarrow> map_head kres" where
  "rmallocmap_wait mapsize = mapinit 0 0 ''rmallocmap'' (uadd mapsize MAP_OVERHEAD)"

text \<open>
  The first-fit search: the base of the block, the entries that remain, and whether an entry
  was used up.
\<close>

fun rmalloc_scan :: "nat \<Rightarrow> map_ent list \<Rightarrow> (nat \<times> map_ent list \<times> bool) option" where
  "rmalloc_scan sz [] = None"
| "rmalloc_scan sz (bp # bps) =
     (if sz \<le> m_size bp then
        (let bp' = bp\<lparr>m_addr := uadd (m_addr bp) sz, m_size := m_size bp - sz\<rparr>
         in if m_size bp' = 0 then Some (m_addr bp, bps, True)
            else Some (m_addr bp, bp' # bps, False))
      else
        (case rmalloc_scan sz bps of
           None \<Rightarrow> None
         | Some (addr, bps', used) \<Rightarrow> Some (addr, bp # bps', used)))"

definition rmalloc_locked :: "map_head \<Rightarrow> nat \<Rightarrow> nat \<times> map_head" where
  "rmalloc_locked mp sz =
     (case rmalloc_scan sz (mh_map mp) of
        None \<Rightarrow> (0, mp)
      | Some (addr, bps, used) \<Rightarrow>
          (addr, mp\<lparr>mh_map := bps, mh_free := (if used then mh_free mp + 1 else mh_free mp)\<rparr>))"

definition rmalloc :: "map_head \<Rightarrow> nat \<Rightarrow> nat \<times> map_head" where
  "rmalloc mp sz = rmalloc_locked mp sz"

text \<open>
  \<open>rmalloc_wait\<close> takes, for each time the thread sleeps, what the other threads do to the map
  before it wakes; it is still asleep (\<open>None\<close>) when the list is used up.
\<close>

fun rmalloc_wait :: "(map_head \<Rightarrow> map_head) list \<Rightarrow> map_head \<Rightarrow> nat \<Rightarrow> nat option \<times> map_head" where
  "rmalloc_wait [] mp sz =
     (let (addr, mp') = rmalloc_locked mp sz
      in if addr = 0 then (None, mp'\<lparr>mh_want := 1\<rparr>) else (Some addr, mp'))"
| "rmalloc_wait (env # envs) mp sz =
     (let (addr, mp') = rmalloc_locked mp sz
      in if addr = 0 then rmalloc_wait envs (env (mp'\<lparr>mh_want := 1\<rparr>)) sz
         else (Some addr, mp'))"

text \<open>
  Map overflow: the smaller of the last two entries is dropped. With fewer than two entries the
  code reads in front of the array.
\<close>

definition rmap_discard :: "map_ent list \<Rightarrow> map_ent list kres" where
  "rmap_discard bps =
     (case rev bps of
        bp # bp1 # rest \<Rightarrow>
          (if m_size bp > m_size bp1 then Inr (rev rest @ [bp]) else Inr (rev rest @ [bp1]))
      | _ \<Rightarrow> Inl (Wild ''rmfree: (bp-1)->m_size before the map''))"

text \<open>
  The lock of the map is dropped to log the loss, before the retry. \<open>envs\<close> is what the other
  threads do to the map each time; when the list is used up they do nothing more.

  The entries with \<^verbatim>\<open>m_addr <= addr\<close> (\<open>ls\<close>, whose last is \<^verbatim>\<open>bp-1\<close>) and the rest (\<open>rs\<close>, whose
  first is \<^verbatim>\<open>bp\<close>) are what the search loop leaves; the block then joins its left neighbour, its
  right one, both or none.
\<close>

function rmfree_retry :: "(map_head \<Rightarrow> map_head) list \<Rightarrow> map_head \<Rightarrow> nat \<Rightarrow> nat \<Rightarrow> map_head kres" where
  "rmfree_retry envs mp sz addr =
     (let ls = takeWhile (\<lambda>bp. m_addr bp \<le> addr) (mh_map mp);
          rs = dropWhile (\<lambda>bp. m_addr bp \<le> addr) (mh_map mp);
          pv = last ls
      in
        if ls \<noteq> [] \<and> uadd (m_addr pv) (m_size pv) \<ge> addr then
          (if uadd (m_addr pv) (m_size pv) > addr then Inl (Panic ''bad rmfree'')
           else
             let pv' = pv\<lparr>m_size := uadd (m_size pv) sz\<rparr> in
             case rs of
               bp # rs' \<Rightarrow>
                 (if uadd addr sz \<ge> m_addr bp then
                    (if uadd addr sz > m_addr bp then Inl (Panic ''bad rmfree'')
                     else Inr (mp\<lparr>mh_map :=
                                   butlast ls @ [pv'\<lparr>m_size := uadd (m_size pv') (m_size bp)\<rparr>] @ rs',
                                  mh_free := mh_free mp + 1\<rparr>))
                  else Inr (mp\<lparr>mh_map := butlast ls @ [pv'] @ rs\<rparr>))
             | [] \<Rightarrow> Inr (mp\<lparr>mh_map := butlast ls @ [pv']\<rparr>))
        else if rs \<noteq> [] \<and> uadd addr sz \<ge> m_addr (hd rs) then
          (if uadd addr sz > m_addr (hd rs) then Inl (Panic ''bad rmfree'')
           else
             let bp = hd rs in
             Inr (mp\<lparr>mh_map := ls @ bp\<lparr>m_addr := usub (m_addr bp) sz,
                                      m_size := uadd (m_size bp) sz\<rparr> # tl rs\<rparr>))
        else if mh_free mp = 0 then
          (case rmap_discard (mh_map mp) of
             Inl f \<Rightarrow> Inl f
           | Inr bps \<Rightarrow>
               let mp1 = mp\<lparr>mh_map := bps, mh_free := mh_free mp + 1\<rparr> in
               (case envs of
                  [] \<Rightarrow> rmfree_retry [] mp1 sz addr
                | env # envs' \<Rightarrow> rmfree_retry envs' (env mp1) sz addr))
        else
          Inr (mp\<lparr>mh_map := ls @ \<lparr>m_size = sz, m_addr = addr\<rparr> # rs,
                  mh_free := mh_free mp - 1\<rparr>))"
  by pat_completeness auto
termination
  by (relation "measures [\<lambda>(envs, mp, sz, addr). length envs, \<lambda>(envs, mp, sz, addr). if mh_free mp = 0 then 1 else 0]") auto

declare rmfree_retry.simps [simp del]

text \<open>The boolean says whether the sleepers on the map are woken.\<close>

definition rmfree_among :: "(map_head \<Rightarrow> map_head) list \<Rightarrow> map_head \<Rightarrow> nat \<Rightarrow> nat \<Rightarrow> (bool \<times> map_head) kres" where
  "rmfree_among envs mp sz addr =
     (if addr = 0 \<or> \<not> ssize_pos sz then Inl (Panic ''bad rmfree'')
      else
        case rmfree_retry envs mp sz addr of
          Inl f \<Rightarrow> Inl f
        | Inr mp' \<Rightarrow>
            Inr (if mh_want mp' \<noteq> 0 then (True, mp'\<lparr>mh_want := 0\<rparr>) else (False, mp')))"

text \<open>With no other thread at work on the map while the lock is dropped.\<close>

definition rmfree :: "map_head \<Rightarrow> nat \<Rightarrow> nat \<Rightarrow> (bool \<times> map_head) kres" where
  "rmfree mp sz addr = rmfree_among [] mp sz addr"

definition rmget :: "map_head \<Rightarrow> nat \<Rightarrow> nat \<Rightarrow> (nat \<times> map_head) kres" where
  "rmget mp sz addr =
     (if \<not> ssize_pos sz then Inl (Panic ''rmget'')
      else
        let P = (\<lambda>bp. \<not> (m_addr bp \<le> addr \<and> addr < uadd (m_addr bp) (m_size bp)));
            ls = takeWhile P (mh_map mp);
            rs = dropWhile P (mh_map mp)
        in
          case rs of
            [] \<Rightarrow> Inr (0, mp)
          | bp # rs' \<Rightarrow>
              if uadd (m_addr bp) (m_size bp) < uadd addr sz then Inr (0, mp)
              else if m_addr bp = addr then
                (if m_size bp = sz then
                   Inr (addr, mp\<lparr>mh_map := ls @ rs', mh_free := mh_free mp + 1\<rparr>)
                 else
                   Inr (addr, mp\<lparr>mh_map := ls @ bp\<lparr>m_addr := uadd (m_addr bp) sz,
                                                  m_size := usub (m_size bp) sz\<rparr> # rs'\<rparr>))
              else if uadd (m_addr bp) (m_size bp) = uadd addr sz then
                Inr (addr, mp\<lparr>mh_map := ls @ bp\<lparr>m_size := usub (m_size bp) sz\<rparr> # rs'\<rparr>)
              else if mh_free mp = 0 then Inr (0, mp)
              else
                Inr (addr,
                  mp\<lparr>mh_map :=
                       ls @ bp\<lparr>m_size := usub addr (m_addr bp)\<rparr>
                          # \<lparr>m_size = usub (uadd (m_addr bp) (m_size bp)) (uadd addr sz),
                             m_addr = uadd addr sz\<rparr>
                          # rs',
                     mh_free := mh_free mp - 1\<rparr>))"

section \<open>The free space of a map\<close>

text \<open>
  The abstract value of a map is the set of free addresses (\<open>rm_space\<close>). The invariant says that
  the segments are in address order with a gap between any two of them (adjacent segments are
  always merged), that none starts at 0 or reaches the end of the 32-bit address space, and that
  the used and unused slots add up.
\<close>

definition ent_end :: "map_ent \<Rightarrow> nat" where
  "ent_end bp = m_addr bp + m_size bp"

definition ent_space :: "map_ent \<Rightarrow> nat set" where
  "ent_space bp = {m_addr bp ..< ent_end bp}"

definition segs_space :: "map_ent list \<Rightarrow> nat set" where
  "segs_space bps = (\<Union>bp \<in> set bps. ent_space bp)"

fun segs_ok :: "nat \<Rightarrow> map_ent list \<Rightarrow> bool" where
  "segs_ok b [] = True"
| "segs_ok b (bp # bps) =
     (b < m_addr bp \<and> 0 < m_size bp \<and> ent_end bp < 2 ^ 32 \<and> segs_ok (ent_end bp) bps)"

fun segs_end :: "nat \<Rightarrow> map_ent list \<Rightarrow> nat" where
  "segs_end b [] = b"
| "segs_end b (bp # bps) = segs_end (ent_end bp) bps"

definition rmap_inv :: "map_head \<Rightarrow> bool" where
  "rmap_inv mp \<longleftrightarrow> segs_ok 0 (mh_map mp) \<and> length (mh_map mp) + mh_free mp = mh_size mp"

definition rm_space :: "map_head \<Rightarrow> nat set" where
  "rm_space mp = segs_space (mh_map mp)"

lemma segs_space_simps [simp]:
  "segs_space [] = {}"
  "segs_space (bp # bps) = ent_space bp \<union> segs_space bps"
  "segs_space (xs @ ys) = segs_space xs \<union> segs_space ys"
  by (auto simp: segs_space_def)

lemma segs_ok_append [simp]:
  "segs_ok b (xs @ ys) \<longleftrightarrow> segs_ok b xs \<and> segs_ok (segs_end b xs) ys"
  by (induction xs arbitrary: b) auto

lemma segs_end_append [simp]: "segs_end b (xs @ ys) = segs_end (segs_end b xs) ys"
  by (induction xs arbitrary: b) auto

lemma segs_end_last: "xs \<noteq> [] \<Longrightarrow> segs_end b xs = ent_end (last xs)"
  by (induction xs arbitrary: b) (auto simp: neq_Nil_conv)

lemma segs_ok_mono: "segs_ok b xs \<Longrightarrow> b' \<le> b \<Longrightarrow> segs_ok b' xs"
  by (cases xs) auto

lemma segs_end_ge: "segs_ok b xs \<Longrightarrow> b \<le> segs_end b xs"
proof (induction xs arbitrary: b)
  case (Cons x xs)
  then have "ent_end x \<le> segs_end (ent_end x) xs" by simp
  then show ?case using Cons.prems by (simp add: ent_end_def)
qed simp

lemma segs_ok_member:
  "segs_ok b xs \<Longrightarrow> x \<in> set xs \<Longrightarrow>
   b < m_addr x \<and> 0 < m_size x \<and> ent_end x < 2 ^ 32 \<and> ent_end x \<le> segs_end b xs"
proof (induction xs arbitrary: b)
  case (Cons y ys)
  show ?case
  proof (cases "x = y")
    case True
    then show ?thesis using Cons.prems segs_end_ge [of "ent_end y" ys] by simp
  next
    case False
    then have "ent_end y < m_addr x \<and> 0 < m_size x \<and> ent_end x < 2 ^ 32
               \<and> ent_end x \<le> segs_end (ent_end y) ys"
      using Cons.IH [of "ent_end y"] Cons.prems by simp
    then show ?thesis using Cons.prems by (auto simp: ent_end_def)
  qed
qed simp

lemma segs_space_bounds:
  "segs_ok b xs \<Longrightarrow> n \<in> segs_space xs \<Longrightarrow> b < n \<and> n < segs_end b xs"
  using segs_ok_member [of b xs]
  by (fastforce simp: segs_space_def ent_space_def)

lemma rmalloc_scan_split:
  "rmalloc_scan sz bps = Some (addr, bps', used) \<Longrightarrow>
   \<exists>ls bp rs. bps = ls @ bp # rs \<and> (\<forall>x \<in> set ls. m_size x < sz) \<and> sz \<le> m_size bp
     \<and> addr = m_addr bp \<and> used = (m_size bp = sz)
     \<and> bps' = ls @ (if m_size bp = sz then rs
           else bp\<lparr>m_addr := uadd (m_addr bp) sz, m_size := m_size bp - sz\<rparr> # rs)"
proof (induction bps arbitrary: bps')
  case (Cons b bps)
  show ?case
  proof (cases "sz \<le> m_size b")
    case True
    then show ?thesis using Cons.prems
      by (intro exI [of _ "[]"] exI [of _ b] exI [of _ bps]) (auto simp: Let_def split: if_splits)
  next
    case False
    with Cons.prems obtain q where q: "rmalloc_scan sz bps = Some (addr, q, used)" "bps' = b # q"
      by (auto split: option.splits)
    obtain ls bp rs where "bps = ls @ bp # rs" "\<forall>x \<in> set ls. m_size x < sz" "sz \<le> m_size bp"
      "addr = m_addr bp" "used = (m_size bp = sz)"
      "q = ls @ (if m_size bp = sz then rs
           else bp\<lparr>m_addr := uadd (m_addr bp) sz, m_size := m_size bp - sz\<rparr> # rs)"
      using Cons.IH [OF q(1)] by blast
    then show ?thesis using False q(2)
      by (intro exI [of _ "b # ls"] exI [of _ bp] exI [of _ rs]) auto
  qed
qed simp

lemma rmalloc_scan_None:
  "rmalloc_scan sz bps = None \<longleftrightarrow> (\<forall>bp \<in> set bps. m_size bp < sz)"
  by (induction bps) (auto simp: Let_def split: option.splits)

lemma rmalloc_scan_correct:
  assumes "rmalloc_scan sz bps = Some (addr, bps', used)" and ok: "segs_ok b bps" and "0 < sz"
  shows "segs_ok b bps'" and "b < addr" and "addr + sz < 2 ^ 32"
    and "{addr ..< addr + sz} \<subseteq> segs_space bps"
    and "segs_space bps' = segs_space bps - {addr ..< addr + sz}"
    and "length bps' + (if used then 1 else 0) = length bps"
proof -
  obtain ls bp rs where l: "bps = ls @ bp # rs" and fit: "sz \<le> m_size bp" and a: "addr = m_addr bp"
    and u: "used = (m_size bp = sz)"
    and l': "bps' = ls @ (if m_size bp = sz then rs
           else bp\<lparr>m_addr := uadd (m_addr bp) sz, m_size := m_size bp - sz\<rparr> # rs)"
    using rmalloc_scan_split [OF assms(1)] by blast
  have okl: "segs_ok b ls" "segs_end b ls < m_addr bp" "ent_end bp < 2 ^ 32" "segs_ok (ent_end bp) rs"
    using ok l by auto
  have e: "m_addr bp + sz \<le> ent_end bp" using fit by (simp add: ent_end_def)
  have below: "n < m_addr bp" if "n \<in> segs_space ls" for n
    using segs_space_bounds [OF okl(1) that] okl(2) by simp
  have above: "ent_end bp < n" if "n \<in> segs_space rs" for n
    using segs_space_bounds [OF okl(4) that] by simp
  show "segs_ok b bps'" using okl l' e fit
    by (auto simp: ent_end_def intro: segs_ok_mono)
  show "b < addr" using segs_end_ge [OF okl(1)] okl(2) a by simp
  show "addr + sz < 2 ^ 32" using e okl(3) a by simp
  show "{addr ..< addr + sz} \<subseteq> segs_space bps" using l a e by (auto simp: ent_space_def)
  show "length bps' + (if used then 1 else 0) = length bps" using l l' u by simp
  show "segs_space bps' = segs_space bps - {addr ..< addr + sz}"
    using l l' a e okl(3) fit by (auto simp: ent_space_def ent_end_def dest: below above)
qed

section \<open>Giving space back\<close>

lemma space_last:
  assumes "segs_ok b ls" and "ls \<noteq> []" and "ent_end (last ls) \<le> a"
  shows "segs_space ls \<inter> {a ..< e} = {}"
  using segs_space_bounds [OF assms(1)] segs_end_last [OF assms(2), of b] assms(3) by fastforce

lemma space_first:
  assumes "segs_ok b rs" and "rs \<noteq> []" and "e \<le> m_addr (hd rs)"
  shows "segs_space rs \<inter> {a ..< e} = {}"
proof -
  have "m_addr (hd rs) \<le> n" if "n \<in> segs_space rs" for n
  proof (cases rs)
    case (Cons y ys)
    then show ?thesis using that assms(1) segs_space_bounds [of "ent_end y" ys n]
      by (auto simp: ent_space_def ent_end_def)
  qed (use assms in simp)
  then show ?thesis using assms(3) by fastforce
qed

lemma ent_space_nonempty: "0 < m_size bp \<Longrightarrow> m_addr bp \<in> ent_space bp"
  by (simp add: ent_space_def ent_end_def)

text \<open>How the search of \<open>rmfree\<close> splits a well-formed map around an address.\<close>

lemma rmfree_split:
  assumes "segs_ok 0 bps"
    and "ls = takeWhile (\<lambda>bp. m_addr bp \<le> addr) bps"
    and "rs = dropWhile (\<lambda>bp. m_addr bp \<le> addr) bps"
  shows "bps = ls @ rs" and "segs_ok 0 ls" and "segs_ok (segs_end 0 ls) rs"
    and "ls \<noteq> [] \<Longrightarrow> m_addr (last ls) \<le> addr"
    and "rs \<noteq> [] \<Longrightarrow> addr < m_addr (hd rs)"
proof -
  show eq: "bps = ls @ rs" using assms by simp
  show "segs_ok 0 ls" "segs_ok (segs_end 0 ls) rs" using assms(1) eq by auto
  show "ls \<noteq> [] \<Longrightarrow> m_addr (last ls) \<le> addr"
    using assms(2) by (metis last_in_set set_takeWhileD)
  show "rs \<noteq> [] \<Longrightarrow> addr < m_addr (hd rs)"
    using assms(3) hd_dropWhile [of "\<lambda>bp. m_addr bp \<le> addr" bps] by auto
qed

text \<open>
  The block lies in a gap of the map exactly when neither neighbour reaches into it.
\<close>

lemma gap_iff:
  assumes ok: "segs_ok 0 (ls @ rs)" and "0 < sz"
    and left: "ls \<noteq> [] \<Longrightarrow> m_addr (last ls) \<le> addr"
    and right: "rs \<noteq> [] \<Longrightarrow> addr < m_addr (hd rs)"
  shows "segs_space (ls @ rs) \<inter> {addr ..< addr + sz} = {} \<longleftrightarrow>
    (ls \<noteq> [] \<longrightarrow> ent_end (last ls) \<le> addr) \<and> (rs \<noteq> [] \<longrightarrow> addr + sz \<le> m_addr (hd rs))"
    (is "?disj \<longleftrightarrow> ?gap")
proof
  assume ?gap
  then show ?disj using ok space_last [of 0 ls addr] space_first [of "segs_end 0 ls" rs]
    by (cases "ls = []"; cases "rs = []") (auto simp: Int_Un_distrib2)
next
  assume d: ?disj
  have "ent_end (last ls) \<le> addr" if "ls \<noteq> []"
  proof (rule ccontr)
    assume "\<not> ent_end (last ls) \<le> addr"
    then have "addr \<in> ent_space (last ls)" using left [OF that] by (simp add: ent_space_def)
    moreover have "ent_space (last ls) \<subseteq> segs_space (ls @ rs)"
      using that by (auto simp: segs_space_def)
    ultimately show False using d \<open>0 < sz\<close> by auto
  qed
  moreover have "addr + sz \<le> m_addr (hd rs)" if "rs \<noteq> []"
  proof (rule ccontr)
    assume "\<not> addr + sz \<le> m_addr (hd rs)"
    moreover have "m_addr (hd rs) \<in> segs_space (ls @ rs)"
      using that ok ent_space_nonempty by (cases rs) auto
    ultimately show False using d right [OF that] by auto
  qed
  ultimately show ?gap by blast
qed

text \<open>The four ways a block in a gap enters the map.\<close>

lemma join_left:
  assumes ok: "segs_ok 0 (ls @ rs)" and "ls \<noteq> []" and "ent_end (last ls) = addr"
    and "rs \<noteq> [] \<Longrightarrow> addr + sz < m_addr (hd rs)" and "addr + sz < 2 ^ 32"
    and "pv = (last ls)\<lparr>m_size := m_size (last ls) + sz\<rparr>"
  shows "segs_ok 0 (butlast ls @ [pv] @ rs)"
    and "segs_space (butlast ls @ [pv] @ rs) = segs_space (ls @ rs) \<union> {addr ..< addr + sz}"
proof -
  have l: "ls = butlast ls @ [last ls]" using assms(2) by simp
  have okb: "segs_ok 0 (butlast ls)" "segs_end 0 (butlast ls) < m_addr (last ls)"
    "0 < m_size (last ls)" "segs_ok (ent_end (last ls)) rs"
    using ok by (subst (asm) l, simp)+
  show "segs_ok 0 (butlast ls @ [pv] @ rs)" using okb assms(3-6)
    by (cases rs) (auto simp: ent_end_def)
  show "segs_space (butlast ls @ [pv] @ rs) = segs_space (ls @ rs) \<union> {addr ..< addr + sz}"
    using assms(3,6) by (subst (2) l) (auto simp: ent_space_def ent_end_def)
qed

lemma join_both:
  assumes ok: "segs_ok 0 (ls @ bp # rs)" and "ls \<noteq> []" and "ent_end (last ls) = addr"
    and "addr + sz = m_addr bp"
    and "pv = (last ls)\<lparr>m_size := m_size (last ls) + sz + m_size bp\<rparr>"
  shows "segs_ok 0 (butlast ls @ [pv] @ rs)"
    and "segs_space (butlast ls @ [pv] @ rs) = segs_space (ls @ bp # rs) \<union> {addr ..< addr + sz}"
proof -
  have l: "ls = butlast ls @ [last ls]" using assms(2) by simp
  have okb: "segs_ok 0 (butlast ls)" "segs_end 0 (butlast ls) < m_addr (last ls)"
    "0 < m_size (last ls)" "segs_ok (ent_end bp) rs" "ent_end bp < 2 ^ 32"
    using ok by (subst (asm) l, simp)+
  have "ent_end pv = ent_end bp" using assms(3-5) by (simp add: ent_end_def)
  then show "segs_ok 0 (butlast ls @ [pv] @ rs)" using okb assms(5) by simp
  show "segs_space (butlast ls @ [pv] @ rs) = segs_space (ls @ bp # rs) \<union> {addr ..< addr + sz}"
    using assms(3-5) by (subst (2) l) (auto simp: ent_space_def ent_end_def)
qed

lemma join_right:
  assumes ok: "segs_ok 0 (ls @ bp # rs)" and "ls \<noteq> [] \<Longrightarrow> ent_end (last ls) < addr"
    and "addr + sz = m_addr bp" and "0 < addr"
    and "bp' = bp\<lparr>m_addr := addr, m_size := m_size bp + sz\<rparr>"
  shows "segs_ok 0 (ls @ bp' # rs)"
    and "segs_space (ls @ bp' # rs) = segs_space (ls @ bp # rs) \<union> {addr ..< addr + sz}"
proof -
  have "segs_end 0 ls < addr" using assms(2,4) segs_end_last [of ls 0] by (cases "ls = []") auto
  moreover have "ent_end bp' = ent_end bp" using assms(3,5) by (simp add: ent_end_def)
  ultimately show "segs_ok 0 (ls @ bp' # rs)" using assms(5) ok by auto
  show "segs_space (ls @ bp' # rs) = segs_space (ls @ bp # rs) \<union> {addr ..< addr + sz}"
    using assms(3,5) by (auto simp: ent_space_def ent_end_def)
qed

lemma join_none:
  assumes ok: "segs_ok 0 (ls @ rs)" and "ls \<noteq> [] \<Longrightarrow> ent_end (last ls) < addr"
    and "rs \<noteq> [] \<Longrightarrow> addr + sz < m_addr (hd rs)" and "0 < addr" and "0 < sz" and "addr + sz < 2 ^ 32"
    and "bp = \<lparr>m_size = sz, m_addr = addr\<rparr>"
  shows "segs_ok 0 (ls @ bp # rs)"
    and "segs_space (ls @ bp # rs) = segs_space (ls @ rs) \<union> {addr ..< addr + sz}"
proof -
  have "segs_end 0 ls < addr" using assms(2,4) segs_end_last [of ls 0] by (cases "ls = []") auto
  then show "segs_ok 0 (ls @ bp # rs)" using assms ok by (cases rs) (auto simp: ent_end_def)
  show "segs_space (ls @ bp # rs) = segs_space (ls @ rs) \<union> {addr ..< addr + sz}"
    using assms(7) by (auto simp: ent_space_def ent_end_def)
qed

definition rm_touches :: "map_head \<Rightarrow> nat \<Rightarrow> nat \<Rightarrow> bool" where
  "rm_touches mp sz addr \<longleftrightarrow> (\<exists>bp \<in> set (mh_map mp). ent_end bp = addr \<or> m_addr bp = addr + sz)"

text \<open>
  \<open>rmfree_at mp ls rs sz addr\<close>: the search of \<open>rmfree\<close> splits the well-formed map \<open>mp\<close> into
  \<open>ls\<close> and \<open>rs\<close>, and the block lies in the gap between them.
\<close>

definition rmfree_at :: "map_head \<Rightarrow> map_ent list \<Rightarrow> map_ent list \<Rightarrow> nat \<Rightarrow> nat \<Rightarrow> bool" where
  "rmfree_at mp ls rs sz addr \<longleftrightarrow>
     takeWhile (\<lambda>bp. m_addr bp \<le> addr) (mh_map mp) = ls
     \<and> dropWhile (\<lambda>bp. m_addr bp \<le> addr) (mh_map mp) = rs
     \<and> segs_ok 0 (ls @ rs)
     \<and> (ls \<noteq> [] \<longrightarrow> ent_end (last ls) \<le> addr) \<and> (rs \<noteq> [] \<longrightarrow> addr + sz \<le> m_addr (hd rs))
     \<and> 0 < addr \<and> 0 < sz \<and> addr + sz < 2 ^ 32"

lemma rmfree_at_exists:
  assumes "rmap_inv mp" and "0 < addr" "0 < sz" "addr + sz < 2 ^ 32"
    and "rm_space mp \<inter> {addr ..< addr + sz} = {}"
  shows "\<exists>ls rs. rmfree_at mp ls rs sz addr"
proof -
  have ok: "segs_ok 0 (mh_map mp)" using assms(1) by (simp add: rmap_inv_def)
  note sp = rmfree_split [OF ok refl refl, of addr]
  let ?ls = "takeWhile (\<lambda>bp. m_addr bp \<le> addr) (mh_map mp)"
  let ?rs = "dropWhile (\<lambda>bp. m_addr bp \<le> addr) (mh_map mp)"
  have "segs_ok 0 (?ls @ ?rs)" using ok by simp
  note gap_iff [OF this assms(3) sp(4,5)]
  then have "rmfree_at mp ?ls ?rs sz addr"
    using assms(2-5) ok unfolding rmfree_at_def rm_space_def takeWhile_dropWhile_id by blast
  then show ?thesis by blast
qed

lemma rmfree_at_map: "rmfree_at mp ls rs sz addr \<Longrightarrow> mh_map mp = ls @ rs"
  using takeWhile_dropWhile_id [of "\<lambda>bp. m_addr bp \<le> addr" "mh_map mp"]
  by (simp add: rmfree_at_def)

lemma rmfree_at_bounds:
  assumes "rmfree_at mp ls rs sz addr"
  shows "addr + sz < 2 ^ 32"
    and "ls \<noteq> [] \<Longrightarrow> m_addr (last ls) + m_size (last ls) < 2 ^ 32"
    and "ls = xs @ [pv] \<Longrightarrow> ent_end pv = addr \<Longrightarrow> m_size pv + sz < 2 ^ 32"
    and "rs = bp # rs' \<Longrightarrow> addr + sz = m_addr bp \<Longrightarrow> m_size bp + sz < 2 ^ 32 \<and> m_addr bp < 2 ^ 32"
    and "ls = xs @ [pv] \<Longrightarrow> rs = bp # rs' \<Longrightarrow> ent_end pv = addr \<Longrightarrow> addr + sz = m_addr bp
           \<Longrightarrow> m_size pv + sz + m_size bp < 2 ^ 32"
proof -
  have ok: "segs_ok 0 (ls @ rs)" and gl: "ls \<noteq> [] \<longrightarrow> ent_end (last ls) \<le> addr"
    and lim: "addr + sz < 2 ^ 32"
    using assms unfolding rmfree_at_def by blast+
  show "addr + sz < 2 ^ 32" by (rule lim)
  show "ls \<noteq> [] \<Longrightarrow> m_addr (last ls) + m_size (last ls) < 2 ^ 32"
    using gl lim by (simp add: ent_end_def)
  show "ls = xs @ [pv] \<Longrightarrow> ent_end pv = addr \<Longrightarrow> m_size pv + sz < 2 ^ 32"
    using lim by (simp add: ent_end_def)
  show "rs = bp # rs' \<Longrightarrow> addr + sz = m_addr bp \<Longrightarrow> m_size bp + sz < 2 ^ 32 \<and> m_addr bp < 2 ^ 32"
    using ok lim by (auto simp: ent_end_def)
  show "ls = xs @ [pv] \<Longrightarrow> rs = bp # rs' \<Longrightarrow> ent_end pv = addr \<Longrightarrow> addr + sz = m_addr bp
          \<Longrightarrow> m_size pv + sz + m_size bp < 2 ^ 32"
    using ok by (auto simp: ent_end_def)
qed

lemma rmfree_retry_both:
  assumes "rmfree_at mp (xs @ [pv]) (bp # rs) sz addr" "ent_end pv = addr" "addr + sz = m_addr bp"
  shows "rmfree_retry [] mp sz addr = Inr (mp\<lparr>mh_free := mh_free mp + 1,
           mh_map := xs @ pv\<lparr>m_size := m_size pv + sz + m_size bp\<rparr> # rs\<rparr>)"
proof -
  note tw = assms(1) [unfolded rmfree_at_def, THEN conjunct1]
  note dw = assms(1) [unfolded rmfree_at_def, THEN conjunct2, THEN conjunct1]
  note bd = rmfree_at_bounds [OF assms(1)]
  show ?thesis
    using assms(2,3) bd(1,2) bd(3) [OF refl] bd(5) [OF refl refl]
    by (subst rmfree_retry.simps) (simp add: tw dw Let_def ent_end_def add.assoc)
qed

lemma rmfree_retry_left:
  assumes "rmfree_at mp (xs @ [pv]) rs sz addr" "ent_end pv = addr"
    "rs \<noteq> [] \<longrightarrow> addr + sz < m_addr (hd rs)"
  shows "rmfree_retry [] mp sz addr =
           Inr (mp\<lparr>mh_map := xs @ pv\<lparr>m_size := m_size pv + sz\<rparr> # rs\<rparr>)"
proof -
  note tw = assms(1) [unfolded rmfree_at_def, THEN conjunct1]
  note dw = assms(1) [unfolded rmfree_at_def, THEN conjunct2, THEN conjunct1]
  note bd = rmfree_at_bounds [OF assms(1)]
  show ?thesis
    using assms(2,3) bd(1,2) bd(3) [OF refl]
    by (subst rmfree_retry.simps) (cases rs; simp add: tw dw Let_def ent_end_def not_le)
qed

lemma rmfree_retry_right:
  assumes "rmfree_at mp ls (bp # rs) sz addr" "ls \<noteq> [] \<longrightarrow> ent_end (last ls) < addr"
    "addr + sz = m_addr bp"
  shows "rmfree_retry [] mp sz addr =
           Inr (mp\<lparr>mh_map := ls @ bp\<lparr>m_addr := addr, m_size := m_size bp + sz\<rparr> # rs\<rparr>)"
proof -
  note tw = assms(1) [unfolded rmfree_at_def, THEN conjunct1]
  note dw = assms(1) [unfolded rmfree_at_def, THEN conjunct2, THEN conjunct1]
  note bd = rmfree_at_bounds [OF assms(1)]
  have "usub (m_addr bp) sz = addr" using bd(1) by (simp flip: assms(3))
  then show ?thesis
    using assms(2,3) bd(1,2) bd(4) [OF refl]
    by (subst rmfree_retry.simps) (cases "ls = []"; simp add: tw dw Let_def ent_end_def)
qed

lemma rmfree_retry_none:
  assumes "rmfree_at mp ls rs sz addr" "ls \<noteq> [] \<longrightarrow> ent_end (last ls) < addr"
    "rs \<noteq> [] \<longrightarrow> addr + sz < m_addr (hd rs)"
  shows "rmfree_retry envs mp sz addr =
           (if mh_free mp = 0 then
              (case rmap_discard (mh_map mp) of Inl f \<Rightarrow> Inl f
               | Inr bps \<Rightarrow>
                   let mp1 = mp\<lparr>mh_map := bps, mh_free := mh_free mp + 1\<rparr> in
                   (case envs of [] \<Rightarrow> rmfree_retry [] mp1 sz addr | env # envs' \<Rightarrow> rmfree_retry envs' (env mp1) sz addr))
            else Inr (mp\<lparr>mh_free := mh_free mp - 1,
                         mh_map := ls @ \<lparr>m_size = sz, m_addr = addr\<rparr> # rs\<rparr>))"
proof -
  note tw = assms(1) [unfolded rmfree_at_def, THEN conjunct1]
  note dw = assms(1) [unfolded rmfree_at_def, THEN conjunct2, THEN conjunct1]
  note bd = rmfree_at_bounds [OF assms(1)]
  show ?thesis
    using assms(2,3) bd(1,2)
    by (subst rmfree_retry.simps)
      (cases "ls = []"; cases "rs = []"; simp add: tw dw Let_def ent_end_def)
qed

lemma rmfree_at_cases:
  assumes "rmfree_at mp ls rs sz addr"
  obtains (both) xs pv bp rs' where "ls = xs @ [pv]" "rs = bp # rs'"
      "ent_end pv = addr" "addr + sz = m_addr bp"
    | (left) xs pv where "ls = xs @ [pv]" "ent_end pv = addr"
      "rs \<noteq> [] \<longrightarrow> addr + sz < m_addr (hd rs)"
    | (right) bp rs' where "rs = bp # rs'" "ls \<noteq> [] \<longrightarrow> ent_end (last ls) < addr"
      "addr + sz = m_addr bp"
    | (none) "ls \<noteq> [] \<longrightarrow> ent_end (last ls) < addr" "rs \<noteq> [] \<longrightarrow> addr + sz < m_addr (hd rs)"
proof -
  have g: "ls \<noteq> [] \<longrightarrow> ent_end (last ls) \<le> addr" "rs \<noteq> [] \<longrightarrow> addr + sz \<le> m_addr (hd rs)"
    using assms unfolding rmfree_at_def by blast+
  have l: "ls = [] \<or> (\<exists>xs pv. ls = xs @ [pv] \<and> ent_end pv \<le> addr)"
    using g(1) by (cases ls rule: rev_cases) auto
  have r: "rs = [] \<or> (\<exists>bp rs'. rs = bp # rs' \<and> addr + sz \<le> m_addr bp)"
    using g(2) by (cases rs) auto
  show thesis
  proof (cases "ls \<noteq> [] \<and> ent_end (last ls) = addr"; cases "rs \<noteq> [] \<and> addr + sz = m_addr (hd rs)")
    assume "ls \<noteq> [] \<and> ent_end (last ls) = addr" "rs \<noteq> [] \<and> addr + sz = m_addr (hd rs)"
    then show thesis using l r both by force
  next
    assume "ls \<noteq> [] \<and> ent_end (last ls) = addr" "\<not> (rs \<noteq> [] \<and> addr + sz = m_addr (hd rs))"
    then show thesis using l r left by force
  next
    assume "\<not> (ls \<noteq> [] \<and> ent_end (last ls) = addr)" "rs \<noteq> [] \<and> addr + sz = m_addr (hd rs)"
    then show thesis using g r right by force
  next
    assume "\<not> (ls \<noteq> [] \<and> ent_end (last ls) = addr)" "\<not> (rs \<noteq> [] \<and> addr + sz = m_addr (hd rs))"
    then show thesis using g none by force
  qed
qed

lemma rm_touches_none:
  assumes m: "mh_map mp = ls @ rs" and ok: "segs_ok 0 (ls @ rs)"
    and none: "ls \<noteq> [] \<longrightarrow> ent_end (last ls) < addr" "rs \<noteq> [] \<longrightarrow> addr + sz < m_addr (hd rs)"
    and pos: "0 < addr" "0 < sz"
  shows "\<not> rm_touches mp sz addr"
proof
  assume "rm_touches mp sz addr"
  then obtain bp where bp: "bp \<in> set ls \<union> set rs" "ent_end bp = addr \<or> m_addr bp = addr + sz"
    using m by (auto simp: rm_touches_def)
  show False
  proof (cases "bp \<in> set ls")
    case True
    then have "ls \<noteq> []" by auto
    then have "ent_end bp \<le> ent_end (last ls)" "m_addr bp \<le> ent_end bp"
      using True ok segs_ok_member [of 0 ls bp] segs_end_last [of ls 0] by (simp_all add: ent_end_def)
    then show False using bp(2) none(1) pos \<open>ls \<noteq> []\<close> by auto
  next
    case False
    then obtain y ys where "rs = y # ys" using bp(1) by (cases rs) auto
    then have "m_addr (hd rs) \<le> m_addr bp" "m_addr bp < ent_end bp"
      using ok segs_ok_member [of "ent_end y" ys bp] segs_ok_member [of "segs_end 0 ls" rs bp]
        False bp(1) by (auto simp: ent_end_def)
    then show False using bp(2) none(2) \<open>rs = y # ys\<close> pos by auto
  qed
qed

lemma rmfree_retry_gap:
  assumes inv: "rmap_inv mp" and pos: "0 < addr" "0 < sz" and lim: "addr + sz < 2 ^ 32"
    and gap: "rm_space mp \<inter> {addr ..< addr + sz} = {}"
    and room: "0 < mh_free mp \<or> rm_touches mp sz addr"
  shows "\<exists>bps free. rmfree_retry [] mp sz addr = Inr (mp\<lparr>mh_free := free, mh_map := bps\<rparr>)
     \<and> segs_ok 0 bps \<and> segs_space bps = rm_space mp \<union> {addr ..< addr + sz}
     \<and> length bps + free = mh_size mp"
proof -
  obtain ls rs where at: "rmfree_at mp ls rs sz addr"
    using rmfree_at_exists [OF inv pos lim gap] by blast
  have m: "mh_map mp = ls @ rs" by (rule rmfree_at_map [OF at])
  have ok: "segs_ok 0 (ls @ rs)" using at unfolding rmfree_at_def by blast
  have sp: "rm_space mp = segs_space (ls @ rs)"
    and len: "length ls + length rs + mh_free mp = mh_size mp"
    using inv m by (auto simp: rm_space_def rmap_inv_def)
  from at show ?thesis
  proof (cases rule: rmfree_at_cases)
    case (both xs pv bp rs')
    let ?bps = "xs @ pv\<lparr>m_size := m_size pv + sz + m_size bp\<rparr> # rs'"
    have eq: "rmfree_retry [] mp sz addr = Inr (mp\<lparr>mh_free := mh_free mp + 1, mh_map := ?bps\<rparr>)"
      using rmfree_retry_both at both by blast
    have j: "segs_ok 0 ?bps" "segs_space ?bps = segs_space (ls @ rs) \<union> {addr ..< addr + sz}"
      using join_both [of "xs @ [pv]" bp rs' addr sz, OF _ _ _ _ refl] ok both by simp_all
    show ?thesis using eq j sp len both(1,2)
      by (intro exI [of _ ?bps] exI [of _ "mh_free mp + 1"]) simp
  next
    case (left xs pv)
    let ?bps = "xs @ pv\<lparr>m_size := m_size pv + sz\<rparr> # rs"
    have eq: "rmfree_retry [] mp sz addr = Inr (mp\<lparr>mh_free := mh_free mp, mh_map := ?bps\<rparr>)"
      using rmfree_retry_left [of mp xs pv rs sz addr] at left by simp
    have j: "segs_ok 0 ?bps" "segs_space ?bps = segs_space (ls @ rs) \<union> {addr ..< addr + sz}"
      using join_left [of "xs @ [pv]" rs addr sz, OF _ _ _ _ lim refl] ok left by simp_all
    show ?thesis using eq j sp len left(1)
      by (intro exI [of _ ?bps] exI [of _ "mh_free mp"]) simp
  next
    case (right bp rs')
    let ?bps = "ls @ bp\<lparr>m_addr := addr, m_size := m_size bp + sz\<rparr> # rs'"
    have eq: "rmfree_retry [] mp sz addr = Inr (mp\<lparr>mh_free := mh_free mp, mh_map := ?bps\<rparr>)"
      using rmfree_retry_right [of mp ls bp rs' sz addr] at right by simp
    have j: "segs_ok 0 ?bps" "segs_space ?bps = segs_space (ls @ rs) \<union> {addr ..< addr + sz}"
      using join_right [of ls bp rs' addr sz, OF _ _ _ pos(1) refl] ok right by simp_all
    show ?thesis using eq j sp len right(1)
      by (intro exI [of _ ?bps] exI [of _ "mh_free mp"]) simp
  next
    case none
    have "\<not> rm_touches mp sz addr" using rm_touches_none [OF m ok none] pos by blast
    then have "0 < mh_free mp" using room by simp
    let ?bps = "ls @ \<lparr>m_size = sz, m_addr = addr\<rparr> # rs"
    have eq: "rmfree_retry [] mp sz addr = Inr (mp\<lparr>mh_free := mh_free mp - 1, mh_map := ?bps\<rparr>)"
      using rmfree_retry_none [OF at none] \<open>0 < mh_free mp\<close> by simp
    have j: "segs_ok 0 ?bps" "segs_space ?bps = segs_space (ls @ rs) \<union> {addr ..< addr + sz}"
      using join_none [of ls rs addr sz, OF ok _ _ pos lim refl] none by simp_all
    show ?thesis using eq j sp len \<open>0 < mh_free mp\<close>
      by (intro exI [of _ ?bps] exI [of _ "mh_free mp - 1"]) simp
  qed
qed

section \<open>Taking space\<close>

lemma rmalloc_locked_Some:
  assumes "rmalloc_locked mp sz = (addr, mp')" and "addr \<noteq> 0"
  obtains bps used where "rmalloc_scan sz (mh_map mp) = Some (addr, bps, used)"
    "mp' = mp\<lparr>mh_map := bps, mh_free := (if used then mh_free mp + 1 else mh_free mp)\<rparr>"
  using assms by (auto simp: rmalloc_locked_def split: option.splits prod.splits)

lemma rmalloc_locked_fail:
  assumes "rmap_inv mp" and "0 < sz" and "rmalloc_locked mp sz = (0, mp')"
  shows "mp' = mp \<and> (\<forall>bp \<in> set (mh_map mp). m_size bp < sz)"
proof (cases "rmalloc_scan sz (mh_map mp)")
  case None
  then show ?thesis using assms(3) rmalloc_scan_None [THEN iffD1, OF None]
    by (simp add: rmalloc_locked_def)
next
  case (Some r)
  then obtain addr bps used where "rmalloc_scan sz (mh_map mp) = Some (addr, bps, used)"
    by (cases r) auto
  then show ?thesis using assms rmalloc_scan_correct(2) [of sz "mh_map mp" addr bps used 0]
    by (simp add: rmalloc_locked_def rmap_inv_def)
qed

lemma rmalloc_locked_correct:
  assumes "rmap_inv mp" and "0 < sz" and "rmalloc_locked mp sz = (addr, mp')" and "addr \<noteq> 0"
  shows "rmap_inv mp' \<and> addr + sz < 2 ^ 32 \<and> {addr ..< addr + sz} \<subseteq> rm_space mp
    \<and> rm_space mp' = rm_space mp - {addr ..< addr + sz}
    \<and> mh_size mp' = mh_size mp \<and> mh_want mp' = mh_want mp"
proof -
  obtain bps used where s: "rmalloc_scan sz (mh_map mp) = Some (addr, bps, used)"
    and m: "mp' = mp\<lparr>mh_map := bps, mh_free := (if used then mh_free mp + 1 else mh_free mp)\<rparr>"
    using rmalloc_locked_Some [OF assms(3,4)] .
  have ok: "segs_ok 0 (mh_map mp)" using assms(1) by (simp add: rmap_inv_def)
  note c = rmalloc_scan_correct [OF s ok assms(2)]
  show ?thesis using c assms(1) m by (auto simp: rmap_inv_def rm_space_def split: if_splits)
qed

text \<open>Giving back what was just taken restores the map entry by entry.\<close>

lemma segs_takeWhile:
  assumes "segs_ok 0 (ls @ rs)" and "segs_end 0 ls < addr" and "rs \<noteq> [] \<Longrightarrow> addr < m_addr (hd rs)"
  shows "takeWhile (\<lambda>bp. m_addr bp \<le> addr) (ls @ rs) = ls"
    and "dropWhile (\<lambda>bp. m_addr bp \<le> addr) (ls @ rs) = rs"
proof -
  have "\<forall>x \<in> set ls. m_addr x \<le> addr"
    using assms(1,2) segs_ok_member [of 0 ls] by (fastforce simp: ent_end_def)
  then show "takeWhile (\<lambda>bp. m_addr bp \<le> addr) (ls @ rs) = ls"
    "dropWhile (\<lambda>bp. m_addr bp \<le> addr) (ls @ rs) = rs"
    using assms(3) by (cases rs; simp add: takeWhile_append2 dropWhile_append2)+
qed

lemma rmalloc_rmfree_retry:
  assumes inv: "rmap_inv mp" and "0 < sz" and "rmalloc_locked mp sz = (addr, mp')" and "addr \<noteq> 0"
  shows "rmfree_retry [] mp' sz addr = Inr mp"
proof -
  obtain bps used where s: "rmalloc_scan sz (mh_map mp) = Some (addr, bps, used)"
    and m: "mp' = mp\<lparr>mh_map := bps, mh_free := (if used then mh_free mp + 1 else mh_free mp)\<rparr>"
    using rmalloc_locked_Some [OF assms(3,4)] .
  obtain ls bp rs where l: "mh_map mp = ls @ bp # rs" and fit: "sz \<le> m_size bp" and a: "addr = m_addr bp"
    and u: "used = (m_size bp = sz)"
    and l': "bps = ls @ (if m_size bp = sz then rs
           else bp\<lparr>m_addr := uadd (m_addr bp) sz, m_size := m_size bp - sz\<rparr> # rs)"
    using rmalloc_scan_split [OF s] by blast
  have ok: "segs_ok 0 (ls @ bp # rs)" using inv l by (simp add: rmap_inv_def)
  have lim: "addr + sz < 2 ^ 32" using ok fit a by (auto simp: ent_end_def)
  have lo: "segs_end 0 ls < addr" using ok a by simp
  have ll: "ls \<noteq> [] \<longrightarrow> ent_end (last ls) < addr" using lo segs_end_last [of ls 0] by auto
  show ?thesis
  proof (cases "m_size bp = sz")
    case True
    have ok': "segs_ok 0 (ls @ rs)" using ok by (auto intro: segs_ok_mono simp: ent_end_def)
    have r: "rs \<noteq> [] \<longrightarrow> addr + sz < m_addr (hd rs)"
      using ok a True by (cases rs) (auto simp: ent_end_def)
    note tw = segs_takeWhile [OF ok' lo]
    have "rmfree_at mp' ls rs sz addr"
      unfolding rmfree_at_def using ok' ll r tw lim assms(2,4) l' m True by auto
    from rmfree_retry_none [OF this ll r] show ?thesis
      using m u True l a by (cases bp; cases mp) simp
  next
    case False
    let ?bp = "bp\<lparr>m_addr := addr + sz, m_size := m_size bp - sz\<rparr>"
    have e: "ent_end ?bp = ent_end bp" using a fit by (simp add: ent_end_def)
    have ok': "segs_ok 0 (ls @ ?bp # rs)" using ok a False fit e by auto
    have m': "mh_map mp' = ls @ ?bp # rs" using m l' False a lim by simp
    have r: "?bp # rs \<noteq> [] \<Longrightarrow> addr < m_addr (hd (?bp # rs))" using assms(2) by simp
    note tw = segs_takeWhile [OF ok' lo r]
    have "rmfree_at mp' ls (?bp # rs) sz addr"
      unfolding rmfree_at_def using ok' ll tw lim assms(2,4) m' by auto
    from rmfree_retry_right [OF this ll] show ?thesis
      using m u False l l' a fit by (cases bp; cases mp) simp
  qed
qed

section \<open>Overflow, overlap and placement at an address\<close>

text \<open>A map that can hold two segments survives an overflow.\<close>

definition rmap_wf :: "map_head \<Rightarrow> bool" where
  "rmap_wf mp \<longleftrightarrow> rmap_inv mp \<and> 2 \<le> mh_size mp"

lemma rmap_discard_correct:
  assumes "segs_ok 0 (xs @ [y, z])"
  shows "\<exists>w bps. rmap_discard (xs @ [y, z]) = Inr bps \<and> w \<in> {y, z}
     \<and> m_size w = min (m_size y) (m_size z)
     \<and> segs_ok 0 bps \<and> segs_space bps = segs_space (xs @ [y, z]) - ent_space w
     \<and> length bps + 1 = length (xs @ [y, z])"
proof -
  have ok: "segs_ok 0 xs" "segs_end 0 xs < m_addr y" "ent_end y < m_addr z" "0 < m_size y" "0 < m_size z"
    "ent_end y < 2 ^ 32" "ent_end z < 2 ^ 32"
    using assms by auto
  have sep: "segs_space xs \<inter> ent_space y = {}" "segs_space xs \<inter> ent_space z = {}"
    "ent_space y \<inter> ent_space z = {}"
    using ok segs_space_bounds [OF ok(1)] by (fastforce simp: ent_space_def ent_end_def)+
  have d: "rmap_discard (xs @ [y, z]) = Inr (xs @ [if m_size z > m_size y then z else y])"
    by (simp add: rmap_discard_def)
  show ?thesis
  proof (cases "m_size z > m_size y")
    case True
    then show ?thesis using ok sep d
      by (intro exI [of _ y] exI [of _ "xs @ [z]"]) (auto simp: ent_end_def)
  next
    case False
    then show ?thesis using ok sep d
      by (intro exI [of _ z] exI [of _ "xs @ [y]"]) auto
  qed
qed

lemma rmfree_retry_pass:
  assumes wf: "rmap_wf mp" and pos: "0 < addr" "0 < sz" and lim: "addr + sz < 2 ^ 32"
    and gap: "rm_space mp \<inter> {addr ..< addr + sz} = {}"
    and full: "mh_free mp = 0" "\<not> rm_touches mp sz addr"
  shows "\<exists>xs y z w bps. mh_map mp = xs @ [y, z] \<and> w \<in> {y, z} \<and> m_size w = min (m_size y) (m_size z)
     \<and> segs_ok 0 bps \<and> segs_space bps = rm_space mp - ent_space w \<and> length bps + 1 = mh_size mp
     \<and> (\<forall>envs. rmfree_retry envs mp sz addr =
           rmfree_retry (tl envs) ((if envs = [] then id else hd envs) (mp\<lparr>mh_map := bps, mh_free := 1\<rparr>)) sz addr)"
proof -
  have inv: "rmap_inv mp" and "2 \<le> length (mh_map mp)"
    using wf full(1) by (auto simp: rmap_wf_def rmap_inv_def)
  then obtain xs y z where m: "mh_map mp = xs @ [y, z]"
    by (cases "mh_map mp" rule: rev_cases; cases "butlast (mh_map mp)" rule: rev_cases)
      (auto simp: butlast_append)
  have "segs_ok 0 (xs @ [y, z])" using inv m by (simp add: rmap_inv_def)
  from rmap_discard_correct [OF this] obtain w bps where w: "rmap_discard (mh_map mp) = Inr bps"
    "w \<in> {y, z}" "m_size w = min (m_size y) (m_size z)" "segs_ok 0 bps"
    "segs_space bps = rm_space mp - ent_space w" "length bps + 1 = length (mh_map mp)"
    using m by (auto simp: rm_space_def)
  obtain ls rs where at: "rmfree_at mp ls rs sz addr"
    using rmfree_at_exists [OF inv pos lim gap] by blast
  have mm: "mh_map mp = ls @ rs" by (rule rmfree_at_map [OF at])
  have "rmfree_retry envs mp sz addr =
     rmfree_retry (tl envs) ((if envs = [] then id else hd envs) (mp\<lparr>mh_map := bps, mh_free := 1\<rparr>)) sz addr" for envs
    using at
  proof (cases rule: rmfree_at_cases)
    case none
    then show ?thesis using rmfree_retry_none [OF at, of envs] full(1) w(1) by (cases envs) simp_all
  qed (use mm full(2) in \<open>auto simp: rm_touches_def\<close>)
  moreover have "length bps + 1 = mh_size mp" using w(6) inv full(1) by (simp add: rmap_inv_def)
  ultimately show ?thesis using m w by blast
qed

lemma rmfree_retry_overflow:
  assumes wf: "rmap_wf mp" and pos: "0 < addr" "0 < sz" and lim: "addr + sz < 2 ^ 32"
    and gap: "rm_space mp \<inter> {addr ..< addr + sz} = {}"
    and full: "mh_free mp = 0" "\<not> rm_touches mp sz addr"
  shows "\<exists>xs y z w bps free. mh_map mp = xs @ [y, z] \<and> w \<in> {y, z} \<and> m_size w = min (m_size y) (m_size z)
     \<and> rmfree_retry [] mp sz addr = Inr (mp\<lparr>mh_free := free, mh_map := bps\<rparr>)
     \<and> segs_ok 0 bps \<and> segs_space bps = (rm_space mp - ent_space w) \<union> {addr ..< addr + sz}
     \<and> length bps + free = mh_size mp"
proof -
  obtain xs y z w bps where m: "mh_map mp = xs @ [y, z]" "w \<in> {y, z}" "m_size w = min (m_size y) (m_size z)"
    and w: "segs_ok 0 bps" "segs_space bps = rm_space mp - ent_space w" "length bps + 1 = mh_size mp"
    and pass: "rmfree_retry envs mp sz addr =
      rmfree_retry (tl envs) ((if envs = [] then id else hd envs) (mp\<lparr>mh_map := bps, mh_free := 1\<rparr>)) sz addr" for envs
    using rmfree_retry_pass [OF assms] by blast
  let ?mp = "mp\<lparr>mh_map := bps, mh_free := 1\<rparr>"
  have inv': "rmap_inv ?mp" using w wf by (simp add: rmap_wf_def rmap_inv_def)
  have gap': "rm_space ?mp \<inter> {addr ..< addr + sz} = {}" using w(2) gap by (auto simp: rm_space_def)
  obtain bps' free where r: "rmfree_retry [] ?mp sz addr = Inr (?mp\<lparr>mh_free := free, mh_map := bps'\<rparr>)"
    "segs_ok 0 bps'" "segs_space bps' = rm_space ?mp \<union> {addr ..< addr + sz}"
    "length bps' + free = mh_size ?mp"
    using rmfree_retry_gap [OF inv' pos lim gap'] by auto
  then show ?thesis using pass [of "[]"] w m
    by (intro exI [of _ xs] exI [of _ y] exI [of _ z] exI [of _ w] exI [of _ bps'] exI [of _ free])
      (simp add: rm_space_def)
qed

text \<open>Freeing a block that overlaps a free segment panics.\<close>

lemma rmfree_retry_overlap:
  assumes inv: "rmap_inv mp" and pos: "0 < addr" "0 < sz" and lim: "addr + sz < 2 ^ 32"
    and over: "rm_space mp \<inter> {addr ..< addr + sz} \<noteq> {}"
  shows "rmfree_retry [] mp sz addr = Inl (Panic ''bad rmfree'')"
proof -
  have ok: "segs_ok 0 (mh_map mp)" using inv by (simp add: rmap_inv_def)
  define ls where ls: "ls = takeWhile (\<lambda>bp. m_addr bp \<le> addr) (mh_map mp)"
  define rs where rs: "rs = dropWhile (\<lambda>bp. m_addr bp \<le> addr) (mh_map mp)"
  note sp = rmfree_split [OF ok ls rs]
  have okl: "segs_ok 0 (ls @ rs)" using ok sp(1) by simp
  have g: "\<not> ((ls \<noteq> [] \<longrightarrow> ent_end (last ls) \<le> addr) \<and> (rs \<noteq> [] \<longrightarrow> addr + sz \<le> m_addr (hd rs)))"
    using over gap_iff [OF okl pos(2) sp(4,5)] sp(1) by (auto simp: rm_space_def)
  have bl: "ls \<noteq> [] \<Longrightarrow> m_addr (last ls) + m_size (last ls) < 2 ^ 32"
    using segs_ok_member [OF sp(2), of "last ls"] by (simp add: ent_end_def)
  have "rs \<noteq> [] \<longrightarrow> (\<exists>bp rs'. rs = bp # rs')" by (cases rs) auto
  then show ?thesis
    using g bl lim
    by (subst rmfree_retry.simps)
      (cases "ls = []"; cases rs; auto simp: ls [symmetric] rs [symmetric] Let_def ent_end_def)
qed

text \<open>Where \<open>rmget\<close> looks: the segment that holds the address, if there is one.\<close>

lemma rmget_split:
  assumes "segs_ok 0 bps" and P: "P = (\<lambda>bp. \<not> (m_addr bp \<le> addr \<and> addr < uadd (m_addr bp) (m_size bp)))"
  shows "dropWhile P bps = [] \<Longrightarrow> addr \<notin> segs_space bps"
    and "dropWhile P bps = bp # rs \<Longrightarrow> m_addr bp \<le> addr \<and> addr < ent_end bp"
proof -
  have Pe: "P bp = (addr \<notin> ent_space bp)" if "bp \<in> set bps" for bp :: map_ent
    using segs_ok_member [OF assms(1) that] by (auto simp: P ent_space_def ent_end_def)
  show "dropWhile P bps = [] \<Longrightarrow> addr \<notin> segs_space bps"
    using Pe by (auto simp: dropWhile_eq_Nil_conv segs_space_def)
  assume d: "dropWhile P bps = bp # rs"
  then have "\<not> P bp" by (metis hd_dropWhile list.sel(1) list.distinct(1))
  moreover have "bp \<in> set bps" using d by (metis list.set_intros(1) set_dropWhileD)
  ultimately show "m_addr bp \<le> addr \<and> addr < ent_end bp" using Pe by (auto simp: ent_space_def)
qed

text \<open>Taking a block out of one segment leaves at most two pieces.\<close>

definition ent_minus :: "map_ent \<Rightarrow> nat \<Rightarrow> nat \<Rightarrow> map_ent list" where
  "ent_minus bp sz addr =
     (if m_addr bp = addr then [] else [bp\<lparr>m_size := addr - m_addr bp\<rparr>])
     @ (if ent_end bp = addr + sz then []
        else [\<lparr>m_size = ent_end bp - (addr + sz), m_addr = addr + sz\<rparr>])"

lemma ent_minus_correct:
  assumes ok: "segs_ok 0 (ls @ bp # rs)" and inb: "m_addr bp \<le> addr" "addr + sz \<le> ent_end bp" "0 < sz"
  shows "segs_ok 0 (ls @ ent_minus bp sz addr @ rs)"
    and "segs_space (ls @ ent_minus bp sz addr @ rs) = segs_space (ls @ bp # rs) - {addr ..< addr + sz}"
proof -
  have okb: "segs_ok 0 ls" "segs_end 0 ls < m_addr bp" "ent_end bp < 2 ^ 32" "segs_ok (ent_end bp) rs"
    using ok by auto
  have below: "n < m_addr bp" if "n \<in> segs_space ls" for n
    using segs_space_bounds [OF okb(1) that] okb(2) by simp
  have above: "ent_end bp < n" if "n \<in> segs_space rs" for n
    using segs_space_bounds [OF okb(4) that] by simp
  show "segs_ok 0 (ls @ ent_minus bp sz addr @ rs)"
    using okb inb segs_ok_mono [OF okb(4)] by (auto simp: ent_minus_def ent_end_def)
  show "segs_space (ls @ ent_minus bp sz addr @ rs) = segs_space (ls @ bp # rs) - {addr ..< addr + sz}"
    using inb by (auto simp: ent_minus_def ent_space_def ent_end_def dest: below above)
qed

lemma rmget_eval:
  assumes ok: "segs_ok 0 (mh_map mp)" and pos: "ssize_pos sz" and lim: "addr + sz < 2 ^ 32"
  shows "(rmget mp sz addr = Inr (0, mp) \<and> addr \<notin> rm_space mp) \<or>
    (\<exists>ls bp rs. mh_map mp = ls @ bp # rs \<and> m_addr bp \<le> addr \<and> addr < ent_end bp \<and>
      rmget mp sz addr =
        (if ent_end bp < addr + sz \<or> mh_free mp = 0 \<and> length (ent_minus bp sz addr) = 2
         then Inr (0, mp)
         else Inr (addr, mp\<lparr>mh_map := ls @ ent_minus bp sz addr @ rs,
                mh_free := mh_free mp + 1 - length (ent_minus bp sz addr)\<rparr>)))"
proof -
  define P :: "map_ent \<Rightarrow> bool"
    where P: "P = (\<lambda>bp. \<not> (m_addr bp \<le> addr \<and> addr < uadd (m_addr bp) (m_size bp)))"
  note sp = rmget_split [OF ok P]
  show ?thesis
  proof (cases "dropWhile P (mh_map mp)")
    case Nil
    have "rmget mp sz addr = Inr (0, mp)"
      unfolding rmget_def Let_def P [symmetric] Nil using pos by simp
    then show ?thesis using sp(1) [OF Nil] by (simp add: rm_space_def)
  next
    case (Cons bp rs)
    let ?ls = "takeWhile P (mh_map mp)"
    have m: "mh_map mp = ?ls @ bp # rs" using Cons by (metis takeWhile_dropWhile_id)
    have b: "ent_end bp < 2 ^ 32" using ok by (subst (asm) m) auto
    have inb: "m_addr bp \<le> addr" "addr < ent_end bp" using sp(2) [OF Cons] by auto
    have "rmget mp sz addr =
        (if ent_end bp < addr + sz \<or> mh_free mp = 0 \<and> length (ent_minus bp sz addr) = 2
         then Inr (0, mp)
         else Inr (addr, mp\<lparr>mh_map := ?ls @ ent_minus bp sz addr @ rs,
                mh_free := mh_free mp + 1 - length (ent_minus bp sz addr)\<rparr>))"
      using pos b inb lim
      unfolding rmget_def Let_def P [symmetric] Cons
      by (cases bp) (auto simp: ent_minus_def ent_end_def)
    then show ?thesis using m inb by blast
  qed
qed

section \<open>The allocator contract\<close>

definition rm_release :: "map_head \<Rightarrow> nat \<Rightarrow> nat \<Rightarrow> map_head option" where
  "rm_release mp sz addr = (case rmfree mp sz addr of Inl _ \<Rightarrow> None | Inr (_, mp') \<Rightarrow> Some mp')"

lemma rmap_wf_update:
  "segs_ok 0 bps \<Longrightarrow> length bps + free = mh_size mp \<Longrightarrow> rmap_wf mp \<Longrightarrow>
   rmap_wf (mp\<lparr>mh_free := free, mh_map := bps\<rparr>)
   \<and> rmap_wf (mp\<lparr>mh_free := free, mh_map := bps, mh_want := w\<rparr>)"
  by (simp add: rmap_wf_def rmap_inv_def)

lemma rmfree_correct:
  assumes wf: "rmap_wf mp" and pos: "0 < addr" "0 < sz" "sz < 2 ^ 31" and lim: "addr + sz < 2 ^ 32"
    and gap: "rm_space mp \<inter> {addr ..< addr + sz} = {}"
  shows "\<exists>mp'. rmfree mp sz addr = Inr (mh_want mp \<noteq> 0, mp') \<and> rmap_wf mp' \<and> mh_want mp' = 0
     \<and> rm_space mp' \<subseteq> rm_space mp \<union> {addr ..< addr + sz}
     \<and> (0 < mh_free mp \<or> rm_touches mp sz addr \<longrightarrow>
          rm_space mp' = rm_space mp \<union> {addr ..< addr + sz})"
proof -
  have inv: "rmap_inv mp" using wf by (simp add: rmap_wf_def)
  have "\<exists>bps free. rmfree_retry [] mp sz addr = Inr (mp\<lparr>mh_free := free, mh_map := bps\<rparr>)
     \<and> segs_ok 0 bps \<and> length bps + free = mh_size mp
     \<and> segs_space bps \<subseteq> rm_space mp \<union> {addr ..< addr + sz}
     \<and> (0 < mh_free mp \<or> rm_touches mp sz addr \<longrightarrow>
          segs_space bps = rm_space mp \<union> {addr ..< addr + sz})"
  proof (cases "0 < mh_free mp \<or> rm_touches mp sz addr")
    case True
    then show ?thesis using rmfree_retry_gap [OF inv pos(1,2) lim gap] by auto
  next
    case False
    then obtain w bps free where
      "rmfree_retry [] mp sz addr = Inr (mp\<lparr>mh_free := free, mh_map := bps\<rparr>)"
      "segs_ok 0 bps" "segs_space bps = (rm_space mp - ent_space w) \<union> {addr ..< addr + sz}"
      "length bps + free = mh_size mp"
      using rmfree_retry_overflow [OF wf pos(1,2) lim gap] by auto
    then show ?thesis using False
      by (intro exI [of _ bps] exI [of _ free]) auto
  qed
  then obtain bps free where r: "rmfree_retry [] mp sz addr = Inr (mp\<lparr>mh_free := free, mh_map := bps\<rparr>)"
    "segs_ok 0 bps" "length bps + free = mh_size mp"
    "segs_space bps \<subseteq> rm_space mp \<union> {addr ..< addr + sz}"
    "0 < mh_free mp \<or> rm_touches mp sz addr \<longrightarrow> segs_space bps = rm_space mp \<union> {addr ..< addr + sz}"
    by blast
  let ?mp = "mp\<lparr>mh_free := free, mh_map := bps, mh_want := 0\<rparr>"
  have "rmfree mp sz addr = Inr (mh_want mp \<noteq> 0, ?mp)"
    using r(1) pos by (cases "mh_want mp = 0") (auto simp: rmfree_def rmfree_among_def ssize_pos_def)
  moreover have "rmap_wf ?mp" using rmap_wf_update [OF r(2,3) wf] by blast
  ultimately show ?thesis using r(4,5)
    by (intro exI [of _ ?mp]) (simp add: rm_space_def)
qed

interpretation rm: space_alloc rmalloc rm_release rmap_wf rm_space
proof
  fix m m' :: map_head and n a :: nat
  assume wf: "rmap_wf m" and n: "0 < n"
  have inv: "rmap_inv m" using wf by (simp add: rmap_wf_def)
  show "rmap_wf m' \<and> a + n < 2 ^ 32 \<and> {a ..< a + n} \<subseteq> rm_space m
        \<and> rm_space m' = rm_space m - {a ..< a + n}"
    if "rmalloc m n = (a, m')" "a \<noteq> 0"
    using rmalloc_locked_correct [OF inv n that(1) [unfolded rmalloc_def] that(2)] wf
    by (auto simp: rmap_wf_def)
  show "m' = m" if "rmalloc m n = (0, m')"
    using rmalloc_locked_fail [OF inv n that [unfolded rmalloc_def]] by blast
next
  fix m :: map_head and n a :: nat
  assume "rmap_wf m" "0 < a" "0 < n" "n < 2 ^ 31" "a + n < 2 ^ 32" "rm_space m \<inter> {a ..< a + n} = {}"
  from rmfree_correct [OF this]
  show "\<exists>m'. rm_release m n a = Some m' \<and> rmap_wf m' \<and> rm_space m' \<subseteq> rm_space m \<union> {a ..< a + n}"
    by (auto simp: rm_release_def)
qed

section \<open>Properties\<close>

lemma first_fit_lowest:
  assumes "segs_ok 0 (ls @ bp # rs)" and "\<forall>x \<in> set ls. m_size x < sz"
    and "x \<in> set (ls @ bp # rs)" and "sz \<le> m_size x"
  shows "m_addr bp \<le> m_addr x"
  using assms segs_ok_member [of "ent_end bp" rs x] by (auto simp: ent_end_def)

text \<open>
  C16: \<open>rmalloc\<close> is a first-fit allocator. On a well-formed map it either returns 0, leaves the map
  alone and no free segment was large enough, or it returns the base of a block of free addresses
  taken from the lowest segment that is large enough, removes exactly that block from the free
  space and keeps the map well formed.
\<close>

theorem rmalloc_first_fit:
  assumes "rmap_inv mp" and "0 < sz" and "rmalloc mp sz = (addr, mp')"
  shows "if addr = 0 then mp' = mp \<and> (\<forall>bp \<in> set (mh_map mp). m_size bp < sz)
    else rmap_inv mp' \<and> {addr ..< addr + sz} \<subseteq> rm_space mp
      \<and> rm_space mp' = rm_space mp - {addr ..< addr + sz}
      \<and> (\<exists>bp \<in> set (mh_map mp). m_addr bp = addr \<and> sz \<le> m_size bp)
      \<and> (\<forall>bp \<in> set (mh_map mp). sz \<le> m_size bp \<longrightarrow> addr \<le> m_addr bp)"
proof (cases "addr = 0")
  case True
  then show ?thesis using rmalloc_locked_fail assms by (simp add: rmalloc_def)
next
  case False
  have r: "rmalloc_locked mp sz = (addr, mp')" using assms(3) by (simp add: rmalloc_def)
  obtain bps used where s: "rmalloc_scan sz (mh_map mp) = Some (addr, bps, used)"
    using rmalloc_locked_Some [OF r False] by blast
  obtain ls bp rs where l: "mh_map mp = ls @ bp # rs" "\<forall>x \<in> set ls. m_size x < sz"
    "sz \<le> m_size bp" "addr = m_addr bp"
    using rmalloc_scan_split [OF s] by blast
  have "segs_ok 0 (ls @ bp # rs)" using assms(1) l(1) by (simp add: rmap_inv_def)
  then have "\<forall>x \<in> set (mh_map mp). sz \<le> m_size x \<longrightarrow> addr \<le> m_addr x"
    using first_fit_lowest [of ls bp rs sz] l by auto
  moreover have "\<exists>bp \<in> set (mh_map mp). m_addr bp = addr \<and> sz \<le> m_size bp" using l by auto
  ultimately show ?thesis
    using False rmalloc_locked_correct [OF assms(1,2) r False] by simp
qed

definition map3 :: map_head where
  "map3 = \<lparr>mh_free = 1, mh_want = 0, mh_nam = ''m'', mh_size = 4,
     mh_map = [\<lparr>m_size = 2, m_addr = 1\<rparr>, \<lparr>m_size = 5, m_addr = 10\<rparr>, \<lparr>m_size = 5, m_addr = 20\<rparr>]\<rparr>"

lemma map3_inv: "rmap_inv map3" "rmap_wf map3"
  by (simp_all add: map3_def rmap_inv_def rmap_wf_def ent_end_def)

lemma map3_space: "rm_space map3 = {1 ..< 3} \<union> {10 ..< 15} \<union> {20 ..< 25}"
  by (auto simp: map3_def rm_space_def ent_space_def ent_end_def)

theorem rmalloc_first_fit_witness:
  "\<exists>mp'. rmalloc map3 3 = (10, mp') \<and> rm_space mp' = rm_space map3 - {10 ..< 13}"
proof -
  obtain mp' where r: "rmalloc map3 3 = (10, mp')"
    by (simp add: map3_def rmalloc_def rmalloc_locked_def)
  have "(0::nat) < 3" by simp
  from rmalloc_first_fit [OF map3_inv(1) this r] show ?thesis using r by simp
qed

text \<open>
  C15: When a slot is left or the block touches a free segment, giving back a block that overlaps no
  free segment does not panic, wakes the sleepers if there
  are any, keeps the map well formed (its segments sorted, apart and merged where they touch), and
  makes the free space grow by exactly the block.
\<close>

theorem rmfree_adds_block:
  assumes "rmap_wf mp" and "0 < addr" "0 < sz" "sz < 2 ^ 31" "addr + sz < 2 ^ 32"
    and "rm_space mp \<inter> {addr ..< addr + sz} = {}"
    and "0 < mh_free mp \<or> rm_touches mp sz addr"
  shows "\<exists>mp'. rmfree mp sz addr = Inr (mh_want mp \<noteq> 0, mp') \<and> rmap_wf mp' \<and> mh_want mp' = 0
     \<and> rm_space mp' = rm_space mp \<union> {addr ..< addr + sz}"
  using rmfree_correct [OF assms(1-6)] assms(7) by blast

theorem rmfree_adds_block_witness:
  "\<exists>mp'. rmfree map3 5 15 = Inr (False, mp') \<and> rm_space mp' = rm_space map3 \<union> {15 ..< 20}
     \<and> mh_map mp' = [\<lparr>m_size = 2, m_addr = 1\<rparr>, \<lparr>m_size = 15, m_addr = 10\<rparr>]"
proof -
  have g: "rm_space map3 \<inter> {15 ..< 15 + 5} = {}" by (auto simp: map3_space)
  have t: "0 < mh_free map3 \<or> rm_touches map3 5 15" by (simp add: map3_def)
  obtain mp' where r: "rmfree map3 5 15 = Inr (mh_want map3 \<noteq> 0, mp')"
    "rm_space mp' = rm_space map3 \<union> {15 ..< 15 + 5}"
    using rmfree_adds_block [OF map3_inv(2) _ _ _ _ g t] by auto
  moreover have "rmfree map3 5 15 = Inr (False, map3\<lparr>mh_free := 2,
      mh_map := [\<lparr>m_size = 2, m_addr = 1\<rparr>, \<lparr>m_size = 15, m_addr = 10\<rparr>]\<rparr>)"
    by (simp add: map3_def rmfree_def rmfree_among_def rmfree_retry.simps ssize_pos_def)
  ultimately show ?thesis by auto
qed

text \<open>
  C33: When the map has no slot left and the block touches and overlaps no segment, \<open>rmfree\<close> gives up
  the smaller of the last two segments and nothing else, which leaves a slot. It then drops the lock:
  whatever the other threads have made of the map in between (\<open>env\<close>), it starts again on that, so
  that a segment can be lost on each pass. When no other thread works on the map meanwhile, the block
  is entered and the one segment is all that is lost.
\<close>

theorem rmfree_overflow_loses_smaller:
  assumes "rmap_wf mp" and "0 < addr" "0 < sz" "sz < 2 ^ 31" "addr + sz < 2 ^ 32"
    and "rm_space mp \<inter> {addr ..< addr + sz} = {}"
    and "mh_free mp = 0" "\<not> rm_touches mp sz addr"
  shows "\<exists>xs y z w mp1 mp'. mh_map mp = xs @ [y, z] \<and> w \<in> {y, z} \<and> m_size w = min (m_size y) (m_size z)
     \<and> rmap_wf mp1 \<and> mh_free mp1 = 1 \<and> mh_want mp1 = mh_want mp \<and> rm_space mp1 = rm_space mp - ent_space w
     \<and> (\<forall>env envs. rmfree_among (env # envs) mp sz addr = rmfree_among envs (env mp1) sz addr)
     \<and> rmfree mp sz addr = Inr (mh_want mp \<noteq> 0, mp') \<and> rmap_wf mp'
     \<and> rm_space mp' = (rm_space mp - ent_space w) \<union> {addr ..< addr + sz}"
proof -
  obtain xs y z w bps where m: "mh_map mp = xs @ [y, z]" "w \<in> {y, z}" "m_size w = min (m_size y) (m_size z)"
    and w: "segs_ok 0 bps" "segs_space bps = rm_space mp - ent_space w" "length bps + 1 = mh_size mp"
    and pass: "rmfree_retry envs mp sz addr =
      rmfree_retry (tl envs) ((if envs = [] then id else hd envs) (mp\<lparr>mh_map := bps, mh_free := 1\<rparr>)) sz addr" for envs
    using rmfree_retry_pass [OF assms(1-3,5-8)] by blast
  let ?mp = "mp\<lparr>mh_map := bps, mh_free := 1\<rparr>"
  have wf: "rmap_wf ?mp" using w assms(1) by (simp add: rmap_wf_def rmap_inv_def)
  have sp: "rm_space ?mp = rm_space mp - ent_space w" using w(2) by (simp add: rm_space_def)
  have env: "rmfree_among (env # envs) mp sz addr = rmfree_among envs (env ?mp) sz addr" for env envs
    using pass [of "env # envs"] by (simp add: rmfree_among_def)
  have "rmfree mp sz addr = rmfree ?mp sz addr" using pass [of "[]"] by (simp add: rmfree_def rmfree_among_def)
  moreover have "rm_space ?mp \<inter> {addr ..< addr + sz} = {}" using sp assms(6) by blast
  from rmfree_correct [OF wf assms(2-5) this] obtain mp' where "rmfree ?mp sz addr = Inr (mh_want ?mp \<noteq> 0, mp')"
    "rmap_wf mp'" "rm_space mp' = rm_space ?mp \<union> {addr ..< addr + sz}" by auto
  ultimately show ?thesis using m wf sp env
    by (intro exI [of _ xs] exI [of _ y] exI [of _ z] exI [of _ w] exI [of _ ?mp] exI [of _ mp']) simp
qed

theorem rmfree_overflow_loses_smaller_witness:
  "\<exists>w mp'. m_size w = min 5 5 \<and> rmfree (map3\<lparr>mh_free := 0, mh_size := 3\<rparr>) 2 6 = Inr (False, mp')
     \<and> rm_space mp' = (rm_space map3 - ent_space w) \<union> {6 ..< 8}"
proof -
  let ?m = "map3\<lparr>mh_free := 0, mh_size := 3\<rparr>"
  have wf: "rmap_wf ?m" by (simp add: map3_def rmap_inv_def rmap_wf_def ent_end_def)
  have sp: "rm_space ?m = rm_space map3" by (simp add: rm_space_def)
  then have g: "rm_space ?m \<inter> {6 ..< 6 + 2} = {}" by (auto simp: map3_space)
  have t: "\<not> rm_touches ?m 2 6" by (simp add: map3_def rm_touches_def ent_end_def)
  obtain xs y z w mp' where r: "mh_map ?m = xs @ [y, z]" "m_size w = min (m_size y) (m_size z)"
    "rmfree ?m 2 6 = Inr (mh_want ?m \<noteq> 0, mp')"
    "rm_space mp' = (rm_space ?m - ent_space w) \<union> {6 ..< 6 + 2}"
    using rmfree_overflow_loses_smaller [OF wf _ _ _ _ g _ t] by auto
  have "m_size y = 5" "m_size z = 5" using r(1) by (auto simp: map3_def Cons_eq_append_conv)
  then show ?thesis using r sp by (auto simp: map3_def)
qed

text \<open>
  C32: \<open>rmfree\<close> panics with ``bad rmfree'' exactly on a bad request: a zero address, a size that is
  not positive as a signed number, or a block that overlaps space that is already free.
\<close>

theorem rmfree_panics_iff:
  assumes "rmap_wf mp" and "addr + sz < 2 ^ 32"
  shows "rmfree mp sz addr = Inl (Panic ''bad rmfree'') \<longleftrightarrow>
     addr = 0 \<or> sz = 0 \<or> 2 ^ 31 \<le> sz \<or> rm_space mp \<inter> {addr ..< addr + sz} \<noteq> {}"
proof (cases "addr = 0 \<or> sz = 0 \<or> 2 ^ 31 \<le> sz")
  case True
  then show ?thesis by (auto simp: rmfree_def rmfree_among_def ssize_pos_def)
next
  case False
  then have p: "0 < addr" "0 < sz" "sz < 2 ^ 31" by auto
  show ?thesis
  proof (cases "rm_space mp \<inter> {addr ..< addr + sz} = {}")
    case True
    then show ?thesis using rmfree_correct [OF assms(1) p assms(2)] p by auto
  next
    case over: False
    have "rmap_inv mp" using assms(1) by (simp add: rmap_wf_def)
    from rmfree_retry_overlap [OF this p(1,2) assms(2) over] show ?thesis
      using p over by (simp add: rmfree_def rmfree_among_def ssize_pos_def)
  qed
qed

theorem rmfree_panics_iff_witness:
  "rmfree map3 4 12 = Inl (Panic ''bad rmfree'')"
proof -
  have l: "12 + 4 < (2::nat) ^ 32" by simp
  have "(12::nat) \<in> rm_space map3 \<inter> {12 ..< 12 + 4}" by (simp add: map3_space)
  then show ?thesis using rmfree_panics_iff [OF map3_inv(2) l] by blast
qed

text \<open>
  C31: Round trip: giving back a block just allocated restores every segment and slot of the map;
  only the sleepers' flag is cleared.
\<close>

theorem rmalloc_rmfree_roundtrip:
  assumes "rmap_inv mp" and "0 < sz" "sz < 2 ^ 31" and "rmalloc mp sz = (addr, mp')" and "addr \<noteq> 0"
  shows "rmfree mp' sz addr = Inr (mh_want mp \<noteq> 0, mp\<lparr>mh_want := 0\<rparr>)"
proof -
  have "rmfree_retry [] mp' sz addr = Inr mp"
    using rmalloc_rmfree_retry assms by (simp add: rmalloc_def)
  then show ?thesis using assms(2,3,5) by (auto simp: rmfree_def rmfree_among_def ssize_pos_def)
qed

theorem rmalloc_rmfree_roundtrip_witness:
  "\<exists>mp'. rmalloc map3 5 = (10, mp') \<and> mp' \<noteq> map3 \<and> rmfree mp' 5 10 = Inr (False, map3\<lparr>mh_want := 0\<rparr>)"
proof -
  let ?m = "map3\<lparr>mh_map := [\<lparr>m_size = 2, m_addr = 1\<rparr>, \<lparr>m_size = 5, m_addr = 20\<rparr>], mh_free := 2\<rparr>"
  have r: "rmalloc map3 5 = (10, ?m)"
    by (simp add: map3_def rmalloc_def rmalloc_locked_def)
  have "rmfree ?m 5 10 = Inr (mh_want map3 \<noteq> 0, map3\<lparr>mh_want := 0\<rparr>)"
    by (rule rmalloc_rmfree_roundtrip [OF map3_inv(1) _ _ r]) simp_all
  moreover have "?m \<noteq> map3" by (simp add: map3_def)
  ultimately show ?thesis using r by (auto simp: map3_def)
qed

text \<open>
  C34: \<open>rmget\<close> takes the block at exactly the address asked for, removing it and nothing else from
  the free space, or returns 0 and leaves the map alone; the latter only if some address of the
  block is not free or no slot is left for the second piece of a split segment.
\<close>

theorem rmget_takes_block:
  assumes "rmap_inv mp" and "0 < addr" "ssize_pos sz" "addr + sz < 2 ^ 32"
  shows "(rmget mp sz addr = Inr (0, mp)
            \<and> (mh_free mp = 0 \<or> \<not> {addr ..< addr + sz} \<subseteq> rm_space mp))
       \<or> (\<exists>mp'. rmget mp sz addr = Inr (addr, mp') \<and> rmap_inv mp'
            \<and> {addr ..< addr + sz} \<subseteq> rm_space mp
            \<and> rm_space mp' = rm_space mp - {addr ..< addr + sz} \<and> mh_size mp' = mh_size mp)"
proof -
  have ok: "segs_ok 0 (mh_map mp)" and cnt: "length (mh_map mp) + mh_free mp = mh_size mp"
    using assms(1) by (auto simp: rmap_inv_def)
  have sz: "0 < sz" using assms(3) by (simp add: ssize_pos_def)
  from rmget_eval [OF ok assms(3,4)] show ?thesis
  proof (elim disjE exE conjE)
    assume "addr \<notin> rm_space mp" "rmget mp sz addr = Inr (0, mp)"
    then show ?thesis using sz by force
  next
    fix ls bp rs
    assume m: "mh_map mp = ls @ bp # rs" and inb: "m_addr bp \<le> addr" "addr < ent_end bp"
      and r: "rmget mp sz addr =
        (if ent_end bp < addr + sz \<or> mh_free mp = 0 \<and> length (ent_minus bp sz addr) = 2
         then Inr (0, mp)
         else Inr (addr, mp\<lparr>mh_map := ls @ ent_minus bp sz addr @ rs,
                mh_free := mh_free mp + 1 - length (ent_minus bp sz addr)\<rparr>))"
    have okb: "segs_ok 0 (ls @ bp # rs)" using ok m by simp
    show ?thesis
    proof (cases "ent_end bp < addr + sz")
      case True
      have "ent_end bp \<notin> rm_space mp"
        using okb segs_space_bounds [of 0 ls "ent_end bp"] segs_space_bounds [of "ent_end bp" rs "ent_end bp"] m inb
        by (auto simp: rm_space_def ent_space_def ent_end_def)
      then show ?thesis using True r inb by (auto simp: subset_iff)
    next
      case False
      then have e: "addr + sz \<le> ent_end bp" by simp
      note c = ent_minus_correct [OF okb inb(1) e sz]
      have l2: "length (ent_minus bp sz addr) \<le> 2" by (simp add: ent_minus_def)
      have "{addr ..< addr + sz} \<subseteq> rm_space mp"
        using m inb e by (auto simp: rm_space_def ent_space_def)
      then show ?thesis using False r c l2 cnt m
        by (auto simp: rmap_inv_def rm_space_def)
    qed
  qed
qed

theorem rmget_takes_block_witness:
  "\<exists>mp'. rmget map3 2 12 = Inr (12, mp') \<and> rm_space mp' = rm_space map3 - {12 ..< 14}"
proof -
  have l: "12 + 2 < (2::nat) ^ 32" by simp
  have s: "ssize_pos 2" by (simp add: ssize_pos_def)
  have "rmget map3 2 12 \<noteq> Inr (0, map3)"
    by (simp add: rmget_def ssize_pos_def map3_def)
  then show ?thesis using rmget_takes_block [OF map3_inv(1) _ s l] by auto
qed

text \<open>
  A thread that \<open>rmalloc_wait\<close> leaves asleep has set the wanted flag, which makes the next
  \<open>rmfree\<close> wake it, and no segment of the map was large enough when it went to sleep; a thread
  that returns holds a block that is not free any more. This is for any behaviour of the other
  threads that keeps the map well formed.
\<close>

theorem rmalloc_wait_outcome:
  assumes "rmap_inv mp" and "0 < sz" and "\<forall>e \<in> set envs. \<forall>m. rmap_inv m \<longrightarrow> rmap_inv (e m)"
  shows "case rmalloc_wait envs mp sz of
      (None, mp') \<Rightarrow> mh_want mp' = 1 \<and> rmap_inv mp' \<and> (\<forall>bp \<in> set (mh_map mp'). m_size bp < sz)
    | (Some addr, mp') \<Rightarrow> addr \<noteq> 0 \<and> rmap_inv mp' \<and> rm_space mp' \<inter> {addr ..< addr + sz} = {}"
  using assms
proof (induction envs arbitrary: mp)
  case Nil
  obtain a mp' where r: "rmalloc_locked mp sz = (a, mp')" by fastforce
  show ?case
  proof (cases "a = 0")
    case True
    then show ?thesis using rmalloc_locked_fail [of mp sz mp'] r Nil.prems
      by (auto simp: rmap_inv_def)
  next
    case False
    then show ?thesis using rmalloc_locked_correct [OF Nil.prems(1,2) r] r by auto
  qed
next
  case (Cons e envs)
  obtain a mp' where r: "rmalloc_locked mp sz = (a, mp')" by fastforce
  show ?case
  proof (cases "a = 0")
    case True
    have "rmap_inv (mp'\<lparr>mh_want := 1\<rparr>)"
      using rmalloc_locked_fail [of mp sz mp'] r True Cons.prems by (auto simp: rmap_inv_def)
    then have "rmap_inv (e (mp'\<lparr>mh_want := 1\<rparr>))" using Cons.prems(3) by auto
    from Cons.IH [OF this Cons.prems(2)] show ?thesis using Cons.prems(3) r True by simp
  next
    case False
    then show ?thesis using rmalloc_locked_correct [OF Cons.prems(1,2) r] r by auto
  qed
qed

theorem rmalloc_wait_outcome_witness:
  "case rmalloc_wait [\<lambda>m. if rmap_inv m then map3 else m] (map3\<lparr>mh_map := [], mh_free := 4\<rparr>) 5 of
      (None, mp') \<Rightarrow> False
    | (Some addr, mp') \<Rightarrow> addr = 10 \<and> rm_space mp' \<inter> {addr ..< addr + 5} = {}"
proof -
  let ?m = "map3\<lparr>mh_map := [], mh_free := 4\<rparr>" and ?e = "\<lambda>m. if rmap_inv m then map3 else m"
  have i: "rmap_inv ?m" by (simp add: map3_def rmap_inv_def)
  have e: "\<forall>e \<in> set [?e]. \<forall>m. rmap_inv m \<longrightarrow> rmap_inv (e m)" using map3_inv by simp
  have "fst (rmalloc_wait [?e] ?m 5) = Some 10"
    using i by (simp add: rmalloc_locked_def rmap_inv_def) (simp add: map3_def)
  moreover have "(0::nat) < 5" by simp
  moreover obtain o' mp' where r: "rmalloc_wait [?e] ?m 5 = (o', mp')" by (cases "rmalloc_wait [?e] ?m 5")
  ultimately show ?thesis using rmalloc_wait_outcome [OF i _ e, of 5] unfolding r by simp
qed

end
