(* ===== verification/Cred.thy ===== *)
theory Cred
  imports Kernel_Prelude
begin

text \<open>
  User credentials (\<^verbatim>\<open>os/cred.c\<close>, \<^verbatim>\<open>sys/cred.h\<close>): who a process acts for, and the tests on
  them that the other modules use. The supplementary groups are the list of the first
  \<^verbatim>\<open>cr_ngroups\<close> elements of \<^verbatim>\<open>cr_groups\<close>. User and group ids are signed (\<^verbatim>\<open>long\<close>).
  The C2 auditing calls are compiled in only with \<^verbatim>\<open>C2_AUDIT\<close> and are left out; the accounting
  flag that \<^verbatim>\<open>suser\<close> sets is returned beside its answer.
\<close>

record cred =
  cr_ref :: nat
  cr_uid :: int
  cr_gid :: int
  cr_ruid :: int
  cr_rgid :: int
  cr_suid :: int
  cr_sgid :: int
  cr_groups :: "int list"

definition crget :: cred where
  "crget = \<lparr>cr_ref = 1, cr_uid = 0, cr_gid = 0, cr_ruid = 0, cr_rgid = 0, cr_suid = 0,
            cr_sgid = 0, cr_groups = []\<rparr>"

text \<open>
  \<open>crfree\<close> drops one reference; the structure goes back to the cache (\<open>None\<close>) when none is left,
  which for \<open>kcred\<close> is a panic. The count is unsigned, so a drop from 0 wraps.
\<close>

definition crfree :: "bool \<Rightarrow> cred \<Rightarrow> cred option kres" where
  "crfree is_kcred cr =
     (if 0 < usub (cr_ref cr) 1 then Inr (Some (cr\<lparr>cr_ref := usub (cr_ref cr) 1\<rparr>))
      else if is_kcred then Inl (Panic ''cr == kcred'')
      else Inr None)"

text \<open>The new credentials of \<open>crcopy\<close> carry two references; those of the old ones drop by one.\<close>

definition crcopy :: "bool \<Rightarrow> cred \<Rightarrow> (cred \<times> cred option) kres" where
  "crcopy is_kcred cr =
     (case crfree is_kcred cr of Inl f \<Rightarrow> Inl f | Inr old \<Rightarrow> Inr (cr\<lparr>cr_ref := 2\<rparr>, old))"

definition crdup :: "cred \<Rightarrow> cred" where
  "crdup cr = cr\<lparr>cr_ref := 1\<rparr>"

definition suser :: "cred \<Rightarrow> bool \<Rightarrow> bool \<times> bool" where
  "suser cr asu = (if cr_uid cr = 0 then (True, True) else (False, asu))"

fun groupmember_scan :: "int \<Rightarrow> int list \<Rightarrow> bool" where
  "groupmember_scan gid [] = False"
| "groupmember_scan gid (g # gs) = (if g = gid then True else groupmember_scan gid gs)"

definition groupmember :: "int \<Rightarrow> cred \<Rightarrow> bool" where
  "groupmember gid cr = (if gid = cr_gid cr then True else groupmember_scan gid (cr_groups cr))"

definition hasprocperm :: "cred \<Rightarrow> cred \<Rightarrow> bool" where
  "hasprocperm tcr scr \<longleftrightarrow>
     cr_uid scr = 0 \<or> cr_uid scr = cr_ruid tcr \<or> cr_ruid scr = cr_ruid tcr
     \<or> cr_uid scr = cr_suid tcr \<or> cr_ruid scr = cr_suid tcr"

text \<open>
  \<open>crcmp\<close> is true where the C function returns a nonzero value; \<open>same\<close> says that the two
  pointers are equal.
\<close>

definition crcmp :: "bool \<Rightarrow> cred \<Rightarrow> cred \<Rightarrow> bool" where
  "crcmp same cr1 cr2 =
     (if same then False
      else if cr_uid cr1 = cr_uid cr2 \<and> cr_gid cr1 = cr_gid cr2 \<and> cr_ruid cr1 = cr_ruid cr2
              \<and> cr_rgid cr1 = cr_rgid cr2 \<and> length (cr_groups cr1) = length (cr_groups cr2)
      then cr_groups cr1 \<noteq> cr_groups cr2
      else True)"

section \<open>Lemmas\<close>

lemma groupmember_scan_set: "groupmember_scan gid gs \<longleftrightarrow> gid \<in> set gs"
  by (induction gs) auto

lemma groupmember_iff: "groupmember gid cr \<longleftrightarrow> gid \<in> insert (cr_gid cr) (set (cr_groups cr))"
  by (auto simp: groupmember_def groupmember_scan_set)

lemma suser_eq [simp]: "fst (suser cr asu) \<longleftrightarrow> cr_uid cr = 0"
  by (simp add: suser_def)

end
