(* ===== verification/Ipc.thy ===== *)
theory Ipc
  imports Cred
begin

text \<open>
  The code shared by the System V message, semaphore and shared memory modules (\<^verbatim>\<open>os/ipc.c\<close>):
  access checks and the search of a facility table for a key. A facility table is an array of
  structures that start with a \<^verbatim>\<open>struct ipc_perm\<close>; \<open>ipcget\<close> works on the list of these and
  returns the slot and its new permission structure, which the caller stores.
  The reserved words of the structure are not modelled.
\<close>

record ipc_perm =
  ipc_uid :: int
  ipc_gid :: int
  ipc_cuid :: int
  ipc_cgid :: int
  ipc_mode :: "32 word"
  ipc_seq :: nat
  ipc_key :: int

definition IPC_ALLOC :: "32 word" where "IPC_ALLOC = 0x8000"
definition IPC_CREAT :: "32 word" where "IPC_CREAT = 0x200"
definition IPC_EXCL :: "32 word" where "IPC_EXCL = 0x400"
definition IPC_NOWAIT :: "32 word" where "IPC_NOWAIT = 0x800"
definition IPC_PRIVATE :: int where "IPC_PRIVATE = 0"
definition mode777 :: "32 word" where "mode777 = 0x1ff"

definition ipc_allocd :: "ipc_perm \<Rightarrow> bool" where
  "ipc_allocd p \<longleftrightarrow> ipc_mode p AND IPC_ALLOC \<noteq> 0"

text \<open>The tests \<open>ipcget\<close> makes on its flags.\<close>

definition ipc_excl :: "32 word \<Rightarrow> bool" where
  "ipc_excl flag \<longleftrightarrow> flag AND (IPC_CREAT OR IPC_EXCL) = (IPC_CREAT OR IPC_EXCL)"

definition ipc_creat :: "32 word \<Rightarrow> bool" where
  "ipc_creat flag \<longleftrightarrow> flag AND IPC_CREAT \<noteq> 0"

definition ipc_refused :: "32 word \<Rightarrow> ipc_perm \<Rightarrow> bool" where
  "ipc_refused flag p \<longleftrightarrow> (flag AND mode777) AND NOT (ipc_mode p) \<noteq> 0"

text \<open>
  \<open>ipcaccess\<close> returns \<open>None\<close> where the C function returns 0. The mode is an \<^verbatim>\<open>int\<close>: its shift is
  the arithmetic one.
\<close>

definition ipcaccess :: "ipc_perm \<Rightarrow> 32 word \<Rightarrow> cred \<Rightarrow> errno option" where
  "ipcaccess p mode cr =
     (if cr_uid cr = 0 then None
      else
        let mode =
          (if cr_uid cr \<noteq> ipc_uid p \<and> cr_uid cr \<noteq> ipc_cuid p then
             (let mode = signed_drop_bit 3 mode
              in if \<not> groupmember (ipc_gid p) cr \<and> \<not> groupmember (ipc_cgid p) cr
                 then signed_drop_bit 3 mode else mode)
           else mode)
        in if mode AND ipc_mode p \<noteq> 0 then None else Some EACCES)"

text \<open>The first free slot, counting from \<open>i\<close>.\<close>

fun ipcget_private :: "nat \<Rightarrow> ipc_perm list \<Rightarrow> nat option" where
  "ipcget_private i [] = None"
| "ipcget_private i (base # ps) = (if ipc_allocd base then ipcget_private (Suc i) ps else Some i)"

text \<open>The search for a key, with the first free slot it passes in \<open>a\<close>.\<close>

datatype ipcget_scan = Found nat | Fail errno | Absent "nat option"

fun ipcget_search :: "int \<Rightarrow> 32 word \<Rightarrow> nat \<Rightarrow> nat option \<Rightarrow> ipc_perm list \<Rightarrow> ipcget_scan" where
  "ipcget_search key flag i a [] = Absent a"
| "ipcget_search key flag i a (base # ps) =
     (if ipc_allocd base then
        (if ipc_key base = key then
           (if ipc_excl flag then Fail EEXIST
            else if ipc_refused flag base then Fail EACCES
            else Found i)
         else ipcget_search key flag (Suc i) a ps)
      else ipcget_search key flag (Suc i) (if a = None then Some i else a) ps)"

definition ipcget_init :: "int \<Rightarrow> 32 word \<Rightarrow> cred \<Rightarrow> ipc_perm \<Rightarrow> ipc_perm" where
  "ipcget_init key flag cr base =
     base\<lparr>ipc_mode := IPC_ALLOC OR (flag AND mode777), ipc_key := key,
          ipc_cuid := cr_uid cr, ipc_uid := cr_uid cr,
          ipc_cgid := cr_gid cr, ipc_gid := cr_gid cr\<rparr>"

text \<open>The result: the status word (true for a new entry), the slot, and its permissions.\<close>

definition ipcget :: "int \<Rightarrow> 32 word \<Rightarrow> cred \<Rightarrow> ipc_perm list \<Rightarrow> errno + (bool \<times> nat \<times> ipc_perm)" where
  "ipcget key flag cr perms =
     (if key = IPC_PRIVATE then
        (case ipcget_private 0 perms of
           None \<Rightarrow> Inl ENOSPC
         | Some i \<Rightarrow> Inr (True, i, ipcget_init key flag cr (perms ! i)))
      else
        (case ipcget_search key flag 0 None perms of
           Fail e \<Rightarrow> Inl e
         | Found i \<Rightarrow> Inr (False, i, perms ! i)
         | Absent a \<Rightarrow>
             (if \<not> ipc_creat flag then Inl ENOENT
              else
                case a of
                  None \<Rightarrow> Inl ENOSPC
                | Some i \<Rightarrow> Inr (True, i, ipcget_init key flag cr (perms ! i)))))"

section \<open>The table of keys\<close>

text \<open>No two allocated entries have the same key, unless it is \<open>IPC_PRIVATE\<close>.\<close>

definition keys_distinct :: "ipc_perm list \<Rightarrow> bool" where
  "keys_distinct ps \<longleftrightarrow>
     (\<forall>i j. i < length ps \<longrightarrow> j < length ps \<longrightarrow> i \<noteq> j \<longrightarrow> ipc_allocd (ps ! i) \<longrightarrow> ipc_allocd (ps ! j)
        \<longrightarrow> ipc_key (ps ! i) = ipc_key (ps ! j) \<longrightarrow> ipc_key (ps ! i) = IPC_PRIVATE)"

lemma ipc_allocd_init [simp]: "ipc_allocd (ipcget_init key flag cr p)"
proof -
  have "(IPC_ALLOC OR (flag AND mode777)) AND IPC_ALLOC = IPC_ALLOC"
    by (simp add: bit_eq_iff bit_and_iff bit_or_iff)
  moreover have "IPC_ALLOC \<noteq> 0" by (simp add: IPC_ALLOC_def)
  ultimately show ?thesis by (simp only: ipc_allocd_def ipcget_init_def ipc_perm.simps) simp
qed

lemma ipcget_private_Some:
  "ipcget_private i ps = Some j \<Longrightarrow>
   i \<le> j \<and> j < i + length ps \<and> \<not> ipc_allocd (ps ! (j - i)) \<and> (\<forall>k < j - i. ipc_allocd (ps ! k))"
proof (induction ps arbitrary: i)
  case (Cons p ps)
  show ?case
  proof (cases "ipc_allocd p")
    case True
    then have "ipcget_private (Suc i) ps = Some j" using Cons.prems by simp
    from Cons.IH [OF this] show ?thesis using True
      by (auto simp: nth_Cons split: nat.splits)
         (metis Suc_diff_Suc Suc_le_eq nat.inject)+
  next
    case False
    then show ?thesis using Cons.prems by auto
  qed
qed simp

lemma ipcget_private_None: "ipcget_private i ps = None \<longleftrightarrow> (\<forall>p \<in> set ps. ipc_allocd p)"
  by (induction ps arbitrary: i) auto

lemma ipcget_search_spec:
  "case ipcget_search key flag i a ps of
     Found j \<Rightarrow> i \<le> j \<and> j - i < length ps \<and> ipc_allocd (ps ! (j - i)) \<and> ipc_key (ps ! (j - i)) = key
       \<and> \<not> ipc_excl flag \<and> \<not> ipc_refused flag (ps ! (j - i))
   | Fail e \<Rightarrow> \<exists>p \<in> set ps. ipc_allocd p \<and> ipc_key p = key
       \<and> (if ipc_excl flag then e = EEXIST else e = EACCES \<and> ipc_refused flag p)
   | Absent b \<Rightarrow> (\<forall>p \<in> set ps. ipc_allocd p \<longrightarrow> ipc_key p \<noteq> key)
       \<and> b = (case a of None \<Rightarrow> ipcget_private i ps | Some x \<Rightarrow> Some x)"
proof (induction ps arbitrary: i a)
  case (Cons p ps)
  show ?case
  proof (cases "ipc_allocd p \<and> ipc_key p = key")
    case True
    then show ?thesis by simp
  next
    case False
    let ?a = "if ipc_allocd p then a else if a = None then Some i else a"
    have st: "ipcget_search key flag i a (p # ps) = ipcget_search key flag (Suc i) ?a ps"
      using False by auto
    have ca: "(case ?a of None \<Rightarrow> ipcget_private (Suc i) ps | Some x \<Rightarrow> Some x)
        = (case a of None \<Rightarrow> ipcget_private i (p # ps) | Some x \<Rightarrow> Some x)"
      by (cases a; cases "ipc_allocd p") simp_all
    have ix: "\<exists>k. j - i = Suc k \<and> j - Suc i = k" if "Suc i \<le> j" for j
      using that by (intro exI [of _ "j - Suc i"]) simp
    note IH = Cons.IH [of "Suc i" ?a]
    show ?thesis
    proof (cases "ipcget_search key flag (Suc i) ?a ps")
      case (Found j)
      then show ?thesis using IH ix [of j] unfolding st by auto
    next
      case (Fail e)
      then show ?thesis using IH unfolding st by auto
    next
      case (Absent b)
      then show ?thesis using IH ca False unfolding st by auto
    qed
  qed
qed (simp split: option.split)

lemma ipcget_new:
  assumes "ipcget key flag cr ps = Inr (True, i, p)"
  shows "i < length ps" "\<not> ipc_allocd (ps ! i)" "p = ipcget_init key flag cr (ps ! i)"
    "key \<noteq> IPC_PRIVATE \<longrightarrow> (\<forall>q \<in> set ps. ipc_allocd q \<longrightarrow> ipc_key q \<noteq> key)"
proof -
  have r: "ipcget_private 0 ps = Some i \<and> p = ipcget_init key flag cr (ps ! i)
    \<and> (key \<noteq> IPC_PRIVATE \<longrightarrow> (\<forall>q \<in> set ps. ipc_allocd q \<longrightarrow> ipc_key q \<noteq> key))"
    using assms ipcget_search_spec [where key = key and flag = flag and i = 0 and a = None and ps = ps]
    by (auto simp: ipcget_def split: if_splits option.splits ipcget_scan.splits)
  then show "i < length ps" "\<not> ipc_allocd (ps ! i)" "p = ipcget_init key flag cr (ps ! i)"
    "key \<noteq> IPC_PRIVATE \<longrightarrow> (\<forall>q \<in> set ps. ipc_allocd q \<longrightarrow> ipc_key q \<noteq> key)"
    using ipcget_private_Some [of 0 ps i] by auto
qed

lemma ipcget_old:
  assumes "ipcget key flag cr ps = Inr (False, i, p)"
  shows "i < length ps" "ipc_allocd (ps ! i)" "p = ps ! i" "ipc_key p = key" "key \<noteq> IPC_PRIVATE"
  using assms ipcget_search_spec [where key = key and flag = flag and i = 0 and a = None and ps = ps]
  by (auto simp: ipcget_def split: if_splits option.splits ipcget_scan.splits)

lemma keys_distinct_init:
  assumes "keys_distinct ps" "i < length ps"
    "key \<noteq> IPC_PRIVATE \<longrightarrow> (\<forall>q \<in> set ps. ipc_allocd q \<longrightarrow> ipc_key q \<noteq> key)"
    "ipc_key p = key"
  shows "keys_distinct (ps[i := p])"
  unfolding keys_distinct_def
proof (intro allI impI)
  fix j k
  assume jk: "j < length (ps[i := p])" "k < length (ps[i := p])" "j \<noteq> k"
    "ipc_allocd (ps[i := p] ! j)" "ipc_allocd (ps[i := p] ! k)"
    "ipc_key (ps[i := p] ! j) = ipc_key (ps[i := p] ! k)"
  have other: "key = IPC_PRIVATE" if "l < length ps" "ipc_allocd (ps ! l)" "ipc_key (ps ! l) = key" for l
    using that assms(3) nth_mem by blast
  consider "j = i" "k \<noteq> i" | "k = i" "j \<noteq> i" | "j \<noteq> i" "k \<noteq> i" using jk(3) by blast
  then show "ipc_key (ps[i := p] ! j) = IPC_PRIVATE"
  proof cases
    case 1
    then show ?thesis using other [of k] jk assms(2,4) by simp
  next
    case 2
    then show ?thesis using other [of j] jk assms(2,4) by simp
  next
    case 3
    then show ?thesis using jk assms(1) unfolding keys_distinct_def by simp
  qed
qed

lemma keys_distinct_free:
  assumes "keys_distinct ps" "\<not> ipc_allocd p"
  shows "keys_distinct (ps[i := p])"
  using assms unfolding keys_distinct_def
  by (metis length_list_update nth_list_update_eq nth_list_update_neq)

text \<open>A change that keeps the key and the allocation of an entry keeps the table.\<close>

lemma keys_distinct_same:
  assumes "keys_distinct ps" "i < length ps" "ipc_allocd p \<longrightarrow> ipc_allocd (ps ! i)"
    "ipc_key p = ipc_key (ps ! i)"
  shows "keys_distinct (ps[i := p])"
  using assms unfolding keys_distinct_def by (simp add: nth_list_update)

section \<open>Identifiers\<close>

text \<open>
  An identifier combines the slot of an entry with the slot's sequence number, which changes each
  time the entry is removed. The semaphore and message modules encode it differently; this is the
  contract both encodings meet. \<open>ipc_conv\<close> is the test each module makes on an identifier handed
  in by a user.
\<close>

definition ipc_conv :: "(int \<Rightarrow> nat) \<Rightarrow> (int \<Rightarrow> nat) \<Rightarrow> ipc_perm list \<Rightarrow> int \<Rightarrow> nat option" where
  "ipc_conv index sequ ps idn =
     (if index idn < length ps \<and> ipc_allocd (ps ! index idn) \<and> sequ idn = ipc_seq (ps ! index idn)
      then Some (index idn) else None)"

locale ipc_ids =
  fixes mk_id :: "nat \<Rightarrow> nat \<Rightarrow> int"
    and index :: "int \<Rightarrow> nat"
    and sequ :: "int \<Rightarrow> nat"
    and next_seq :: "int \<Rightarrow> nat \<Rightarrow> nat"
    and ok :: "nat \<Rightarrow> nat \<Rightarrow> bool"
  assumes index_mk: "ok s i \<Longrightarrow> index (mk_id s i) = i"
    and sequ_mk: "ok s i \<Longrightarrow> sequ (mk_id s i) = s"
    and next_ok: "ok s i \<Longrightarrow> ok (next_seq (mk_id s i) s) i"
    and next_neq: "ok s i \<Longrightarrow> next_seq (mk_id s i) s \<noteq> s"
begin

lemma conv_mk:
  assumes "ok (ipc_seq (ps ! i)) i" "i < length ps" "ipc_allocd (ps ! i)"
  shows "ipc_conv index sequ ps (mk_id (ipc_seq (ps ! i)) i) = Some i"
  using assms by (simp add: ipc_conv_def index_mk sequ_mk)

text \<open>Once an entry is removed its identifier is refused, also after the slot is used again.\<close>

lemma conv_stale:
  assumes "ok s i" "i < length ps" "ipc_seq p = next_seq (mk_id s i) s"
  shows "ipc_conv index sequ (ps[i := p]) (mk_id s i) = None"
  using assms next_neq [OF assms(1)] by (simp add: ipc_conv_def index_mk sequ_mk)

lemma mk_id_inj:
  assumes "ok s i" "ok t j" "mk_id s i = mk_id t j"
  shows "s = t \<and> i = j"
  using assms by (metis index_mk sequ_mk)

end

section \<open>Properties\<close>

text \<open>An entry that holds the public key \<open>key\<close>.\<close>

definition ipc_present :: "int \<Rightarrow> ipc_perm list \<Rightarrow> ipc_perm \<Rightarrow> bool" where
  "ipc_present key ps p \<longleftrightarrow> p \<in> set ps \<and> ipc_allocd p \<and> ipc_key p = key \<and> key \<noteq> IPC_PRIVATE"

lemma and_zero_iff: "v AND w = 0 \<longleftrightarrow> (\<forall>k. \<not> (bit v k \<and> bit w k))" for v w :: "32 word"
proof -
  have "bit v k \<Longrightarrow> k < 32" for k using bit_imp_le_length [of v k] by simp
  then show ?thesis by (auto simp: bit_eq_iff [of "v AND w"] bit_and_iff)
qed

text \<open>On a mode that is not negative the shift is the logical one.\<close>

lemma bit_signed_drop: "\<not> bit w 31 \<Longrightarrow> bit (signed_drop_bit n w) k \<longleftrightarrow> bit w (k + n)" for w :: "32 word"
proof -
  assume w: "\<not> bit w 31"
  have len: "bit w (n + k) \<Longrightarrow> n + k < 32" using bit_imp_le_length [of w "n + k"] by simp
  have b: "bit (signed_drop_bit n w) k \<longleftrightarrow> bit w (if 32 - n \<le> k \<and> k < 32 then 31 else n + k)"
    using bit_signed_drop_bit_iff [of n w k] by simp
  show ?thesis
  proof (cases "32 - n \<le> k \<and> k < 32")
    case True
    then have "\<not> bit w (n + k)" using len by linarith
    then show ?thesis unfolding b using True w by (simp add: add.commute)
  next
    case False
    then show ?thesis unfolding b by (simp only: if_False add.commute)
  qed
qed

lemma mask_and_iff: "k < 32 \<Longrightarrow> (2 ^ k :: 32 word) AND w = 0 \<longleftrightarrow> \<not> bit w k"
  by (auto simp: and_zero_iff bit_exp_iff)

text \<open>
  C37: \<open>ipcaccess\<close>, asked for any permissions that are not negative as an \<^verbatim>\<open>int\<close>, grants them to the
  super-user always; to the owner or creator exactly when the mode of the entry has one of the bits
  asked for; to a member of the owning or creating group exactly when it has one of the bits 3 below;
  to everyone else exactly when it has one of the bits 6 below. The bits of no other class count.
\<close>

theorem ipcaccess_class:
  assumes "\<not> bit mode 31"
  shows "ipcaccess p mode cr =
    (let d = (if cr_uid cr \<in> {ipc_uid p, ipc_cuid p} then 0
              else if groupmember (ipc_gid p) cr \<or> groupmember (ipc_cgid p) cr then 3
              else 6)
     in if cr_uid cr = 0 \<or> (\<exists>k. bit mode (k + d) \<and> bit (ipc_mode p) k) then None else Some EACCES)"
proof -
  have 1: "bit (signed_drop_bit 3 mode) k \<longleftrightarrow> bit mode (k + 3)" for k using assms by (rule bit_signed_drop)
  have 2: "bit (signed_drop_bit 6 mode) k \<longleftrightarrow> bit mode (k + 6)" for k using assms by (rule bit_signed_drop)
  have 3: "signed_drop_bit 3 (signed_drop_bit 3 mode) = signed_drop_bit 6 mode" by simp
  show ?thesis
    unfolding ipcaccess_def Let_def and_zero_iff 3 by (simp add: 1 2)
qed

theorem ipcaccess_class_witness:
  "ipcaccess \<lparr>ipc_uid = 5, ipc_gid = 7, ipc_cuid = 5, ipc_cgid = 7, ipc_mode = 0x8020, ipc_seq = 0,
       ipc_key = 9\<rparr> 0x100 (crget\<lparr>cr_uid := 6, cr_groups := [3, 7]\<rparr>) = None"
proof -
  have "bit (0x100 :: 32 word) (5 + 3) \<and> bit (0x8020 :: 32 word) 5" by simp
  then have "\<exists>k. bit (0x100 :: 32 word) (k + 3) \<and> bit (0x8020 :: 32 word) k" by blast
  then show ?thesis by (subst ipcaccess_class) (simp_all add: crget_def groupmember_iff Let_def)
qed

text \<open>
  C38: A successful \<open>ipcget\<close> returns an allocated entry with the key asked for: either the one
  that was there, unchanged, or a free slot set up for the caller with the slot's sequence number
  kept. No two allocated entries ever share a public key.
\<close>

theorem ipcget_entry:
  assumes "keys_distinct ps" and "ipcget key flag cr ps = Inr (new, i, p)"
  shows "i < length ps \<and> keys_distinct (ps[i := p]) \<and> ipc_allocd p \<and> ipc_key p = key
    \<and> ipc_seq p = ipc_seq (ps ! i) \<and> (new \<longleftrightarrow> \<not> ipc_allocd (ps ! i)) \<and> (\<not> new \<longrightarrow> p = ps ! i)
    \<and> (new \<longrightarrow> ipc_uid p = cr_uid cr \<and> ipc_cuid p = cr_uid cr \<and> ipc_gid p = cr_gid cr
          \<and> ipc_cgid p = cr_gid cr \<and> ipc_mode p = IPC_ALLOC OR (flag AND mode777))"
proof (cases new)
  case True
  then have r: "ipcget key flag cr ps = Inr (True, i, p)" using assms(2) by simp
  note n = ipcget_new [OF r]
  have k: "ipc_key p = key" "ipc_seq p = ipc_seq (ps ! i)" using n(3) by (simp_all add: ipcget_init_def)
  have "keys_distinct (ps[i := p])" using keys_distinct_init [OF assms(1) n(1) n(4) k(1)] .
  moreover have "ipc_allocd p" using n(3) by simp
  ultimately show ?thesis using n k True by (auto simp: ipcget_init_def)
next
  case False
  then have r: "ipcget key flag cr ps = Inr (False, i, p)" using assms(2) by simp
  note n = ipcget_old [OF r]
  then show ?thesis using assms(1) False by simp
qed

theorem ipcget_entry_witness:
  "\<exists>p. ipcget 42 0x3b0 (crget\<lparr>cr_uid := 5\<rparr>)
         [\<lparr>ipc_uid = 1, ipc_gid = 1, ipc_cuid = 1, ipc_cgid = 1, ipc_mode = 0, ipc_seq = 3, ipc_key = 7\<rparr>]
       = Inr (True, 0, p) \<and> ipc_key p = 42 \<and> ipc_seq p = 3 \<and> ipc_cuid p = 5"
proof -
  let ?q = "\<lparr>ipc_uid = 1, ipc_gid = 1, ipc_cuid = 1, ipc_cgid = 1, ipc_mode = 0, ipc_seq = 3, ipc_key = 7\<rparr>"
  have d: "keys_distinct [?q]" by (simp add: keys_distinct_def)
  have c: "ipc_creat 0x3b0" by (simp add: ipc_creat_def IPC_CREAT_def)
  have r: "ipcget 42 0x3b0 (crget\<lparr>cr_uid := 5\<rparr>) [?q]
      = Inr (True, 0, ipcget_init 42 0x3b0 (crget\<lparr>cr_uid := 5\<rparr>) ?q)"
    using c by (simp add: ipcget_def IPC_PRIVATE_def ipc_allocd_def)
  from ipcget_entry [OF d r] show ?thesis using r by (auto simp: ipcget_init_def)
qed

text \<open>
  C39: The errors of \<open>ipcget\<close>: \<open>ENOENT\<close> exactly for an absent key without \<open>IPC_CREAT\<close>,
  \<open>EEXIST\<close> exactly for a present key with both \<open>IPC_CREAT\<close> and \<open>IPC_EXCL\<close>, \<open>EACCES\<close> exactly for
  a present key whose mode lacks a bit asked for (and no exclusive creation), and \<open>ENOSPC\<close>
  exactly when a new entry is needed and every slot is in use.
\<close>

theorem ipcget_errors:
  assumes "keys_distinct ps"
  shows "ipcget key flag cr ps = Inl e \<longleftrightarrow>
     e = ENOENT \<and> key \<noteq> IPC_PRIVATE \<and> (\<nexists>p. ipc_present key ps p) \<and> \<not> ipc_creat flag
   \<or> e = EEXIST \<and> (\<exists>p. ipc_present key ps p) \<and> ipc_excl flag
   \<or> e = EACCES \<and> (\<exists>p. ipc_present key ps p \<and> ipc_refused flag p) \<and> \<not> ipc_excl flag
   \<or> e = ENOSPC \<and> (key = IPC_PRIVATE \<or> (\<nexists>p. ipc_present key ps p) \<and> ipc_creat flag)
       \<and> (\<forall>p \<in> set ps. ipc_allocd p)"
proof (cases "key = IPC_PRIVATE")
  case True
  then show ?thesis
    using ipcget_private_None [of 0 ps]
    by (auto simp: ipcget_def ipc_present_def split: option.splits)
next
  case False
  note spec = ipcget_search_spec [where key = key and flag = flag and i = 0 and a = None and ps = ps]
  have uniq: "p = q" if "ipc_present key ps p" "ipc_present key ps q" for p q
    using that assms(1) False unfolding ipc_present_def keys_distinct_def in_set_conv_nth by metis
  show ?thesis
  proof (cases "ipcget_search key flag 0 None ps")
    case (Found j)
    then have "ipc_present key ps (ps ! j)" "\<not> ipc_excl flag" "\<not> ipc_refused flag (ps ! j)"
      using spec False by (auto simp: ipc_present_def)
    then show ?thesis using Found False uniq by (auto simp: ipcget_def)
  next
    case (Fail f)
    then obtain p where "ipc_present key ps p"
      "if ipc_excl flag then f = EEXIST else f = EACCES \<and> ipc_refused flag p"
      using spec False by (auto simp: ipc_present_def)
    then show ?thesis using Fail False uniq by (auto simp: ipcget_def split: if_splits)
  next
    case (Absent b)
    then have "\<nexists>p. ipc_present key ps p" "b = ipcget_private 0 ps" using spec by (auto simp: ipc_present_def)
    then show ?thesis using Absent False ipcget_private_None [of 0 ps]
      by (auto simp: ipcget_def split: option.splits)
  qed
qed

theorem ipcget_errors_witness:
  "ipcget 42 0x1b0 crget
     [\<lparr>ipc_uid = 1, ipc_gid = 1, ipc_cuid = 1, ipc_cgid = 1, ipc_mode = 0x81b0, ipc_seq = 3, ipc_key = 7\<rparr>]
   = Inl ENOENT"
proof -
  let ?q = "\<lparr>ipc_uid = 1, ipc_gid = 1, ipc_cuid = 1, ipc_cgid = 1, ipc_mode = 0x81b0, ipc_seq = 3, ipc_key = 7\<rparr>"
  have d: "keys_distinct [?q]" by (simp add: keys_distinct_def)
  have "\<not> ipc_creat 0x1b0" by (simp add: ipc_creat_def IPC_CREAT_def)
  then show ?thesis using ipcget_errors [OF d, of 42 "0x1b0" crget ENOENT]
    by (simp add: IPC_PRIVATE_def ipc_present_def)
qed

end
