(* ===== verification/Sem.thy ===== *)
theory Sem
  imports Rmap Ipc
begin

text \<open>
  The System V semaphore module, \<^verbatim>\<open>syscall/sem.c\<close>: data and operations.

  The pools of the module are the table of semaphore sets \<open>sema\<close>, the array of semaphores \<open>sem\<close>
  (here \<open>sem_arr\<close>; a set is a range of it, allocated from the resource map \<open>semmap\<close>), and a pool
  of undo structures. An undo structure is a number; \<open>semu\<close> gives its entries (the first
  \<^verbatim>\<open>un_cnt\<close> elements of \<^verbatim>\<open>un_ent\<close>), \<open>sem_undo\<close> the structure of a process slot, and \<open>semunp\<close> and
  \<open>semfup\<close> are the chains of active and of free structures. Operations on condition variables are
  logged in \<open>sem_wakes\<close>, most recent first.

  \<open>semctl\<close> and \<open>semop\<close> run under the lock of their semaphore set (and, where they touch the undo
  structures, under \<^verbatim>\<open>sem_lock\<close>); \<open>semget\<close> runs under \<^verbatim>\<open>sem_lock\<close> only, so on another processor a call on
  the set can run between the point where \<open>ipcget\<close> marks the entry allocated and the point where
  its base and size are stored. Each call up to its first sleep is one step here; that
  interleaving is not among the steps. \<open>semop\<close>, which can sleep, takes what happens
  during each sleep as an argument. Copies from and to user memory are arguments too: \<open>None\<close>, or
  a false flag, is a fault. The reserved words of the structures are not modelled.
\<close>

section \<open>Data\<close>

record seminfo =
  semmni :: nat
  semmns :: nat
  semmnu :: nat
  semmsl :: nat
  semopm :: nat
  semume :: nat
  semvmx :: nat
  semaem :: nat

record sem_ent =
  semval :: nat
  sempid :: int
  semncnt :: nat
  semzcnt :: nat

record semid_ds =
  sem_perm :: ipc_perm
  sem_base :: nat
  sem_nsems :: nat
  sem_otime :: int
  sem_ctime :: int
  sem_binary :: bool

record undo =
  un_aoe :: int
  un_num :: nat
  un_id :: int

record sembuf =
  sem_num :: nat
  sem_op :: int
  sem_flg :: "32 word"

datatype sem_wake = BcastN nat | BcastZ nat | SignalN nat | SignalZ nat

record sem_sys =
  sema :: "semid_ds list"
  sem_arr :: "sem_ent list"
  semmap :: map_head
  sem_undo :: "nat \<Rightarrow> nat option"
  semu :: "nat \<Rightarrow> undo list"
  semunp :: "nat list"
  semfup :: "nat list"
  sem_wakes :: "sem_wake list"

definition SEM_A :: "32 word" where "SEM_A = 0x80"
definition SEM_R :: "32 word" where "SEM_R = 0x100"
definition SEM_UNDO :: "32 word" where "SEM_UNDO = 0x1000"

definition op_undo :: "sembuf \<Rightarrow> bool" where
  "op_undo op \<longleftrightarrow> sem_flg op AND SEM_UNDO \<noteq> 0"

definition op_nowait :: "sembuf \<Rightarrow> bool" where
  "op_nowait op \<longleftrightarrow> sem_flg op AND IPC_NOWAIT \<noteq> 0"

definition sem_perms :: "sem_sys \<Rightarrow> ipc_perm list" where
  "sem_perms st = map sem_perm (sema st)"

definition upd_sem :: "nat \<Rightarrow> (sem_ent \<Rightarrow> sem_ent) \<Rightarrow> sem_sys \<Rightarrow> sem_sys" where
  "upd_sem k f st = st\<lparr>sem_arr := (sem_arr st)[k := f (sem_arr st ! k)]\<rparr>"

definition log_wake :: "sem_wake \<Rightarrow> sem_sys \<Rightarrow> sem_sys" where
  "log_wake w st = st\<lparr>sem_wakes := w # sem_wakes st\<rparr>"

definition upd_set :: "nat \<Rightarrow> (semid_ds \<Rightarrow> semid_ds) \<Rightarrow> sem_sys \<Rightarrow> sem_sys" where
  "upd_set i f st = st\<lparr>sema := (sema st)[i := f (sema st ! i)]\<rparr>"

section \<open>Undo entries\<close>

text \<open>The undo structure of a process, taken from the free chain if it has none.\<close>

definition sem_undo_get :: "nat \<Rightarrow> sem_sys \<Rightarrow> (nat \<times> sem_sys) option" where
  "sem_undo_get slot st =
     (case sem_undo st slot of
        Some up \<Rightarrow> Some (up, st)
      | None \<Rightarrow>
          (case semfup st of
             [] \<Rightarrow> None
           | up # fs \<Rightarrow> Some (up, st\<lparr>semfup := fs, sem_undo := (sem_undo st)(slot := Some up)\<rparr>)))"

text \<open>The entries are in the order of semaphore identifier and number.\<close>

definition undo_before :: "int \<Rightarrow> nat \<Rightarrow> undo \<Rightarrow> bool" where
  "undo_before idn num u \<longleftrightarrow> un_id u < idn \<or> un_id u = idn \<and> un_num u < num"

definition undo_at :: "int \<Rightarrow> nat \<Rightarrow> undo \<Rightarrow> bool" where
  "undo_at idn num u \<longleftrightarrow> un_id u = idn \<and> un_num u = num"

text \<open>
  \<open>semaoe_upd\<close> is the search and update of the entries of one process: an error, or nothing, and the
  new entries. The value is subtracted from the entry; an entry that becomes 0 is removed.
\<close>

definition semaoe_upd :: "seminfo \<Rightarrow> int \<Rightarrow> int \<Rightarrow> nat \<Rightarrow> undo list \<Rightarrow> errno option \<times> undo list" where
  "semaoe_upd info val idn num ents =
     (let ls = takeWhile (undo_before idn num) ents;
          rs = dropWhile (undo_before idn num) ents
      in
        if rs = [] \<or> \<not> undo_at idn num (hd rs) then
          (if length ents \<ge> semume info then (Some EINVAL, ents)
           else (None, ls @ \<lparr>un_aoe = s16 (- val), un_num = num, un_id = idn\<rparr> # rs))
        else
          let uup = hd rs; aoe = s16 (un_aoe uup - val) in
          if aoe > int (semaem info) \<or> aoe < - int (semaem info)
          then (Some ERANGE, ls @ uup\<lparr>un_aoe := s16 (aoe + val)\<rparr> # tl rs)
          else if aoe = 0 then (None, ls @ tl rs)
          else (None, ls @ uup\<lparr>un_aoe := aoe\<rparr> # tl rs))"

definition semaoe :: "seminfo \<Rightarrow> nat \<Rightarrow> int \<Rightarrow> int \<Rightarrow> nat \<Rightarrow> sem_sys \<Rightarrow> errno option \<times> sem_sys" where
  "semaoe info slot val idn num st =
     (if val = 0 then (None, st)
      else if val > int (semaem info) \<or> val < - int (semaem info) then (Some ERANGE, st)
      else
        case sem_undo_get slot st of
          None \<Rightarrow> (Some ENOSPC, st)
        | Some (up, st) \<Rightarrow>
            (let ents = semu st up;
                 (err, ents') = semaoe_upd info val idn num ents;
                 chain = (if ents = [] \<and> ents' \<noteq> [] then up # semunp st
                          else if ents \<noteq> [] \<and> ents' = [] then remove1 up (semunp st)
                          else semunp st)
             in (err, st\<lparr>semu := (semu st)(up := ents'), semunp := chain\<rparr>)))"

fun semunrm_ents :: "int \<Rightarrow> nat \<Rightarrow> nat \<Rightarrow> undo list \<Rightarrow> undo list" where
  "semunrm_ents idn low high [] = []"
| "semunrm_ents idn low high (u # us) =
     (if idn < un_id u then u # us
      else if idn > un_id u \<or> low > un_num u then u # semunrm_ents idn low high us
      else if high < un_num u then u # us
      else semunrm_ents idn low high us)"

fun semunrm_chain :: "int \<Rightarrow> nat \<Rightarrow> nat \<Rightarrow> nat list \<Rightarrow> (nat \<Rightarrow> undo list) \<Rightarrow> nat list \<times> (nat \<Rightarrow> undo list)"
where
  "semunrm_chain idn low high [] ents = ([], ents)"
| "semunrm_chain idn low high (p # ps) ents =
     (let es = semunrm_ents idn low high (ents p);
          (ps', ents') = semunrm_chain idn low high ps (ents(p := es))
      in (if es = [] then ps' else p # ps', ents'))"

definition semunrm :: "int \<Rightarrow> nat \<Rightarrow> nat \<Rightarrow> sem_sys \<Rightarrow> sem_sys" where
  "semunrm idn low high st =
     (let (chain, ents) = semunrm_chain idn low high (semunp st) (semu st)
      in st\<lparr>semunp := chain, semu := ents\<rparr>)"

text \<open>\<open>semundo\<close> runs over the operations already done, last one first.\<close>

fun semundo_rev :: "seminfo \<Rightarrow> nat \<Rightarrow> int \<Rightarrow> nat \<Rightarrow> sembuf list \<Rightarrow> sem_sys \<Rightarrow> sem_sys" where
  "semundo_rev info slot idn base [] st = st"
| "semundo_rev info slot idn base (op # ops) st =
     (if sem_op op = 0 then semundo_rev info slot idn base ops st
      else
        let st1 = upd_sem (base + sem_num op)
                    (\<lambda>s. s\<lparr>semval := u16 (int (semval s) - sem_op op)\<rparr>) st;
            st2 = (if op_undo op then snd (semaoe info slot (s16 (- sem_op op)) idn (sem_num op) st1)
                   else st1)
        in semundo_rev info slot idn base ops st2)"

definition semundo :: "seminfo \<Rightarrow> nat \<Rightarrow> int \<Rightarrow> nat \<Rightarrow> sembuf list \<Rightarrow> sem_sys \<Rightarrow> sem_sys" where
  "semundo info slot idn base done_ops st = semundo_rev info slot idn base (rev done_ops) st"

section \<open>Identifiers\<close>

definition sem_index :: "int \<Rightarrow> nat" where
  "sem_index s = nat (s AND 0xffff)"

definition sem_sequ :: "int \<Rightarrow> nat" where
  "sem_sequ s = nat (drop_bit 16 s AND 0x7fff)"

definition sem_mkid :: "nat \<Rightarrow> nat \<Rightarrow> int" where
  "sem_mkid sq i = push_bit 16 (int sq) + int i"

definition semconv_lock :: "sem_sys \<Rightarrow> int \<Rightarrow> nat option" where
  "semconv_lock st s =
     (if length (sema st) \<le> sem_index s then None
      else
        let sp = sema st ! sem_index s in
        if \<not> ipc_allocd (sem_perm sp) \<or> sem_sequ s \<noteq> ipc_seq (sem_perm sp) then None
        else Some (sem_index s))"

definition semconv :: "sem_sys \<Rightarrow> int \<Rightarrow> errno option" where
  "semconv st s =
     (if length (sema st) \<le> sem_index s then Some EINVAL
      else
        let sp = sema st ! sem_index s in
        if \<not> ipc_allocd (sem_perm sp) \<or> sem_sequ s \<noteq> ipc_seq (sem_perm sp) then Some EINVAL
        else None)"

section \<open>semctl\<close>

text \<open>
  The commands of \<open>semctl\<close> with their argument as read from user memory, and what it hands back.
  \<open>GETALL\<close> copies the values out one by one; its argument says which copies succeed.
\<close>

datatype sem_cmd =
    SemRMID
  | SemSET "(int \<times> int \<times> 32 word) option"
  | SemOSET "(nat \<times> nat \<times> 32 word) option"
  | SemOSTAT bool
  | SemSTAT bool
  | GETNCNT | GETPID | GETVAL
  | GETALL "nat \<Rightarrow> bool"
  | GETZCNT
  | SETVAL int
  | SETALL "nat list option"
  | SemBADCMD

record o_semid_ds =
  os_uid :: nat
  os_gid :: nat
  os_cuid :: nat
  os_cgid :: nat
  os_mode :: nat
  os_seq :: nat
  os_key :: int
  os_nsems :: nat
  os_otime :: int
  os_ctime :: int

datatype sem_out = OutInt int | OutVals "nat list" | OutDs semid_ds | OutOds o_semid_ds

type_synonym semctl_res = "((errno + sem_out) \<times> bool \<times> sem_sys) kres"

text \<open>The owner, the creator or the super-user; the second value is the accounting flag.\<close>

definition sem_owner :: "ipc_perm \<Rightarrow> cred \<Rightarrow> bool \<Rightarrow> bool \<times> bool" where
  "sem_owner p cr asu =
     (if cr_uid cr \<noteq> ipc_uid p \<and> cr_uid cr \<noteq> ipc_cuid p then suser cr asu else (True, asu))"

definition sem_wake_n :: "nat \<Rightarrow> sem_sys \<Rightarrow> sem_sys" where
  "sem_wake_n k st =
     (if semncnt (sem_arr st ! k) \<noteq> 0
      then log_wake (BcastN k) (upd_sem k (\<lambda>s. s\<lparr>semncnt := 0\<rparr>) st) else st)"

definition sem_wake_z :: "nat \<Rightarrow> sem_sys \<Rightarrow> sem_sys" where
  "sem_wake_z k st =
     (if semzcnt (sem_arr st ! k) \<noteq> 0
      then log_wake (BcastZ k) (upd_sem k (\<lambda>s. s\<lparr>semzcnt := 0\<rparr>) st) else st)"

definition sem_clear :: "nat \<Rightarrow> sem_sys \<Rightarrow> sem_sys" where
  "sem_clear k st = sem_wake_z k (sem_wake_n k (upd_sem k (\<lambda>s. s\<lparr>semval := 0, sempid := 0\<rparr>) st))"

definition sem_next_seq :: "int \<Rightarrow> nat \<Rightarrow> nat" where
  "sem_next_seq semid sq = (if sem_sequ semid = 0x7fff then 0 else sq + 1)"

definition semctl_rmid :: "int \<Rightarrow> nat \<Rightarrow> cred \<Rightarrow> bool \<Rightarrow> sem_sys \<Rightarrow> semctl_res" where
  "semctl_rmid semid i cr asu st =
     (let sp = sema st ! i; (okay, asu) = sem_owner (sem_perm sp) cr asu in
      if \<not> okay then Inr (Inl EPERM, asu, st)
      else
        let st1 = semunrm semid 0 (sem_nsems sp) st;
            st2 = fold sem_clear [sem_base sp ..< sem_base sp + sem_nsems sp] st1
        in
          case rmfree (semmap st2) (sem_nsems sp) (sem_base sp + 1) of
            Inl f \<Rightarrow> Inl f
          | Inr (_, mp) \<Rightarrow>
              Inr (Inr (OutInt 0), asu,
                upd_set i (\<lambda>sp. sp\<lparr>sem_perm := (sem_perm sp)\<lparr>ipc_seq := sem_next_seq semid (ipc_seq (sem_perm sp)),
                                                           ipc_mode := 0\<rparr>\<rparr>)
                  (st2\<lparr>semmap := mp\<rparr>)))"

definition sem_set_perm :: "nat \<Rightarrow> int \<Rightarrow> int \<Rightarrow> 32 word \<Rightarrow> int \<Rightarrow> sem_sys \<Rightarrow> sem_sys" where
  "sem_set_perm i uid gid mode now =
     upd_set i (\<lambda>sp. sp\<lparr>sem_perm := (sem_perm sp)\<lparr>ipc_uid := uid, ipc_gid := gid,
                                                 ipc_mode := (mode AND mode777) OR IPC_ALLOC\<rparr>,
                        sem_ctime := now\<rparr>)"

definition semctl_set :: "int \<Rightarrow> nat \<Rightarrow> cred \<Rightarrow> bool \<Rightarrow> (int \<times> int \<times> 32 word) option \<Rightarrow> sem_sys \<Rightarrow> semctl_res" where
  "semctl_set now i cr asu arg st =
     (let (okay, asu) = sem_owner (sem_perm (sema st ! i)) cr asu in
      if \<not> okay then Inr (Inl EPERM, asu, st)
      else
        case arg of
          None \<Rightarrow> Inr (Inl EFAULT, asu, st)
        | Some (uid, gid, mode) \<Rightarrow>
            if uid < 0 \<or> uid > 2147483647 \<or> gid < 0 \<or> gid > 2147483647 then Inr (Inl EINVAL, asu, st)
            else Inr (Inr (OutInt 0), asu, sem_set_perm i uid gid mode now st))"

definition semctl_oset :: "int \<Rightarrow> nat \<Rightarrow> cred \<Rightarrow> bool \<Rightarrow> (nat \<times> nat \<times> 32 word) option \<Rightarrow> sem_sys \<Rightarrow> semctl_res" where
  "semctl_oset now i cr asu arg st =
     (let (okay, asu) = sem_owner (sem_perm (sema st ! i)) cr asu in
      if \<not> okay then Inr (Inl EPERM, asu, st)
      else
        case arg of
          None \<Rightarrow> Inr (Inl EFAULT, asu, st)
        | Some (uid, gid, mode) \<Rightarrow>
            if uid > 2147483647 \<or> gid > 2147483647 then Inr (Inl EINVAL, asu, st)
            else Inr (Inr (OutInt 0), asu, sem_set_perm i (int uid) (int gid) mode now st))"

text \<open>\<^verbatim>\<open>(unsigned)x > USHRT_MAX\<close> on a signed field.\<close>

definition over_ushort :: "int \<Rightarrow> bool" where
  "over_ushort x \<longleftrightarrow> x mod 2 ^ 32 > 65535"

definition semctl_ostat :: "nat \<Rightarrow> cred \<Rightarrow> bool \<Rightarrow> bool \<Rightarrow> sem_sys \<Rightarrow> semctl_res" where
  "semctl_ostat i cr asu copy_ok st =
     (let sp = sema st ! i; p = sem_perm sp in
      case ipcaccess p SEM_R cr of
        Some e \<Rightarrow> Inr (Inl e, asu, st)
      | None \<Rightarrow>
          if over_ushort (ipc_uid p) \<or> over_ushort (ipc_gid p) \<or> over_ushort (ipc_cuid p)
             \<or> over_ushort (ipc_cgid p) \<or> over_ushort (int (ipc_seq p))
          then Inr (Inl EOVERFLOW, asu, st)
          else if \<not> copy_ok then Inr (Inl EFAULT, asu, st)
          else
            Inr (Inr (OutOds \<lparr>os_uid = u16 (ipc_uid p), os_gid = u16 (ipc_gid p),
                   os_cuid = u16 (ipc_cuid p), os_cgid = u16 (ipc_cgid p),
                   os_mode = u16 (uint (ipc_mode p)), os_seq = u16 (int (ipc_seq p)),
                   os_key = ipc_key p, os_nsems = sem_nsems sp,
                   os_otime = sem_otime sp, os_ctime = sem_ctime sp\<rparr>), asu, st))"

definition semctl_stat :: "nat \<Rightarrow> cred \<Rightarrow> bool \<Rightarrow> bool \<Rightarrow> sem_sys \<Rightarrow> semctl_res" where
  "semctl_stat i cr asu copy_ok st =
     (case ipcaccess (sem_perm (sema st ! i)) SEM_R cr of
        Some e \<Rightarrow> Inr (Inl e, asu, st)
      | None \<Rightarrow>
          if \<not> copy_ok then Inr (Inl EFAULT, asu, st)
          else Inr (Inr (OutDs (sema st ! i)), asu, st))"

text \<open>\<^verbatim>\<open>GETNCNT\<close>, \<^verbatim>\<open>GETPID\<close>, \<^verbatim>\<open>GETVAL\<close> and \<^verbatim>\<open>GETZCNT\<close> differ in the field they read.\<close>

definition semctl_get :: "(sem_ent \<Rightarrow> int) \<Rightarrow> nat \<Rightarrow> nat \<Rightarrow> cred \<Rightarrow> bool \<Rightarrow> sem_sys \<Rightarrow> semctl_res" where
  "semctl_get field i semnum cr asu st =
     (let sp = sema st ! i in
      case ipcaccess (sem_perm sp) SEM_R cr of
        Some e \<Rightarrow> Inr (Inl e, asu, st)
      | None \<Rightarrow>
          if semnum \<ge> sem_nsems sp then Inr (Inl EINVAL, asu, st)
          else Inr (Inr (OutInt (field (sem_arr st ! (sem_base sp + semnum)))), asu, st))"

definition semctl_getall :: "nat \<Rightarrow> cred \<Rightarrow> bool \<Rightarrow> (nat \<Rightarrow> bool) \<Rightarrow> sem_sys \<Rightarrow> semctl_res" where
  "semctl_getall i cr asu copy_ok st =
     (let sp = sema st ! i in
      case ipcaccess (sem_perm sp) SEM_R cr of
        Some e \<Rightarrow> Inr (Inl e, asu, st)
      | None \<Rightarrow>
          if list_all copy_ok [0 ..< sem_nsems sp]
          then Inr (Inr (OutVals (map (\<lambda>k. semval (sem_arr st ! (sem_base sp + k))) [0 ..< sem_nsems sp])), asu, st)
          else Inr (Inl EFAULT, asu, st))"

text \<open>Storing a value wakes the sleepers it may satisfy.\<close>

definition sem_store :: "nat \<Rightarrow> nat \<Rightarrow> sem_sys \<Rightarrow> sem_sys" where
  "sem_store k val st =
     (let st1 = upd_sem k (\<lambda>s. s\<lparr>semval := val\<rparr>) st
      in if val \<noteq> 0 then sem_wake_n k st1 else sem_wake_z k st1)"

definition semctl_setval :: "seminfo \<Rightarrow> int \<Rightarrow> int \<Rightarrow> nat \<Rightarrow> nat \<Rightarrow> cred \<Rightarrow> bool \<Rightarrow> int \<Rightarrow> sem_sys \<Rightarrow> semctl_res" where
  "semctl_setval info pid semid i semnum cr asu arg st =
     (let sp = sema st ! i; k = sem_base sp + semnum in
      case ipcaccess (sem_perm sp) SEM_A cr of
        Some e \<Rightarrow> Inr (Inl e, asu, st)
      | None \<Rightarrow>
          if semnum \<ge> sem_nsems sp then Inr (Inl EINVAL, asu, st)
          else if arg mod 2 ^ 32 > int (semvmx info) then Inr (Inl ERANGE, asu, st)
          else
            Inr (Inr (OutInt 0), asu,
              semunrm semid semnum semnum
                (upd_sem k (\<lambda>s. s\<lparr>sempid := pid\<rparr>) (sem_store k (u16 arg) st))))"

fun sem_store_all :: "int \<Rightarrow> nat \<Rightarrow> nat list \<Rightarrow> sem_sys \<Rightarrow> sem_sys" where
  "sem_store_all pid k [] st = st"
| "sem_store_all pid k (v # vs) st =
     sem_store_all pid (Suc k) vs (upd_sem k (\<lambda>s. s\<lparr>sempid := pid\<rparr>) (sem_store k v st))"

definition semctl_setall :: "seminfo \<Rightarrow> int \<Rightarrow> int \<Rightarrow> nat \<Rightarrow> cred \<Rightarrow> bool \<Rightarrow> nat list option \<Rightarrow> sem_sys \<Rightarrow> semctl_res" where
  "semctl_setall info pid semid i cr asu arg st =
     (let sp = sema st ! i in
      case ipcaccess (sem_perm sp) SEM_A cr of
        Some e \<Rightarrow> Inr (Inl e, asu, st)
      | None \<Rightarrow>
          case arg of
            None \<Rightarrow> Inr (Inl EFAULT, asu, st)
          | Some vals \<Rightarrow>
              if list_ex (\<lambda>v. v > semvmx info) (take (sem_nsems sp) vals) then Inr (Inl ERANGE, asu, st)
              else
                Inr (Inr (OutInt 0), asu,
                  sem_store_all pid (sem_base sp) (take (sem_nsems sp) vals)
                    (semunrm semid 0 (sem_nsems sp) st)))"

definition semctl ::
  "seminfo \<Rightarrow> int \<Rightarrow> int \<Rightarrow> cred \<Rightarrow> bool \<Rightarrow> int \<Rightarrow> nat \<Rightarrow> sem_cmd \<Rightarrow> sem_sys \<Rightarrow> semctl_res"
where
  "semctl info now pid cr asu semid semnum cmd st =
     (case semconv_lock st semid of
        None \<Rightarrow> Inr (Inl EINVAL, asu, st)
      | Some i \<Rightarrow>
          (case cmd of
             SemRMID \<Rightarrow> semctl_rmid semid i cr asu st
           | SemSET arg \<Rightarrow> semctl_set now i cr asu arg st
           | SemOSET arg \<Rightarrow> semctl_oset now i cr asu arg st
           | SemOSTAT copy_ok \<Rightarrow> semctl_ostat i cr asu copy_ok st
           | SemSTAT copy_ok \<Rightarrow> semctl_stat i cr asu copy_ok st
           | GETNCNT \<Rightarrow> semctl_get (int \<circ> semncnt) i semnum cr asu st
           | GETPID \<Rightarrow> semctl_get sempid i semnum cr asu st
           | GETVAL \<Rightarrow> semctl_get (int \<circ> semval) i semnum cr asu st
           | GETALL copy_ok \<Rightarrow> semctl_getall i cr asu copy_ok st
           | GETZCNT \<Rightarrow> semctl_get (int \<circ> semzcnt) i semnum cr asu st
           | SETVAL arg \<Rightarrow> semctl_setval info pid semid i semnum cr asu arg st
           | SETALL arg \<Rightarrow> semctl_setall info pid semid i cr asu arg st
           | SemBADCMD \<Rightarrow> Inr (Inl EINVAL, asu, st)))"

section \<open>Process exit\<close>

text \<open>One entry of the undo structure of an exiting process.\<close>

definition semexit_ent :: "seminfo \<Rightarrow> undo \<Rightarrow> sem_sys \<Rightarrow> sem_sys" where
  "semexit_ent info u st =
     (case semconv_lock st (un_id u) of
        None \<Rightarrow> st
      | Some i \<Rightarrow>
          let k = sem_base (sema st ! i) + un_num u;
              v = int (semval (sem_arr st ! k)) + un_aoe u
          in
            if v < 0 \<or> v > int (semvmx info) then st
            else
              let st1 = upd_sem k (\<lambda>s. s\<lparr>semval := u16 v\<rparr>) st;
                  st2 = (if v = 0 then sem_wake_z k st1 else st1)
              in (if un_aoe u > 0 then sem_wake_n k st2 else st2))"

definition semexit :: "seminfo \<Rightarrow> nat \<Rightarrow> sem_sys \<Rightarrow> sem_sys" where
  "semexit info slot st =
     (case sem_undo st slot of
        None \<Rightarrow> st
      | Some up \<Rightarrow>
          if semu st up = [] then
            st\<lparr>semfup := up # semfup st, sem_undo := (sem_undo st)(slot := None)\<rparr>
          else
            let st1 = fold (semexit_ent info) (rev (semu st up)) st
            in st1\<lparr>semu := (semu st1)(up := []), semunp := remove1 up (semunp st1),
                   semfup := up # semfup st1, sem_undo := (sem_undo st1)(slot := None)\<rparr>)"

section \<open>semget\<close>

definition semget ::
  "seminfo \<Rightarrow> int \<Rightarrow> cred \<Rightarrow> int \<Rightarrow> int \<Rightarrow> 32 word \<Rightarrow> sem_sys \<Rightarrow> (errno + int) \<times> sem_sys"
where
  "semget info now cr key nsems semflg st =
     (case ipcget key semflg cr (sem_perms st) of
        Inl e \<Rightarrow> (Inl e, st)
      | Inr (new, i, p) \<Rightarrow>
          if new then
            (let st1 = upd_set i (\<lambda>sp. sp\<lparr>sem_perm := p\<rparr>) st;
                 unset = upd_set i (\<lambda>sp. sp\<lparr>sem_perm := p\<lparr>ipc_mode := 0\<rparr>\<rparr>) st
             in
               if nsems \<le> 0 \<or> nsems > int (semmsl info) then (Inl EINVAL, unset)
               else
                 (let (a, mp) = rmalloc (semmap st1) (nat nsems) in
                  if a = 0 then (Inl ENOSPC, unset\<lparr>semmap := mp\<rparr>)
                  else
                    (Inr (sem_mkid (ipc_seq p) i),
                     upd_set i (\<lambda>sp. sp\<lparr>sem_base := a - 1, sem_binary := True,
                                        sem_nsems := u16 nsems, sem_ctime := now, sem_otime := 0\<rparr>)
                       (st1\<lparr>semmap := mp\<rparr>))))
          else if nsems \<noteq> 0 \<and> int (sem_nsems (sema st ! i)) < nsems mod 2 ^ 32 then (Inl EINVAL, st)
          else (Inr (sem_mkid (ipc_seq p) i), st))"

section \<open>semop\<close>

datatype sem_outcome = SemDone | SemErr errno | SemWaitN nat | SemWaitZ nat

fun semop_verify :: "semid_ds \<Rightarrow> cred \<Rightarrow> sembuf list \<Rightarrow> errno option" where
  "semop_verify sp cr [] = None"
| "semop_verify sp cr (op # ops) =
     (case ipcaccess (sem_perm sp) (if sem_op op \<noteq> 0 then SEM_A else SEM_R) cr of
        Some e \<Rightarrow> Some e
      | None \<Rightarrow> if sem_num op \<ge> sem_nsems sp then Some EFBIG else semop_verify sp cr ops)"

text \<open>The wake-ups after an increment.\<close>

definition semop_v_wake :: "bool \<Rightarrow> nat \<Rightarrow> sem_sys \<Rightarrow> sem_sys" where
  "semop_v_wake signal k st =
     (let st1 =
        (if semncnt (sem_arr st ! k) \<noteq> 0 then
           (if signal then log_wake (SignalN k) (upd_sem k (\<lambda>s. s\<lparr>semncnt := semncnt s - 1\<rparr>) st)
            else log_wake (BcastN k) (upd_sem k (\<lambda>s. s\<lparr>semncnt := 0\<rparr>) st))
         else st)
      in
        if semzcnt (sem_arr st1 ! k) \<noteq> 0 \<and> semval (sem_arr st1 ! k) = 0 then
          (if signal then log_wake (SignalZ k) (upd_sem k (\<lambda>s. s\<lparr>semzcnt := semzcnt s - 1\<rparr>) st1)
           else log_wake (BcastZ k) (upd_sem k (\<lambda>s. s\<lparr>semzcnt := 0\<rparr>) st1))
        else st1)"

definition sem_add :: "nat \<Rightarrow> int \<Rightarrow> sem_sys \<Rightarrow> sem_sys" where
  "sem_add k d st = upd_sem k (\<lambda>s. s\<lparr>semval := u16 (int (semval s) + d)\<rparr>) st"

text \<open>The undo entry of an operation, where it asks for one.\<close>

definition semop_aoe :: "seminfo \<Rightarrow> nat \<Rightarrow> int \<Rightarrow> sembuf \<Rightarrow> sem_sys \<Rightarrow> errno option \<times> sem_sys" where
  "semop_aoe info slot semid op st =
     (if op_undo op then semaoe info slot (sem_op op) semid (sem_num op) st else (None, st))"

text \<open>
  One pass over the operations: \<open>done_ops\<close> are those already carried out, in order.
\<close>

fun semop_loop ::
  "seminfo \<Rightarrow> nat \<Rightarrow> int \<Rightarrow> nat \<Rightarrow> bool \<Rightarrow> sembuf list \<Rightarrow> sembuf list \<Rightarrow> sem_sys \<Rightarrow> sem_outcome \<times> sem_sys"
where
  "semop_loop info slot semid i binary done_ops [] st = (SemDone, st)"
| "semop_loop info slot semid i binary done_ops (op # ops) st =
     (let base = sem_base (sema st ! i); k = base + sem_num op; v = int (semval (sem_arr st ! k)) in
      if sem_op op > 0 then
        (if sem_op op + v > int (semvmx info) then (SemErr ERANGE, semundo info slot semid base done_ops st)
         else
           case semop_aoe info slot semid op st of
             (Some e, st1) \<Rightarrow> (SemErr e, semundo info slot semid base done_ops st1)
           | (None, st1) \<Rightarrow>
               semop_loop info slot semid i binary (done_ops @ [op]) ops
                 (semop_v_wake (sem_op op = 1 \<and> binary) k (sem_add k (sem_op op) st1)))
      else if sem_op op < 0 then
        (if v \<ge> - sem_op op then
           case semop_aoe info slot semid op st of
             (Some e, st1) \<Rightarrow> (SemErr e, semundo info slot semid base done_ops st1)
           | (None, st1) \<Rightarrow>
               let st2 = sem_add k (sem_op op) st1 in
               semop_loop info slot semid i binary (done_ops @ [op]) ops
                 (if semval (sem_arr st2 ! k) = 0 then sem_wake_z k st2 else st2)
         else
           let st1 = semundo info slot semid base done_ops st in
           if op_nowait op then (SemErr EAGAIN, st1)
           else
             let st2 = upd_sem k (\<lambda>s. s\<lparr>semncnt := u16 (int (semncnt s) + 1)\<rparr>) st1 in
             (SemWaitN k,
              if sem_op op < -1 then upd_set i (\<lambda>sp. sp\<lparr>sem_binary := False\<rparr>) st2 else st2))
      else if v \<noteq> 0 then
        (let st1 = semundo info slot semid base done_ops st in
         if op_nowait op then (SemErr EAGAIN, st1)
         else (SemWaitZ k, upd_sem k (\<lambda>s. s\<lparr>semzcnt := u16 (int (semzcnt s) + 1)\<rparr>) st1))
      else semop_loop info slot semid i binary (done_ops @ [op]) ops st)"

text \<open>All operations succeeded: the process is recorded in the semaphores.\<close>

definition semop_finish :: "int \<Rightarrow> int \<Rightarrow> nat \<Rightarrow> sembuf list \<Rightarrow> sem_sys \<Rightarrow> sem_sys" where
  "semop_finish pid now i ops st =
     upd_set i (\<lambda>sp. sp\<lparr>sem_otime := now\<rparr>)
       (fold (\<lambda>op. upd_sem (sem_base (sema st ! i) + sem_num op) (\<lambda>s. s\<lparr>sempid := pid\<rparr>)) ops st)"

text \<open>
  The loop around the passes. Each element of the list of sleeps says whether a signal ends the
  sleep and what the rest of the system does to the state meanwhile; \<open>Asleep\<close> is a process still
  waiting when the list is used up.
\<close>

datatype sem_ret = Returned "errno option" | Asleep

definition sem_intr_n :: "nat \<Rightarrow> sem_sys \<Rightarrow> sem_sys" where
  "sem_intr_n k st =
     (if semncnt (sem_arr st ! k) \<le> 1
      then log_wake (BcastN k) (upd_sem k (\<lambda>s. s\<lparr>semncnt := 0\<rparr>) st)
      else upd_sem k (\<lambda>s. s\<lparr>semncnt := semncnt s - 1\<rparr>) st)"

definition sem_intr_z :: "nat \<Rightarrow> sem_sys \<Rightarrow> sem_sys" where
  "sem_intr_z k st =
     (if semzcnt (sem_arr st ! k) \<le> 1
      then log_wake (BcastZ k) (upd_sem k (\<lambda>s. s\<lparr>semzcnt := 0\<rparr>) st)
      else upd_sem k (\<lambda>s. s\<lparr>semzcnt := semzcnt s - 1\<rparr>) st)"

fun semop_check ::
  "seminfo \<Rightarrow> nat \<Rightarrow> int \<Rightarrow> int \<Rightarrow> int \<Rightarrow> nat \<Rightarrow> sembuf list \<Rightarrow> bool
   \<Rightarrow> (bool \<times> (sem_sys \<Rightarrow> sem_sys)) list \<Rightarrow> sem_sys \<Rightarrow> sem_ret \<times> sem_sys"
where
  "semop_check info slot pid now semid i ops again sleeps st =
     (if again \<and> semconv st semid \<noteq> None then (Returned (Some EIDRM), st)
      else
        let sp = sema st ! i;
            (out, st1) = semop_loop info slot semid i (sem_binary sp \<and> sem_nsems sp = 1) [] ops st
        in
          case out of
            SemDone \<Rightarrow> (Returned None, semop_finish pid now i ops st1)
          | SemErr e \<Rightarrow> (Returned (Some e), st1)
          | SemWaitN k \<Rightarrow>
              (case sleeps of
                 [] \<Rightarrow> (Asleep, st1)
               | (intr, env) # sleeps' \<Rightarrow>
                   if intr then (Returned (Some EINTR), sem_intr_n k (env st1))
                   else semop_check info slot pid now semid i ops True sleeps' (env st1))
          | SemWaitZ k \<Rightarrow>
              (case sleeps of
                 [] \<Rightarrow> (Asleep, st1)
               | (intr, env) # sleeps' \<Rightarrow>
                   if intr then (Returned (Some EINTR), sem_intr_z k (env st1))
                   else semop_check info slot pid now semid i ops True sleeps' (env st1)))"

declare semop_check.simps [simp del]

text \<open>\<open>sops\<close> are the operations as copied from the user, \<open>None\<close> on a fault.\<close>

definition semop ::
  "seminfo \<Rightarrow> nat \<Rightarrow> int \<Rightarrow> int \<Rightarrow> cred \<Rightarrow> int \<Rightarrow> nat \<Rightarrow> sembuf list option
   \<Rightarrow> (bool \<times> (sem_sys \<Rightarrow> sem_sys)) list \<Rightarrow> sem_sys \<Rightarrow> sem_ret \<times> sem_sys"
where
  "semop info slot pid now cr semid nsops sops sleeps st =
     (if nsops > semopm info then (Returned (Some E2BIG), st)
      else if nsops = 0 then (Returned None, st)
      else
        case sops of
          None \<Rightarrow> (Returned (Some EFAULT), st)
        | Some ops \<Rightarrow>
            (case semconv_lock st semid of
               None \<Rightarrow> (Returned (Some EINVAL), st)
             | Some i \<Rightarrow>
                 (case semop_verify (sema st ! i) cr ops of
                    Some e \<Rightarrow> (Returned (Some e), st)
                  | None \<Rightarrow> semop_check info slot pid now semid i ops False sleeps st)))"

section \<open>The system call entry\<close>

text \<open>
  \<open>semsys\<close> dispatches on the operation code; the arguments are given decoded. Its result is
  \<open>None\<close> for a process left asleep.
\<close>

datatype sem_call =
    SEMCTL int nat sem_cmd
  | SEMGET int int "32 word"
  | SEMOP int nat "sembuf list option"
  | SEMBAD

definition semsys ::
  "seminfo \<Rightarrow> int \<Rightarrow> int \<Rightarrow> nat \<Rightarrow> cred \<Rightarrow> bool \<Rightarrow> (bool \<times> (sem_sys \<Rightarrow> sem_sys)) list \<Rightarrow> sem_call \<Rightarrow> sem_sys
   \<Rightarrow> ((errno + sem_out) option \<times> bool \<times> sem_sys) kres"
where
  "semsys info now pid slot cr asu sleeps call st =
     (case call of
        SEMCTL semid semnum cmd \<Rightarrow>
          (case semctl info now pid cr asu semid semnum cmd st of
             Inl f \<Rightarrow> Inl f
           | Inr (res, asu, st) \<Rightarrow> Inr (Some res, asu, st))
      | SEMGET key nsems semflg \<Rightarrow>
          (case semget info now cr key nsems semflg st of
             (Inl e, st) \<Rightarrow> Inr (Some (Inl e), asu, st)
           | (Inr semid, st) \<Rightarrow> Inr (Some (Inr (OutInt semid)), asu, st))
      | SEMOP semid nsops sops \<Rightarrow>
          (case semop info slot pid now cr semid nsops sops sleeps st of
             (Returned None, st) \<Rightarrow> Inr (Some (Inr (OutInt 0)), asu, st)
           | (Returned (Some e), st) \<Rightarrow> Inr (Some (Inl e), asu, st)
           | (Asleep, st) \<Rightarrow> Inr (None, asu, st))
      | SEMBAD \<Rightarrow> Inr (Some (Inl EINVAL), asu, st))"

section \<open>Loading the module\<close>

text \<open>
  \<open>sem_init\<close> is the module's \<^verbatim>\<open>_init\<close>: it takes the tunable limits, the number of slots of the
  resource map, the size of the process table, the memory available, whether the map can be
  allocated, and the result of \<^verbatim>\<open>mod_install\<close> (\<open>None\<close> for success). The sizes are those of the
  structures: 16 bytes for a semaphore, 84 for a set, 8 for a lock, 4 for a pointer, 16 for an undo
  structure and 8 for an undo entry.
\<close>

definition sem_zero :: sem_ent where
  "sem_zero = \<lparr>semval = 0, sempid = 0, semncnt = 0, semzcnt = 0\<rparr>"

definition semid_zero :: semid_ds where
  "semid_zero =
     \<lparr>sem_perm = \<lparr>ipc_uid = 0, ipc_gid = 0, ipc_cuid = 0, ipc_cgid = 0, ipc_mode = 0, ipc_seq = 0, ipc_key = 0\<rparr>,
      sem_base = 0, sem_nsems = 0, sem_otime = 0, sem_ctime = 0, sem_binary = False\<rparr>"

definition SEMA_INDEX_MAX :: nat where "SEMA_INDEX_MAX = 0xffff"

definition sem_memory :: "seminfo \<Rightarrow> nat \<Rightarrow> nat" where
  "sem_memory info v_proc =
     semmns info * 16 + semmni info * 84 + semmni info * 8 + v_proc * 4
     + (((16 + semume info * 8) * semmnu info + 3) div 4) * 4"

definition sem_init ::
  "seminfo \<Rightarrow> nat \<Rightarrow> nat \<Rightarrow> nat \<Rightarrow> bool \<Rightarrow> errno option \<Rightarrow> (errno + seminfo \<times> sem_sys) kres"
where
  "sem_init tune mapsz v_proc maxavail map_ok installed =
     (let info = (if semmni tune > SEMA_INDEX_MAX then tune\<lparr>semmni := SEMA_INDEX_MAX\<rparr> else tune) in
      if sem_memory info v_proc > maxavail div 4 then Inr (Inl ENOMEM)
      else
        case rmallocmap map_ok mapsz of
          Inl f \<Rightarrow> Inl f
        | Inr None \<Rightarrow> Inr (Inl ENOMEM)
        | Inr (Some mp) \<Rightarrow>
            (case rmfree mp (semmns info) 1 of
               Inl f \<Rightarrow> Inl f
             | Inr (_, mp) \<Rightarrow>
                 if semmnu info = 0 then Inl (Wild ''semfup'')
                 else
                   case installed of
                     Some e \<Rightarrow> Inr (Inl e)
                   | None \<Rightarrow>
                       Inr (Inr (info,
                         \<lparr>sema = replicate (semmni info) semid_zero, sem_arr = replicate (semmns info) sem_zero,
                          semmap = mp, sem_undo = (\<lambda>_. None), semu = (\<lambda>_. []), semunp = [],
                          semfup = [0 ..< semmnu info], sem_wakes = []\<rparr>))))"

end
