(* ===== verification/Sem_Undo.thy ===== *)
theory Sem_Undo
  imports Sem
begin

text \<open>
  The undo structures of the semaphore module: the order and the bounds of the entries of a
  process, what \<open>semaoe\<close> does to them, and that calling it with the opposite value takes the
  change restore. \<open>undo_inv\<close> is the invariant of the pool of structures and its two chains.
\<close>

lemma s16_shift: "2 ^ 15 \<le> x \<Longrightarrow> x < 2 ^ 16 + 2 ^ 15 \<Longrightarrow> s16 x = x - 2 ^ 16"
  "x < - (2 ^ 15) \<Longrightarrow> - (2 ^ 16) - 2 ^ 15 \<le> x \<Longrightarrow> s16 x = x + 2 ^ 16"
proof -
  have "(x + 2 ^ 15 - 2 ^ 16) mod 2 ^ 16 = (x + 2 ^ 15) mod 2 ^ 16"
    "(x + 2 ^ 15 + 2 ^ 16) mod 2 ^ 16 = (x + 2 ^ 15) mod 2 ^ 16"
    by (simp_all only: minus_mod_self2 mod_add_self2)
  then show "2 ^ 15 \<le> x \<Longrightarrow> x < 2 ^ 16 + 2 ^ 15 \<Longrightarrow> s16 x = x - 2 ^ 16"
    "x < - (2 ^ 15) \<Longrightarrow> - (2 ^ 16) - 2 ^ 15 \<le> x \<Longrightarrow> s16 x = x + 2 ^ 16"
    unfolding s16_def by simp_all
qed

lemma s16_exact:
  assumes "\<bar>a\<bar> \<le> int m" "\<bar>v\<bar> \<le> int m" "3 * m < 2 ^ 16" "\<bar>s16 (a - v)\<bar> \<le> int m"
  shows "s16 (a - v) = a - v"
proof -
  consider "2 ^ 15 \<le> a - v" | "a - v < - (2 ^ 15)" | "- (2 ^ 15) \<le> a - v" "a - v < 2 ^ 15" by linarith
  then show ?thesis
  proof cases
    case 1
    then show ?thesis using s16_shift(1) [of "a - v"] assms by auto
  next
    case 2
    then show ?thesis using s16_shift(2) [of "a - v"] assms by auto
  qed simp
qed

section \<open>The entries of one process\<close>

definition undo_after :: "int \<Rightarrow> nat \<Rightarrow> undo \<Rightarrow> bool" where
  "undo_after idn num u \<longleftrightarrow> idn < un_id u \<or> idn = un_id u \<and> num < un_num u"

definition undo_lt :: "undo \<Rightarrow> undo \<Rightarrow> bool" where
  "undo_lt u v \<longleftrightarrow> undo_before (un_id v) (un_num v) u"

definition ents_ok :: "seminfo \<Rightarrow> undo list \<Rightarrow> bool" where
  "ents_ok info ents \<longleftrightarrow>
     sorted_wrt undo_lt ents \<and> length ents \<le> semume info
   \<and> (\<forall>u \<in> set ents. un_aoe u \<noteq> 0 \<and> \<bar>un_aoe u\<bar> \<le> int (semaem info))"

text \<open>The adjustment recorded for one semaphore.\<close>

definition undo_sum :: "undo list \<Rightarrow> int \<Rightarrow> nat \<Rightarrow> int" where
  "undo_sum ents idn num = sum_list (map un_aoe (filter (undo_at idn num) ents))"

lemma undo_trichotomy:
  "undo_before idn num u \<or> undo_at idn num u \<or> undo_after idn num u"
  "undo_before idn num u \<Longrightarrow> \<not> undo_at idn num u" "undo_after idn num u \<Longrightarrow> \<not> undo_at idn num u"
  "undo_after idn num u \<Longrightarrow> \<not> undo_before idn num u" "undo_at idn num u \<Longrightarrow> \<not> undo_before idn num u"
  by (auto simp: undo_before_def undo_at_def undo_after_def)

lemma undo_lt_intros:
  "undo_before idn num u \<Longrightarrow> undo_at idn num v \<Longrightarrow> undo_lt u v"
  "undo_at idn num u \<Longrightarrow> undo_after idn num v \<Longrightarrow> undo_lt u v"
  "undo_before idn num u \<Longrightarrow> undo_after idn num v \<Longrightarrow> undo_lt u v"
  by (auto simp: undo_lt_def undo_before_def undo_at_def undo_after_def)

lemma undo_lt_before: "undo_lt u v \<Longrightarrow> undo_before idn num v \<Longrightarrow> undo_before idn num u"
  by (auto simp: undo_lt_def undo_before_def)

lemma undo_lt_after: "undo_lt u v \<Longrightarrow> \<not> undo_before idn num u \<Longrightarrow> undo_after idn num v"
  by (auto simp: undo_lt_def undo_before_def undo_after_def)

lemma undo_sum_append [simp]: "undo_sum (xs @ ys) idn num = undo_sum xs idn num + undo_sum ys idn num"
  by (simp add: undo_sum_def)

lemma undo_sum_Nil [simp]: "undo_sum [] idn num = 0"
  by (simp add: undo_sum_def)

lemma undo_sum_Cons [simp]:
  "undo_sum (u # us) idn num = (if undo_at idn num u then un_aoe u else 0) + undo_sum us idn num"
  by (simp add: undo_sum_def)

text \<open>
  The place of a semaphore in a sorted list: the entries in front of it, its own entry if there
  is one, and those behind.
\<close>

lemma ents_split:
  assumes "sorted_wrt undo_lt ents"
  obtains (absent) ls rs where "ents = ls @ rs" "\<forall>u \<in> set ls. undo_before idn num u"
      "\<forall>u \<in> set rs. undo_after idn num u"
    | (present) ls u rs where "ents = ls @ u # rs" "\<forall>u \<in> set ls. undo_before idn num u"
      "undo_at idn num u" "\<forall>u \<in> set rs. undo_after idn num u"
proof -
  define ls rs where "ls = takeWhile (undo_before idn num) ents" and "rs = dropWhile (undo_before idn num) ents"
  have ents: "ents = ls @ rs" by (simp add: ls_def rs_def)
  have ls: "\<forall>u \<in> set ls. undo_before idn num u" by (auto simp: ls_def dest: set_takeWhileD)
  show thesis
  proof (cases rs)
    case Nil
    then show thesis using absent [of ls "[]"] ents ls by simp
  next
    case (Cons u us)
    then have u: "\<not> undo_before idn num u" using hd_dropWhile [of "undo_before idn num" ents] rs_def by auto
    have "\<forall>v \<in> set us. undo_lt u v" using assms ents Cons by (simp add: sorted_wrt_append)
    then have us: "\<forall>v \<in> set us. undo_after idn num v" using undo_lt_after u by blast
    show thesis
    proof (cases "undo_at idn num u")
      case True
      then show thesis using present [of ls u us] ents Cons ls us by simp
    next
      case False
      then have "\<forall>v \<in> set rs. undo_after idn num v" using us u undo_trichotomy(1) Cons by auto
      then show thesis using absent [of ls rs] ents ls by simp
    qed
  qed
qed

lemma semaoe_upd_absent:
  assumes "\<forall>u \<in> set ls. undo_before idn num u" "\<forall>u \<in> set rs. undo_after idn num u"
  shows "semaoe_upd info val idn num (ls @ rs) =
    (if length (ls @ rs) \<ge> semume info then (Some EINVAL, ls @ rs)
     else (None, ls @ \<lparr>un_aoe = s16 (- val), un_num = num, un_id = idn\<rparr> # rs))"
proof -
  have "rs = [] \<or> undo_after idn num (hd rs)" using assms(2) by (cases rs) auto
  then have "takeWhile (undo_before idn num) rs = []" "dropWhile (undo_before idn num) rs = rs"
      "rs = [] \<or> \<not> undo_at idn num (hd rs)"
    using undo_trichotomy by (cases rs; auto)+
  then show ?thesis using assms(1) by (simp add: semaoe_upd_def takeWhile_append2 dropWhile_append2 Let_def)
qed

lemma semaoe_upd_present:
  assumes "\<forall>u \<in> set ls. undo_before idn num u" "undo_at idn num u"
  shows "semaoe_upd info val idn num (ls @ u # rs) =
    (let aoe = s16 (un_aoe u - val) in
     if aoe > int (semaem info) \<or> aoe < - int (semaem info)
     then (Some ERANGE, ls @ u\<lparr>un_aoe := s16 (aoe + val)\<rparr> # rs)
     else if aoe = 0 then (None, ls @ rs)
     else (None, ls @ u\<lparr>un_aoe := aoe\<rparr> # rs))"
  using assms undo_trichotomy(5) [OF assms(2)]
  by (simp add: semaoe_upd_def takeWhile_append2 dropWhile_append2 Let_def)

lemma ents_ok_insert:
  assumes "ents_ok info (ls @ rs)" "\<forall>u \<in> set ls. undo_before idn num u" "\<forall>u \<in> set rs. undo_after idn num u"
    "undo_at idn num u" "un_aoe u \<noteq> 0" "\<bar>un_aoe u\<bar> \<le> int (semaem info)" "length (ls @ rs) < semume info"
  shows "ents_ok info (ls @ u # rs)"
  using assms undo_lt_intros by (auto simp: ents_ok_def sorted_wrt_append)

lemma ents_ok_remove: "ents_ok info (ls @ u # rs) \<Longrightarrow> ents_ok info (ls @ rs)"
  by (auto simp: ents_ok_def sorted_wrt_append)

lemma ents_ok_change:
  assumes "ents_ok info (ls @ u # rs)" "un_id v = un_id u" "un_num v = un_num u"
    "un_aoe v \<noteq> 0" "\<bar>un_aoe v\<bar> \<le> int (semaem info)"
  shows "ents_ok info (ls @ v # rs)"
  using assms by (auto simp: ents_ok_def sorted_wrt_append undo_lt_def undo_before_def)

text \<open>A refused call leaves the entries as they were.\<close>

lemma semaoe_upd_error:
  assumes ok: "ents_ok info ents" and aem: "semaem info < 2 ^ 15"
    and upd: "semaoe_upd info val idn num ents = (Some e, ents')"
  shows "ents' = ents"
proof -
  have "sorted_wrt undo_lt ents" using ok by (simp add: ents_ok_def)
  then show ?thesis
  proof (cases rule: ents_split [of ents idn num])
    case (absent ls rs)
    then show ?thesis using upd by (simp add: semaoe_upd_absent split: if_splits)
  next
    case (present ls u rs)
    have "\<bar>un_aoe u\<bar> \<le> int (semaem info)" using ok present(1) by (simp add: ents_ok_def)
    then have "u\<lparr>un_aoe := s16 (s16 (un_aoe u - val) + val)\<rparr> = u" using aem by simp
    then show ?thesis using upd present by (simp add: semaoe_upd_present Let_def split: if_splits)
  qed
qed

text \<open>
  A call that succeeds keeps the entries in order and within bounds and is undone by a call with
  the opposite value. It subtracts the value from the adjustment of its semaphore and changes no
  other, provided that the limit on adjustments is low enough for the subtraction to stay within
  a \<^verbatim>\<open>short\<close> or to be found out of range.
\<close>

definition aoe_changed :: "undo list \<Rightarrow> undo list \<Rightarrow> int \<Rightarrow> nat \<Rightarrow> int \<Rightarrow> bool" where
  "aoe_changed ents ents' idn num val \<longleftrightarrow>
     (\<forall>i n. undo_sum ents' i n = undo_sum ents i n - (if i = idn \<and> n = num then val else 0))"

lemma semaoe_upd_new:
  assumes ok: "ents_ok info (ls @ rs)" and aem: "semaem info < 2 ^ 15"
    and val: "val \<noteq> 0" "\<bar>val\<bar> \<le> int (semaem info)"
    and ls: "\<forall>u \<in> set ls. undo_before idn num u" and rs: "\<forall>u \<in> set rs. undo_after idn num u"
    and upd: "semaoe_upd info val idn num (ls @ rs) = (None, ents')"
  shows "ents_ok info ents' \<and> semaoe_upd info (- val) idn num ents' = (None, ls @ rs)
    \<and> aoe_changed (ls @ rs) ents' idn num val \<and> (\<forall>u \<in> set ents'. u \<in> set (ls @ rs) \<or> undo_at idn num u)"
proof -
  let ?u = "\<lparr>un_aoe = - val, un_num = num, un_id = idn\<rparr>"
  have s: "s16 (- val) = - val" "s16 0 = 0" using val aem by (simp_all add: abs_le_iff)
  have ents': "ents' = ls @ ?u # rs" and len: "length (ls @ rs) < semume info"
    using upd s ls rs by (auto simp: semaoe_upd_absent split: if_splits)
  have akey: "undo_at idn num ?u" by (simp add: undo_at_def)
  have "ents_ok info ents'"
    unfolding ents' using ents_ok_insert [OF ok ls rs akey] val len by simp
  moreover have "semaoe_upd info (- val) idn num ents' = (None, ls @ rs)"
    using semaoe_upd_present [OF ls akey, of info "- val" rs] s ents' by (simp add: Let_def)
  moreover have "aoe_changed (ls @ rs) ents' idn num val"
    unfolding ents' aoe_changed_def by (simp add: undo_at_def)
  ultimately show ?thesis using ents' akey by auto
qed

lemma semaoe_upd_old:
  assumes ok: "ents_ok info (ls @ u # rs)" and aem: "semaem info < 2 ^ 15"
    and val: "val \<noteq> 0" "\<bar>val\<bar> \<le> int (semaem info)"
    and ls: "\<forall>u \<in> set ls. undo_before idn num u" and rs: "\<forall>u \<in> set rs. undo_after idn num u"
    and akey: "undo_at idn num u"
    and upd: "semaoe_upd info val idn num (ls @ u # rs) = (None, ents')"
  shows "ents_ok info ents' \<and> semaoe_upd info (- val) idn num ents' = (None, ls @ u # rs)
    \<and> (3 * semaem info < 2 ^ 16 \<longrightarrow> aoe_changed (ls @ u # rs) ents' idn num val)
    \<and> (\<forall>u' \<in> set ents'. u' \<in> set (ls @ u # rs) \<or> undo_at idn num u')"
proof -
  have u: "un_aoe u \<noteq> 0" "\<bar>un_aoe u\<bar> \<le> int (semaem info)" and len: "length (ls @ u # rs) \<le> semume info"
    using ok by (auto simp: ents_ok_def)
  then have wide: "- (2 ^ 15) \<le> un_aoe u" "un_aoe u < 2 ^ 15" using aem by auto
  define aoe where "aoe = s16 (un_aoe u - val)"
  have restore: "s16 (aoe + val) = un_aoe u" unfolding aoe_def using wide by simp
  have aoe: "\<bar>aoe\<bar> \<le> int (semaem info)"
    and ents': "ents' = (if aoe = 0 then ls @ rs else ls @ u\<lparr>un_aoe := aoe\<rparr> # rs)"
    using upd akey ls unfolding aoe_def by (auto simp: semaoe_upd_present Let_def split: if_splits)
  have akey': "undo_at idn num (u\<lparr>un_aoe := aoe\<rparr>)" using akey by (simp add: undo_at_def)
  have exact: "aoe = un_aoe u - val" if "3 * semaem info < 2 ^ 16"
    using s16_exact [OF u(2) val(2) that] aoe unfolding aoe_def by simp
  have zero: "un_aoe u = val" if "aoe = 0" using restore that val aem by simp
  show ?thesis
  proof (cases "aoe = 0")
    case True
    have "u = \<lparr>un_aoe = val, un_num = num, un_id = idn\<rparr>" using zero [OF True] akey by (simp add: undo_at_def)
    moreover have "s16 val = val" using val aem by (simp add: abs_le_iff)
    ultimately show ?thesis
      using True ents' len ents_ok_remove [OF ok] akey exact
      by (auto simp: semaoe_upd_absent [OF ls rs] aoe_changed_def undo_at_def)
  next
    case False
    have "ents_ok info ents'" unfolding ents' using ents_ok_change [OF ok, of "u\<lparr>un_aoe := aoe\<rparr>"] False aoe by simp
    moreover have "semaoe_upd info (- val) idn num ents' = (None, ls @ u # rs)"
      using semaoe_upd_present [OF ls akey', of info "- val" rs] False ents' restore u by (simp add: Let_def abs_le_iff)
    moreover have "aoe_changed (ls @ u # rs) ents' idn num val" if "3 * semaem info < 2 ^ 16"
      using exact [OF that] False akey unfolding ents' aoe_changed_def by (auto simp: undo_at_def)
    ultimately show ?thesis using ents' False akey' by auto
  qed
qed

lemma semaoe_upd_done:
  assumes ok: "ents_ok info ents" and aem: "semaem info < 2 ^ 15"
    and val: "val \<noteq> 0" "\<bar>val\<bar> \<le> int (semaem info)"
    and upd: "semaoe_upd info val idn num ents = (None, ents')"
  shows "ents_ok info ents'" "semaoe_upd info (- val) idn num ents' = (None, ents)"
    "3 * semaem info < 2 ^ 16 \<Longrightarrow> aoe_changed ents ents' idn num val"
    "\<forall>u \<in> set ents'. u \<in> set ents \<or> undo_at idn num u"
proof -
  have "sorted_wrt undo_lt ents" using ok by (simp add: ents_ok_def)
  then have "ents_ok info ents' \<and> semaoe_upd info (- val) idn num ents' = (None, ents)
      \<and> (3 * semaem info < 2 ^ 16 \<longrightarrow> aoe_changed ents ents' idn num val)
      \<and> (\<forall>u \<in> set ents'. u \<in> set ents \<or> undo_at idn num u)"
    by (cases rule: ents_split [of ents idn num])
      (use semaoe_upd_new [OF _ aem val] semaoe_upd_old [OF _ aem val] ok upd in blast)+
  then show "ents_ok info ents'" "semaoe_upd info (- val) idn num ents' = (None, ents)"
    "3 * semaem info < 2 ^ 16 \<Longrightarrow> aoe_changed ents ents' idn num val"
    "\<forall>u \<in> set ents'. u \<in> set ents \<or> undo_at idn num u" by blast+
qed

section \<open>The pool of undo structures\<close>

definition undo_inv :: "seminfo \<Rightarrow> sem_sys \<Rightarrow> bool" where
  "undo_inv info st \<longleftrightarrow>
     (\<forall>up. ents_ok info (semu st up))
   \<and> distinct (semunp st) \<and> (\<forall>up. up \<in> set (semunp st) \<longleftrightarrow> semu st up \<noteq> [])
   \<and> distinct (semfup st) \<and> (\<forall>up \<in> set (semfup st). semu st up = [])
   \<and> (\<forall>slot up. sem_undo st slot = Some up \<longrightarrow> up \<notin> set (semfup st))
   \<and> (\<forall>slot slot' up. sem_undo st slot = Some up \<longrightarrow> sem_undo st slot' = Some up \<longrightarrow> slot = slot')
   \<and> (\<forall>up. semu st up \<noteq> [] \<longrightarrow> (\<exists>slot. sem_undo st slot = Some up))"

lemma undo_invD:
  assumes "undo_inv info st"
  shows "ents_ok info (semu st up)" "distinct (semunp st)" "up \<in> set (semunp st) \<longleftrightarrow> semu st up \<noteq> []"
    "distinct (semfup st)" "up \<in> set (semfup st) \<Longrightarrow> semu st up = []"
    "sem_undo st slot = Some up \<Longrightarrow> up \<notin> set (semfup st)"
    "sem_undo st slot = Some up \<Longrightarrow> sem_undo st slot' = Some up \<Longrightarrow> slot = slot'"
    "semu st up \<noteq> [] \<Longrightarrow> \<exists>slot. sem_undo st slot = Some up"
  using assms unfolding undo_inv_def by simp_all

lemma undo_invI:
  assumes "\<And>up. ents_ok info (semu st up)" "distinct (semunp st)"
    "\<And>up. up \<in> set (semunp st) \<longleftrightarrow> semu st up \<noteq> []" "distinct (semfup st)"
    "\<And>up. up \<in> set (semfup st) \<Longrightarrow> semu st up = []"
    "\<And>slot up. sem_undo st slot = Some up \<Longrightarrow> up \<notin> set (semfup st)"
    "\<And>slot slot' up. sem_undo st slot = Some up \<Longrightarrow> sem_undo st slot' = Some up \<Longrightarrow> slot = slot'"
    "\<And>up. semu st up \<noteq> [] \<Longrightarrow> \<exists>slot. sem_undo st slot = Some up"
  shows "undo_inv info st"
  using assms unfolding undo_inv_def by simp

text \<open>The entries of the process in a slot.\<close>

definition sem_ents :: "sem_sys \<Rightarrow> nat \<Rightarrow> undo list" where
  "sem_ents st slot = (case sem_undo st slot of None \<Rightarrow> [] | Some up \<Rightarrow> semu st up)"

definition sem_adj :: "sem_sys \<Rightarrow> nat \<Rightarrow> int \<Rightarrow> nat \<Rightarrow> int" where
  "sem_adj st slot idn num = undo_sum (sem_ents st slot) idn num"

lemma undo_inv_ents: "undo_inv info st \<Longrightarrow> ents_ok info (sem_ents st slot)"
  using undo_invD(1) [of info st] by (auto simp: sem_ents_def ents_ok_def split: option.splits)

lemma undo_inv_cong:
  "undo_inv info st \<Longrightarrow> semu st' = semu st \<Longrightarrow> semunp st' = semunp st \<Longrightarrow> semfup st' = semfup st \<Longrightarrow>
   sem_undo st' = sem_undo st \<Longrightarrow> undo_inv info st'"
  by (simp add: undo_inv_def)

lemma sem_ents_cong:
  "semu st' = semu st \<Longrightarrow> sem_undo st' = sem_undo st \<Longrightarrow> sem_ents st' = sem_ents st"
  by (auto simp: sem_ents_def fun_eq_iff split: option.splits)

lemma sem_undo_get_inv:
  assumes "undo_inv info st" "sem_undo_get slot st = Some (up, st')"
  shows "undo_inv info st'" "sem_ents st' = sem_ents st" "sem_undo st' slot = Some up"
    "semu st' = semu st" "semunp st' = semunp st"
proof -
  consider "sem_undo st slot = Some up" "st' = st"
    | fs where "sem_undo st slot = None" "semfup st = up # fs"
        "st' = st\<lparr>semfup := fs, sem_undo := (sem_undo st)(slot := Some up)\<rparr>"
    using assms(2) by (auto simp: sem_undo_get_def split: option.splits list.splits)
  then have "undo_inv info st' \<and> sem_ents st' = sem_ents st \<and> sem_undo st' slot = Some up
      \<and> semu st' = semu st \<and> semunp st' = semunp st"
  proof cases
    case 1
    then show ?thesis using assms(1) by simp
  next
    case 2
    have fresh: "semu st up = []" "\<And>s. sem_undo st s \<noteq> Some up" "up \<notin> set fs"
      using undo_invD(4-6) [OF assms(1)] 2(2) by auto
    have "undo_inv info st'"
    proof (rule undo_invI)
      fix v assume "semu st' v \<noteq> []"
      then obtain s where "sem_undo st s = Some v" using undo_invD(8) [OF assms(1), of v] 2(3) by auto
      then show "\<exists>s. sem_undo st' s = Some v" using 2(1,3) by (intro exI [of _ s]) auto
    next
      fix s t v assume "sem_undo st' s = Some v" "sem_undo st' t = Some v"
      then show "s = t" using fresh(2) undo_invD(7) [OF assms(1), of s v t] 2(3) by (auto split: if_splits)
    next
      fix s v assume "sem_undo st' s = Some v"
      then show "v \<notin> set (semfup st')"
        using fresh undo_invD(6) [OF assms(1), of s v] 2(2,3) by (auto split: if_splits)
    qed (use undo_invD(1-5) [OF assms(1)] 2(2,3) in simp_all)
    moreover have "sem_ents st' = sem_ents st"
      using fresh(1) 2 by (auto simp: sem_ents_def fun_eq_iff split: option.splits)
    ultimately show ?thesis using 2 by simp
  qed
  then show "undo_inv info st'" "sem_ents st' = sem_ents st" "sem_undo st' slot = Some up"
    "semu st' = semu st" "semunp st' = semunp st" by blast+
qed

text \<open>Replacing the entries of a process, with its structure put on or taken off the active chain.\<close>

lemma undo_inv_put:
  assumes inv: "undo_inv info st" and own: "sem_undo st slot = Some up" and ok: "ents_ok info ents"
    and chain: "distinct chain" "set chain = (if ents = [] then set (semunp st) - {up} else insert up (set (semunp st)))"
  shows "undo_inv info (st\<lparr>semu := (semu st)(up := ents), semunp := chain\<rparr>)"
    "sem_ents (st\<lparr>semu := (semu st)(up := ents), semunp := chain\<rparr>) = (sem_ents st)(slot := ents)"
proof -
  let ?st = "st\<lparr>semu := (semu st)(up := ents), semunp := chain\<rparr>"
  show "undo_inv info ?st"
  proof (rule undo_invI)
    fix v show "v \<in> set (semunp ?st) \<longleftrightarrow> semu ?st v \<noteq> []"
      using undo_invD(3) [OF inv, of v] chain(2) by auto
  next
    fix v assume "v \<in> set (semfup ?st)"
    then show "semu ?st v = []" using undo_invD(5) [OF inv, of v] undo_invD(6) [OF inv own] by auto
  next
    fix v assume "semu ?st v \<noteq> []"
    then show "\<exists>s. sem_undo ?st s = Some v" using undo_invD(8) [OF inv, of v] own by (auto split: if_splits)
  next
    fix s t v assume "sem_undo ?st s = Some v" "sem_undo ?st t = Some v"
    then show "s = t" using undo_invD(7) [OF inv, of s v t] by simp
  next
    fix s v assume "sem_undo ?st s = Some v"
    then show "v \<notin> set (semfup ?st)" using undo_invD(6) [OF inv, of s v] by simp
  qed (use undo_invD(1,2,4) [OF inv] ok chain(1) in simp_all)
  show "sem_ents ?st = (sem_ents st)(slot := ents)"
  proof
    fix t
    have "sem_undo st t \<noteq> Some up" if "t \<noteq> slot" using undo_invD(7) [OF inv own, of t] that by blast
    then show "sem_ents ?st t = ((sem_ents st)(slot := ents)) t"
      using own by (cases "t = slot") (auto simp: sem_ents_def split: option.splits)
  qed
qed

lemma semaoe_frame [simp]:
  "sem_arr (snd (semaoe info slot val idn num st)) = sem_arr st"
  "sema (snd (semaoe info slot val idn num st)) = sema st"
  "semmap (snd (semaoe info slot val idn num st)) = semmap st"
  "sem_wakes (snd (semaoe info slot val idn num st)) = sem_wakes st"
  by (simp_all add: semaoe_def sem_undo_get_def Let_def split: option.split list.split prod.split)

text \<open>The part of \<open>semaoe\<close> after its checks of the value.\<close>

lemma semaoe_get:
  assumes inv: "undo_inv info st" and aem: "semaem info < 2 ^ 15"
    and val: "val \<noteq> 0" "\<bar>val\<bar> \<le> int (semaem info)" and get: "sem_undo_get slot st = Some (up, st1)"
    and call: "semaoe info slot val idn num st = (err, st')"
  shows "undo_inv info st'"
    "semaoe_upd info val idn num (sem_ents st slot) = (err, sem_ents st' slot)"
    "\<forall>t. t \<noteq> slot \<longrightarrow> sem_ents st' t = sem_ents st t" "sem_undo st' slot = Some up"
proof -
  note g = sem_undo_get_inv [OF inv get]
  obtain ents' where upd: "semaoe_upd info val idn num (semu st1 up) = (err, ents')"
    and st': "st' = st1\<lparr>semu := (semu st1)(up := ents'),
                semunp := (if semu st1 up = [] \<and> ents' \<noteq> [] then up # semunp st1
                           else if semu st1 up \<noteq> [] \<and> ents' = [] then remove1 up (semunp st1)
                           else semunp st1)\<rparr>"
    using call val get by (auto simp: semaoe_def Let_def abs_le_iff split: prod.splits)
  have e: "sem_ents st slot = semu st1 up" using g(2,3) by (metis option.simps(5) sem_ents_def)
  have ok: "ents_ok info ents'"
  proof (cases err)
    case None
    then show ?thesis using semaoe_upd_done(1) [OF undo_inv_ents [OF inv] aem val, of idn num slot] upd e by simp
  next
    case (Some x)
    then show ?thesis using semaoe_upd_error [OF undo_inv_ents [OF inv] aem, of val idn num slot] upd e
        undo_inv_ents [OF inv, of slot] by simp
  qed
  have chain: "distinct (semunp st1)" "\<forall>v. v \<in> set (semunp st1) \<longleftrightarrow> semu st1 v \<noteq> []"
    using undo_invD(2,3) [OF g(1)] by simp_all
  note put = undo_inv_put [OF g(1) g(3) ok, of "semunp st'"]
  have "distinct (semunp st')" "set (semunp st') = (if ents' = [] then set (semunp st1) - {up} else insert up (set (semunp st1)))"
    using chain unfolding st' by auto
  from put [OF this] have p: "undo_inv info st'" "sem_ents st' = (sem_ents st1)(slot := ents')"
    unfolding st' by simp_all
  then show "undo_inv info st'" "semaoe_upd info val idn num (sem_ents st slot) = (err, sem_ents st' slot)"
    "\<forall>t. t \<noteq> slot \<longrightarrow> sem_ents st' t = sem_ents st t" "sem_undo st' slot = Some up"
    using upd e g unfolding st' by simp_all
qed

lemma semaoe_ok:
  assumes inv: "undo_inv info st" and aem: "semaem info < 2 ^ 15" and val: "val \<noteq> 0"
    and call: "semaoe info slot val idn num st = (None, st')"
  shows "undo_inv info st'" "\<bar>val\<bar> \<le> int (semaem info)" "sem_undo st' slot \<noteq> None"
    "semaoe_upd info val idn num (sem_ents st slot) = (None, sem_ents st' slot)"
    "sem_ents st' = (sem_ents st)(slot := sem_ents st' slot)"
proof -
  show v: "\<bar>val\<bar> \<le> int (semaem info)"
    using call val by (auto simp: semaoe_def abs_le_iff split: if_splits)
  obtain up st1 where "sem_undo_get slot st = Some (up, st1)"
    using call val v by (auto simp: semaoe_def abs_le_iff split: option.splits)
  note g = semaoe_get [OF inv aem val v this call]
  show "undo_inv info st'" "sem_undo st' slot \<noteq> None"
    "semaoe_upd info val idn num (sem_ents st slot) = (None, sem_ents st' slot)"
    "sem_ents st' = (sem_ents st)(slot := sem_ents st' slot)"
    using g by (auto simp: fun_eq_iff)
qed

lemma semaoe_refused:
  assumes inv: "undo_inv info st" and aem: "semaem info < 2 ^ 15"
    and call: "semaoe info slot val idn num st = (Some e, st')"
  shows "undo_inv info st' \<and> sem_ents st' = sem_ents st \<and> (sem_undo st slot \<noteq> None \<longrightarrow> sem_undo st' slot \<noteq> None)"
proof (cases "val \<noteq> 0 \<and> \<bar>val\<bar> \<le> int (semaem info) \<and> sem_undo_get slot st \<noteq> None")
  case False
  then have "st' = st" using call by (cases "sem_undo_get slot st") (auto simp: semaoe_def abs_le_iff split: if_splits)
  then show ?thesis using inv by simp
next
  case True
  then obtain up st1 where get: "sem_undo_get slot st = Some (up, st1)" by auto
  have g: "undo_inv info st'" "semaoe_upd info val idn num (sem_ents st slot) = (Some e, sem_ents st' slot)"
    "\<forall>t. t \<noteq> slot \<longrightarrow> sem_ents st' t = sem_ents st t" "sem_undo st' slot = Some up"
    using semaoe_get [OF inv aem _ _ get call] True by simp_all
  then have "sem_ents st' t = sem_ents st t" for t
    using semaoe_upd_error [OF undo_inv_ents [OF inv] aem g(2)] by (cases "t = slot") auto
  then show ?thesis using g by (auto simp: fun_eq_iff)
qed

text \<open>Taking the value back: the process has its structure, and the entries are as before.\<close>

lemma semaoe_undone:
  assumes inv: "undo_inv info st" and aem: "semaem info < 2 ^ 15" and val: "val \<noteq> 0" "\<bar>val\<bar> \<le> int (semaem info)"
    and have_undo: "sem_undo st slot \<noteq> None"
    and upd: "semaoe_upd info val idn num (sem_ents st slot) = (None, ents)"
  shows "undo_inv info (snd (semaoe info slot val idn num st))"
    "sem_ents (snd (semaoe info slot val idn num st)) = (sem_ents st)(slot := ents)"
    "sem_undo (snd (semaoe info slot val idn num st)) slot \<noteq> None"
proof -
  obtain up where get: "sem_undo_get slot st = Some (up, st)" using have_undo by (auto simp: sem_undo_get_def)
  obtain err st' where c: "semaoe info slot val idn num st = (err, st')" by fastforce
  have g: "undo_inv info st'" "semaoe_upd info val idn num (sem_ents st slot) = (err, sem_ents st' slot)"
    "\<forall>t. t \<noteq> slot \<longrightarrow> sem_ents st' t = sem_ents st t" "sem_undo st' slot = Some up"
    using semaoe_get [OF inv aem val get c] by simp_all
  show "undo_inv info (snd (semaoe info slot val idn num st))"
    "sem_ents (snd (semaoe info slot val idn num st)) = (sem_ents st)(slot := ents)"
    "sem_undo (snd (semaoe info slot val idn num st)) slot \<noteq> None"
    using g upd c by (auto simp: fun_eq_iff)
qed

section \<open>Removing entries\<close>

definition undo_hit :: "int \<Rightarrow> nat \<Rightarrow> nat \<Rightarrow> undo \<Rightarrow> bool" where
  "undo_hit idn low high u \<longleftrightarrow> un_id u = idn \<and> low \<le> un_num u \<and> un_num u \<le> high"

lemma semunrm_ents_filter:
  assumes "sorted_wrt undo_lt us"
  shows "semunrm_ents idn low high us = filter (\<lambda>u. \<not> undo_hit idn low high u) us"
  using assms
proof (induction us)
  case (Cons u us)
  have rest: "\<forall>v \<in> set us. undo_lt u v" using Cons.prems by simp
  have "filter (\<lambda>u. \<not> undo_hit idn low high u) us = us"
    if "idn < un_id u \<or> un_id u = idn \<and> high < un_num u"
    using rest that by (auto simp: filter_id_conv undo_hit_def undo_lt_def undo_before_def)
  then show ?case using Cons by (auto simp: undo_hit_def)
qed simp

lemma semunrm_chain_eq:
  "distinct ps \<Longrightarrow>
   semunrm_chain idn low high ps ents =
     (filter (\<lambda>p. semunrm_ents idn low high (ents p) \<noteq> []) ps,
      \<lambda>p. if p \<in> set ps then semunrm_ents idn low high (ents p) else ents p)"
proof (induction ps arbitrary: ents)
  case (Cons p ps)
  let ?ents = "ents(p := semunrm_ents idn low high (ents p))"
  have "filter (\<lambda>q. semunrm_ents idn low high (?ents q) \<noteq> []) ps
      = filter (\<lambda>q. semunrm_ents idn low high (ents q) \<noteq> []) ps"
    using Cons.prems by (intro filter_cong) auto
  then show ?case using Cons by (auto simp: Let_def fun_eq_iff)
qed simp

lemma ents_ok_filter: "ents_ok info ents \<Longrightarrow> ents_ok info (filter P ents)"
  by (auto simp: ents_ok_def sorted_wrt_filter intro: le_trans [OF length_filter_le])

text \<open>\<open>semunrm\<close> removes the matching entries of every process, and nothing else.\<close>

lemma semunrm_ok:
  assumes inv: "undo_inv info st"
  shows "undo_inv info (semunrm idn low high st)"
    "sem_ents (semunrm idn low high st) = (\<lambda>slot. filter (\<lambda>u. \<not> undo_hit idn low high u) (sem_ents st slot))"
proof -
  let ?rm = "semunrm_ents idn low high" and ?st = "semunrm idn low high st"
  have rm: "?rm (semu st p) = filter (\<lambda>u. \<not> undo_hit idn low high u) (semu st p)" for p
    using undo_invD(1) [OF inv, of p] by (simp add: ents_ok_def semunrm_ents_filter)
  have semu: "semu ?st p = ?rm (semu st p)" for p
    using undo_invD(2) [OF inv] undo_invD(3) [OF inv, of p] by (auto simp: semunrm_def semunrm_chain_eq)
  have chain: "semunp ?st = filter (\<lambda>p. ?rm (semu st p) \<noteq> []) (semunp st)"
    using undo_invD(2) [OF inv] by (simp add: semunrm_def semunrm_chain_eq)
  have same: "semfup ?st = semfup st" "sem_undo ?st = sem_undo st"
    by (simp_all add: semunrm_def split: prod.split)
  have sub: "semu st p \<noteq> []" if "?rm (semu st p) \<noteq> []" for p using that by (cases "semu st p") auto
  show "undo_inv info ?st"
  proof (rule undo_invI)
    fix p show "p \<in> set (semunp ?st) \<longleftrightarrow> semu ?st p \<noteq> []"
      using undo_invD(3) [OF inv, of p] sub [of p] by (auto simp: chain semu)
  next
    fix p assume "p \<in> set (semfup ?st)"
    then show "semu ?st p = []" using undo_invD(5) [OF inv, of p] by (simp add: same semu)
  next
    fix p assume "semu ?st p \<noteq> []"
    then show "\<exists>s. sem_undo ?st s = Some p" using undo_invD(8) [OF inv, of p] sub [of p] by (simp add: same semu)
  next
    fix s t p assume "sem_undo ?st s = Some p" "sem_undo ?st t = Some p"
    then show "s = t" using undo_invD(7) [OF inv, of s p t] by (simp add: same)
  next
    fix s p assume "sem_undo ?st s = Some p"
    then show "p \<notin> set (semfup ?st)" using undo_invD(6) [OF inv, of s p] by (simp add: same)
  qed (use undo_invD(1,2,4) [OF inv] in \<open>simp_all add: chain semu rm same ents_ok_filter\<close>)
  show "sem_ents ?st = (\<lambda>slot. filter (\<lambda>u. \<not> undo_hit idn low high u) (sem_ents st slot))"
    by (auto simp: fun_eq_iff sem_ents_def same semu rm split: option.splits)
qed

lemma semunrm_frame [simp]:
  "sem_arr (semunrm idn low high st) = sem_arr st" "sema (semunrm idn low high st) = sema st"
  "semmap (semunrm idn low high st) = semmap st" "sem_wakes (semunrm idn low high st) = sem_wakes st"
  by (simp_all add: semunrm_def split: prod.split)

end
