(* ===== verification/Sem_Op.thy ===== *)
theory Sem_Op
  imports Sem_Undo
begin

text \<open>
  What \<open>semop\<close> guarantees. The operations of a call take effect together or not at all: a pass
  that meets an operation it cannot carry out leaves the semaphore values and the undo entries
  of every process as they were, and a pass that completes has added every operation.
\<close>

section \<open>What the small operations keep\<close>

definition sem_vals :: "sem_sys \<Rightarrow> nat list" where
  "sem_vals st = map semval (sem_arr st)"

definition undo_same :: "sem_sys \<Rightarrow> sem_sys \<Rightarrow> bool" where
  "undo_same st st' \<longleftrightarrow> semu st' = semu st \<and> semunp st' = semunp st \<and> semfup st' = semfup st
     \<and> sem_undo st' = sem_undo st"

definition table_same :: "sem_sys \<Rightarrow> sem_sys \<Rightarrow> bool" where
  "table_same st st' \<longleftrightarrow> sema st' = sema st \<and> semmap st' = semmap st \<and> length (sem_arr st') = length (sem_arr st)"

lemma same_refl [simp]: "undo_same st st" "table_same st st"
  by (simp_all add: undo_same_def table_same_def)

lemma undo_same_view:
  "undo_same st st' \<Longrightarrow> undo_inv info st \<Longrightarrow> undo_inv info st'"
  "undo_same st st' \<Longrightarrow> sem_ents st' = sem_ents st"
  by (auto simp: undo_same_def intro: undo_inv_cong sem_ents_cong)

lemma upd_sem_same [simp]:
  "undo_same st (upd_sem k f st') \<longleftrightarrow> undo_same st st'" "table_same st (upd_sem k f st') \<longleftrightarrow> table_same st st'"
  by (simp_all add: undo_same_def table_same_def upd_sem_def)

lemma log_wake_same [simp]:
  "undo_same st (log_wake w st') \<longleftrightarrow> undo_same st st'" "table_same st (log_wake w st') \<longleftrightarrow> table_same st st'"
  "sem_vals (log_wake w st') = sem_vals st'" "sem_arr (log_wake w st') = sem_arr st'"
  by (simp_all add: undo_same_def table_same_def log_wake_def sem_vals_def)

lemma upd_set_same [simp]:
  "undo_same st (upd_set i f st') \<longleftrightarrow> undo_same st st'"
  "sem_vals (upd_set i f st') = sem_vals st'" "sem_arr (upd_set i f st') = sem_arr st'"
  "semmap (upd_set i f st') = semmap st'"
  by (simp_all add: undo_same_def upd_set_def sem_vals_def)

lemma upd_sem_vals: "sem_vals (upd_sem k f st) = (sem_vals st)[k := semval (f (sem_arr st ! k))]"
  by (simp add: sem_vals_def upd_sem_def map_update)

lemma upd_sem_vals_same:
  assumes "\<And>s. semval (f s) = semval s"
  shows "sem_vals (upd_sem k f st) = sem_vals st"
proof (cases "k < length (sem_arr st)")
  case True
  then have "semval (f (sem_arr st ! k)) = sem_vals st ! k" using assms by (simp add: sem_vals_def)
  then show ?thesis by (simp add: upd_sem_vals)
qed (simp add: sem_vals_def upd_sem_def list_update_beyond)

lemma wake_same [simp]:
  "undo_same st (sem_wake_n k st') \<longleftrightarrow> undo_same st st'" "table_same st (sem_wake_n k st') \<longleftrightarrow> table_same st st'"
  "undo_same st (sem_wake_z k st') \<longleftrightarrow> undo_same st st'" "table_same st (sem_wake_z k st') \<longleftrightarrow> table_same st st'"
  "undo_same st (semop_v_wake b k st') \<longleftrightarrow> undo_same st st'" "table_same st (semop_v_wake b k st') \<longleftrightarrow> table_same st st'"
  "undo_same st (sem_add k d st') \<longleftrightarrow> undo_same st st'" "table_same st (sem_add k d st') \<longleftrightarrow> table_same st st'"
  by (simp_all add: sem_wake_n_def sem_wake_z_def semop_v_wake_def sem_add_def Let_def)

lemma wake_vals [simp]:
  "sem_vals (sem_wake_n k st) = sem_vals st" "sem_vals (sem_wake_z k st) = sem_vals st"
  "sem_vals (semop_v_wake b k st) = sem_vals st"
  by (simp_all add: sem_wake_n_def sem_wake_z_def semop_v_wake_def Let_def upd_sem_vals_same)

lemma sem_vals_nth [simp]: "k < length (sem_arr st) \<Longrightarrow> sem_vals st ! k = semval (sem_arr st ! k)"
  by (simp add: sem_vals_def)

lemma length_sem_vals [simp]: "length (sem_vals st) = length (sem_arr st)"
  by (simp add: sem_vals_def)

lemma sem_add_vals:
  "k < length (sem_arr st) \<Longrightarrow> sem_vals (sem_add k d st) = (sem_vals st)[k := u16 (int (sem_vals st ! k) + d)]"
  by (simp add: sem_add_def upd_sem_vals)

lemma semaoe_same [simp]:
  "table_same st (snd (semaoe info slot val idn num st'))  \<longleftrightarrow> table_same st st'"
  "sem_vals (snd (semaoe info slot val idn num st')) = sem_vals st'"
  by (simp_all add: table_same_def sem_vals_def)

lemma semop_aoe_same:
  "semop_aoe info slot idn op st = (err, st1) \<Longrightarrow> table_same st st1"
  "semop_aoe info slot idn op st = (err, st1) \<Longrightarrow> sem_vals st1 = sem_vals st"
  unfolding semop_aoe_def by (metis prod.inject same_refl(2) semaoe_same snd_conv)+

section \<open>Undoing a pass\<close>

text \<open>\<open>semundo\<close> as it acts on the values and on the entries of the calling process.\<close>

definition view_aoe :: "seminfo \<Rightarrow> int \<Rightarrow> int \<Rightarrow> nat \<Rightarrow> undo list \<Rightarrow> undo list" where
  "view_aoe info val idn num ents =
     (if val = 0 \<or> \<bar>val\<bar> > int (semaem info) then ents else snd (semaoe_upd info val idn num ents))"

fun view_undo :: "seminfo \<Rightarrow> int \<Rightarrow> nat \<Rightarrow> sembuf list \<Rightarrow> nat list \<times> undo list \<Rightarrow> nat list \<times> undo list" where
  "view_undo info idn base [] (vs, es) = (vs, es)"
| "view_undo info idn base (op # ops) (vs, es) =
     (if sem_op op = 0 then view_undo info idn base ops (vs, es)
      else view_undo info idn base ops
             (vs[base + sem_num op := u16 (int (vs ! (base + sem_num op)) - sem_op op)],
              if op_undo op then view_aoe info (s16 (- sem_op op)) idn (sem_num op) es else es))"

lemma semaoe_view:
  assumes inv: "undo_inv info st" and aem: "semaem info < 2 ^ 15" and own: "sem_undo st slot \<noteq> None"
  shows "undo_inv info (snd (semaoe info slot val idn num st))"
    "sem_ents (snd (semaoe info slot val idn num st)) =
       (sem_ents st)(slot := view_aoe info val idn num (sem_ents st slot))"
    "sem_undo (snd (semaoe info slot val idn num st)) slot \<noteq> None"
proof -
  obtain up where get: "sem_undo_get slot st = Some (up, st)" using own by (auto simp: sem_undo_get_def)
  obtain err st' where c: "semaoe info slot val idn num st = (err, st')" by fastforce
  have "undo_inv info st' \<and> sem_ents st' = (sem_ents st)(slot := view_aoe info val idn num (sem_ents st slot))
     \<and> sem_undo st' slot \<noteq> None"
  proof (cases "val = 0 \<or> \<bar>val\<bar> > int (semaem info)")
    case True
    then have "st' = st" using c by (auto simp: semaoe_def split: if_splits)
    then show ?thesis using True inv own by (simp add: view_aoe_def)
  next
    case False
    then show ?thesis using semaoe_get [OF inv aem _ _ get c] by (auto simp: view_aoe_def fun_eq_iff)
  qed
  then show "undo_inv info (snd (semaoe info slot val idn num st))"
    "sem_ents (snd (semaoe info slot val idn num st)) =
       (sem_ents st)(slot := view_aoe info val idn num (sem_ents st slot))"
    "sem_undo (snd (semaoe info slot val idn num st)) slot \<noteq> None"
    using c by simp_all
qed

definition no_undo :: "sembuf list \<Rightarrow> bool" where
  "no_undo ops \<longleftrightarrow> (\<forall>op \<in> set ops. op_undo op \<longrightarrow> sem_op op = 0)"

lemma semundo_rev_view:
  assumes "undo_inv info st" "semaem info < 2 ^ 15" "sem_undo st slot \<noteq> None \<or> no_undo ops"
    "\<forall>op \<in> set ops. base + sem_num op < length (sem_arr st)"
    "view_undo info idn base ops (sem_vals st, sem_ents st slot) = (vs, es)"
  shows "undo_inv info (semundo_rev info slot idn base ops st)
    \<and> table_same st (semundo_rev info slot idn base ops st)
    \<and> sem_vals (semundo_rev info slot idn base ops st) = vs
    \<and> sem_ents (semundo_rev info slot idn base ops st) = (sem_ents st)(slot := es)"
  using assms
proof (induction ops arbitrary: st)
  case Nil
  then show ?case by (simp add: fun_eq_iff)
next
  case (Cons op ops)
  define st1 where "st1 = upd_sem (base + sem_num op) (\<lambda>s. s\<lparr>semval := u16 (int (semval s) - sem_op op)\<rparr>) st"
  define st2 where "st2 = (if op_undo op then snd (semaoe info slot (s16 (- sem_op op)) idn (sem_num op) st1) else st1)"
  show ?case
  proof (cases "sem_op op = 0")
    case True
    then show ?thesis using Cons by (simp add: no_undo_def)
  next
    case False
    have same: "undo_same st st1" "table_same st st1" by (simp_all add: st1_def)
    then have s1: "undo_inv info st1" "sem_ents st1 = sem_ents st" "sem_undo st1 = sem_undo st"
      using undo_same_view [OF same(1)] Cons.prems(1) by (simp_all add: undo_same_def)
    have v1: "sem_vals st1 = (sem_vals st)[base + sem_num op := u16 (int (sem_vals st ! (base + sem_num op)) - sem_op op)]"
      using Cons.prems(4) by (simp add: st1_def upd_sem_vals)
    have own: "sem_undo st slot \<noteq> None" if "op_undo op" using Cons.prems(3) that False by (auto simp: no_undo_def)
    have s2: "undo_inv info st2 \<and> (sem_undo st2 slot \<noteq> None \<or> no_undo ops) \<and> table_same st st2 \<and> sem_vals st2 = sem_vals st1
      \<and> sem_ents st2 = (sem_ents st)(slot := if op_undo op then view_aoe info (s16 (- sem_op op)) idn (sem_num op) (sem_ents st slot) else sem_ents st slot)"
    proof (cases "op_undo op")
      case True
      then show ?thesis
        using semaoe_view [OF s1(1) Cons.prems(2), of slot "s16 (- sem_op op)" idn "sem_num op"] s1(2,3) own same
        by (simp add: st2_def)
    next
      case False
      then show ?thesis using s1 same Cons.prems(3) by (auto simp: st2_def no_undo_def)
    qed
    have len: "length (sem_arr st2) = length (sem_arr st)" using s2 by (simp add: table_same_def)
    have "semundo_rev info slot idn base (op # ops) st = semundo_rev info slot idn base ops st2"
      using False by (simp add: Let_def st1_def st2_def)
    moreover have "view_undo info idn base ops (sem_vals st2, sem_ents st2 slot) = (vs, es)"
      using Cons.prems(5) False using s2 by (simp add: v1)
    moreover have "\<forall>op \<in> set ops. base + sem_num op < length (sem_arr st2)" using Cons.prems(4) len by simp
    ultimately show ?thesis
      using Cons.IH [of st2] Cons.prems(2) s2 by (simp add: table_same_def fun_upd_upd del: fun_upd_apply)
  qed
qed

section \<open>Atomicity\<close>

text \<open>
  \<open>undoes done st vs es\<close>: undoing the operations \<open>done\<close> in \<open>st\<close> gives the values \<open>vs\<close> and the
  entries \<open>es\<close> of every process.
\<close>

definition undoes ::
  "seminfo \<Rightarrow> nat \<Rightarrow> int \<Rightarrow> nat \<Rightarrow> sembuf list \<Rightarrow> sem_sys \<Rightarrow> nat list \<Rightarrow> (nat \<Rightarrow> undo list) \<Rightarrow> bool"
where
  "undoes info slot idn base done_ops st vs es \<longleftrightarrow>
     undo_inv info st \<and> (sem_undo st slot \<noteq> None \<or> no_undo done_ops)
   \<and> (\<forall>op \<in> set done_ops. base + sem_num op < length (sem_arr st))
   \<and> (\<forall>v \<in> set (sem_vals st). v < 2 ^ 16)
   \<and> view_undo info idn base (rev done_ops) (sem_vals st, sem_ents st slot) = (vs, es slot)
   \<and> (\<forall>t. t \<noteq> slot \<longrightarrow> sem_ents st t = es t)"

lemma semundo_undoes:
  assumes "undoes info slot idn base done_ops st vs es" "semaem info < 2 ^ 15"
  shows "undo_inv info (semundo info slot idn base done_ops st)
    \<and> table_same st (semundo info slot idn base done_ops st)
    \<and> sem_vals (semundo info slot idn base done_ops st) = vs
    \<and> sem_ents (semundo info slot idn base done_ops st) = es"
proof -
  have "no_undo (rev done_ops) \<longleftrightarrow> no_undo done_ops" by (simp add: no_undo_def)
  moreover have "(sem_ents st)(slot := es slot) = es" using assms(1) by (auto simp: undoes_def)
  ultimately show ?thesis
    using semundo_rev_view [of info st slot "rev done_ops" base idn vs "es slot"] assms
    unfolding undoes_def semundo_def by simp
qed

lemma undoes_start:
  "undo_inv info st \<Longrightarrow> \<forall>v \<in> set (sem_vals st). v < 2 ^ 16 \<Longrightarrow>
   undoes info slot idn base [] st (sem_vals st) (sem_ents st)"
  by (simp add: undoes_def no_undo_def)

lemma undoes_refused:
  assumes u: "undoes info slot idn base done_ops st vs es" and aem: "semaem info < 2 ^ 15"
    and call: "semop_aoe info slot idn op st = (Some e, st1)"
  shows "undoes info slot idn base done_ops st1 vs es" "table_same st st1"
proof -
  have c: "semaoe info slot (sem_op op) idn (sem_num op) st = (Some e, st1)"
    using call by (simp add: semop_aoe_def split: if_splits)
  have "undo_inv info st" using u by (simp add: undoes_def)
  note r = semaoe_refused [OF this aem c]
  have s: "sem_vals st1 = sem_vals st" "table_same st st1"
    using semop_aoe_same [OF call] by simp_all
  then show "table_same st st1" by simp
  show "undoes info slot idn base done_ops st1 vs es"
    using u r s unfolding undoes_def table_same_def by auto
qed

lemma view_undo_append:
  "view_undo info idn base (xs @ ys) v = view_undo info idn base ys (view_undo info idn base xs v)"
  by (induction xs arbitrary: v) (auto split: prod.splits)

lemma u16_back: "v < 2 ^ 16 \<Longrightarrow> u16 (int (u16 (int v + d)) - d) = v"
proof -
  assume "v < 2 ^ 16"
  have "(int (u16 (int v + d)) - d) mod 2 ^ 16 = ((int v + d) mod 2 ^ 16 - d) mod 2 ^ 16"
    by (simp add: u16_def)
  also have "\<dots> = (int v + d - d) mod 2 ^ 16" by (rule mod_diff_left_eq)
  finally show ?thesis using \<open>v < 2 ^ 16\<close> by (simp add: u16_def)
qed

lemma u16_less [simp]: "u16 x < 2 ^ 16"
  by (simp add: u16_def nat_less_iff)

text \<open>One operation more is done, whatever sleepers it wakes.\<close>

lemma undoes_step:
  assumes u: "undoes info slot idn base done_ops st vs es" and aem: "semaem info < 2 ^ 15"
    and k: "base + sem_num op < length (sem_arr st)" and op: "sem_op op \<noteq> 0"
    and call: "semop_aoe info slot idn op st = (None, st1)"
    and st2: "undo_same st1 st2" "table_same st1 st2"
      "sem_vals st2 = sem_vals (sem_add (base + sem_num op) (sem_op op) st1)"
  shows "undoes info slot idn base (done_ops @ [op]) st2 vs es" "table_same st st2"
proof -
  let ?k = "base + sem_num op"
  have inv: "undo_inv info st" and v16: "\<forall>v \<in> set (sem_vals st). v < 2 ^ 16" using u by (simp_all add: undoes_def)
  have "semaoe info slot (sem_op op) idn (sem_num op) st = (None, st1)" if "op_undo op"
    using call that by (simp add: semop_aoe_def)
  note aoe = semaoe_ok [OF inv aem op this]
  have st1: "table_same st st1" "sem_vals st1 = sem_vals st"
    using semop_aoe_same [OF call] by simp_all
  then show "table_same st st2" using st2(2) by (simp add: table_same_def)
  have e2: "sem_ents st2 = sem_ents st1" "sem_undo st2 = sem_undo st1" 
    using undo_same_view(2) [OF st2(1)] st2(1) by (simp_all add: undo_same_def)
  have inv1: "undo_inv info st1 \<and> (sem_undo st1 slot \<noteq> None \<or> no_undo (done_ops @ [op]))
      \<and> (if op_undo op then view_aoe info (s16 (- sem_op op)) idn (sem_num op) (sem_ents st1 slot) else sem_ents st1 slot) = sem_ents st slot
      \<and> (\<forall>t. t \<noteq> slot \<longrightarrow> sem_ents st1 t = sem_ents st t)"
  proof (cases "op_undo op")
    case True
    note a = aoe [OF True]
    have "s16 (- sem_op op) = - sem_op op" using a(2) aem by (simp add: abs_le_iff)
    then have "view_aoe info (s16 (- sem_op op)) idn (sem_num op) (sem_ents st1 slot) = sem_ents st slot"
      using semaoe_upd_done(2) [OF undo_inv_ents [OF inv] aem op a(2,4)] a(2) op by (simp add: view_aoe_def)
    moreover have "sem_ents st1 t = sem_ents st t" if "t \<noteq> slot" for t using fun_cong [OF a(5), of t] that by simp
    ultimately show ?thesis using a(1,3) True by simp
  next
    case False
    then show ?thesis using call u by (auto simp: semop_aoe_def undoes_def no_undo_def)
  qed
  have len: "length (sem_arr st1) = length (sem_arr st)" "length (sem_arr st2) = length (sem_arr st)"
    using st1 st2(2) by (simp_all add: table_same_def)
  have v2: "sem_vals st2 = (sem_vals st)[?k := u16 (int (sem_vals st ! ?k) + sem_op op)]"
    using st2(3) k len st1 by (simp add: sem_add_vals)
  have "sem_vals st ! ?k < 2 ^ 16" using v16 k by (metis length_sem_vals nth_mem)
  then have restore: "(sem_vals st2)[?k := u16 (int (sem_vals st2 ! ?k) - sem_op op)] = sem_vals st"
    using k v2 u16_back [of "sem_vals st ! ?k" "sem_op op"] by (simp del: sem_vals_nth)
  have "\<forall>v \<in> set (sem_vals st2). v < 2 ^ 16"
    using v16 set_update_subset_insert [of "sem_vals st" ?k] u16_less unfolding v2 by blast
  moreover have "view_undo info idn base (rev (done_ops @ [op])) (sem_vals st2, sem_ents st2 slot) = (vs, es slot)"
    using u op inv1 restore e2(1) by (simp add: undoes_def)
  ultimately show "undoes info slot idn base (done_ops @ [op]) st2 vs es"
    using u inv1 e2 k len undo_same_view(1) [OF st2(1)] unfolding undoes_def by auto
qed

text \<open>
  A pass that does not complete leaves the values and the entries it started from. It changes the
  table of sets only by marking the set as not binary.
\<close>

definition table_kept :: "sem_sys \<Rightarrow> sem_sys \<Rightarrow> bool" where
  "table_kept st st' \<longleftrightarrow> semmap st' = semmap st \<and> length (sem_arr st') = length (sem_arr st)
     \<and> map (\<lambda>sp. sp\<lparr>sem_binary := False\<rparr>) (sema st') = map (\<lambda>sp. sp\<lparr>sem_binary := False\<rparr>) (sema st)"

lemma table_kept_trans: "table_same st st1 \<Longrightarrow> table_kept st1 st2 \<Longrightarrow> table_kept st st2"
  by (simp add: table_same_def table_kept_def)

lemma table_kept_refl [simp]: "table_kept st st"
  by (simp add: table_kept_def)

lemma table_kept_sem [simp]: "table_kept st (upd_sem k f st') \<longleftrightarrow> table_kept st st'"
  by (simp add: table_kept_def upd_sem_def)

lemma table_kept_binary [simp]: "table_kept st (upd_set i (\<lambda>sp. sp\<lparr>sem_binary := False\<rparr>) st') \<longleftrightarrow> table_kept st st'"
proof -
  have "map g (xs[i := g (xs ! i)]) = map g xs" if "\<And>x. g (g x) = g x" for g and xs :: "semid_ds list"
    using that by (cases "i < length xs") (simp_all add: map_update list_update_beyond, metis list_update_id nth_map)
  then show ?thesis by (simp add: table_kept_def upd_set_def)
qed

text \<open>The pass stops here: \<open>st'\<close> is the state after \<open>semundo\<close>, sleeper counts apart.\<close>

lemma undoes_stop:
  assumes "undoes info slot idn base done_ops st vs es" "semaem info < 2 ^ 15"
    and st1: "st1 = semundo info slot idn base done_ops st"
    and st': "undo_same st1 st'" "sem_vals st' = sem_vals st1" "table_kept st1 st'"
  shows "undo_inv info st' \<and> sem_vals st' = vs \<and> sem_ents st' = es \<and> table_kept st st'"
proof -
  have u: "undo_inv info st1" "table_same st st1" "sem_vals st1 = vs" "sem_ents st1 = es"
    using semundo_undoes [OF assms(1,2)] st1 by simp_all
  show ?thesis
    using undo_same_view(1) [OF st'(1) u(1)] undo_same_view(2) [OF st'(1)] table_kept_trans [OF u(2) st'(3)] st'(2) u(3,4)
    by simp
qed

text \<open>
  The ways one operation can go: it is carried out, a test for zero succeeds, the undo entry is
  refused, or the operation cannot be done now, and then either the call fails or it waits.
\<close>

definition op_blocked :: "seminfo \<Rightarrow> sembuf \<Rightarrow> nat \<Rightarrow> nat \<Rightarrow> sem_outcome \<Rightarrow> bool" where
  "op_blocked info op k v out \<longleftrightarrow>
     sem_op op > 0 \<and> sem_op op + int v > int (semvmx info) \<and> out = SemErr ERANGE
   \<or> sem_op op < 0 \<and> int v < - sem_op op \<and> out = (if op_nowait op then SemErr EAGAIN else SemWaitN k)
   \<or> sem_op op = 0 \<and> v \<noteq> 0 \<and> out = (if op_nowait op then SemErr EAGAIN else SemWaitZ k)"

definition op_fits :: "seminfo \<Rightarrow> sembuf \<Rightarrow> nat \<Rightarrow> bool" where
  "op_fits info op v \<longleftrightarrow>
     (if sem_op op > 0 then sem_op op + int v \<le> int (semvmx info) else - sem_op op \<le> int v)"

lemma semop_loop_step:
  assumes run: "semop_loop info slot idn i binary done_ops (op # ops) st = (out, st')"
    and base: "sem_base (sema st ! i) = base"
  obtains (add) st1 st2 where "sem_op op \<noteq> 0" "op_fits info op (semval (sem_arr st ! (base + sem_num op)))"
      "semop_aoe info slot idn op st = (None, st1)" "undo_same st1 st2" "table_same st1 st2"
      "sem_vals st2 = sem_vals (sem_add (base + sem_num op) (sem_op op) st1)"
      "semop_loop info slot idn i binary (done_ops @ [op]) ops st2 = (out, st')"
    | (zero) "sem_op op = 0" "semval (sem_arr st ! (base + sem_num op)) = 0"
      "semop_loop info slot idn i binary (done_ops @ [op]) ops st = (out, st')"
    | (refused) e st1 where "semop_aoe info slot idn op st = (Some e, st1)"
      "st' = semundo info slot idn base done_ops st1" "out = SemErr e"
    | (blocked) st1 where "op_blocked info op (base + sem_num op) (semval (sem_arr st ! (base + sem_num op))) out"
      "st1 = semundo info slot idn base done_ops st" "undo_same st1 st'" "sem_vals st' = sem_vals st1" "table_kept st1 st'"
proof -
  let ?k = "base + sem_num op" and ?d = "sem_op op" and ?v = "semval (sem_arr st ! (base + sem_num op))"
  let ?u = "semundo info slot idn base done_ops st"
  obtain err st1 where aoe: "semop_aoe info slot idn op st = (err, st1)" by fastforce
  consider (pos) "?d > 0" | (neg) "?d < 0" | (nul) "?d = 0" by linarith
  then show thesis
  proof cases
    case pos
    show thesis
    proof (cases "?d + int ?v > int (semvmx info)")
      case True
      then have "out = SemErr ERANGE" "st' = ?u" using run pos base by (simp_all add: Let_def)
      then show thesis using blocked [of ?u] True pos by (simp add: op_blocked_def)
    next
      case False
      then have fits: "op_fits info op ?v" using pos by (simp add: op_fits_def)
      have run': "(case err of Some e \<Rightarrow> (SemErr e, semundo info slot idn base done_ops st1)
          | None \<Rightarrow> semop_loop info slot idn i binary (done_ops @ [op]) ops
              (semop_v_wake (?d = 1 \<and> binary) ?k (sem_add ?k ?d st1))) = (out, st')"
        using run pos base False aoe by (auto simp: Let_def split: option.split)
      then show thesis using refused [of _ st1] add [of st1 "semop_v_wake (?d = 1 \<and> binary) ?k (sem_add ?k ?d st1)"] fits pos aoe
        by (cases err) simp_all
    qed
  next
    case neg
    show thesis
    proof (cases "int ?v \<ge> - ?d")
      case True
      then have fits: "op_fits info op ?v" using neg by (simp add: op_fits_def)
      define st2 where "st2 = (if semval (sem_arr (sem_add ?k ?d st1) ! ?k) = 0 then sem_wake_z ?k (sem_add ?k ?d st1) else sem_add ?k ?d st1)"
      have s: "undo_same st1 st2" "table_same st1 st2" "sem_vals st2 = sem_vals (sem_add ?k ?d st1)"
        by (simp_all add: st2_def)
      have run': "(case err of Some e \<Rightarrow> (SemErr e, semundo info slot idn base done_ops st1)
          | None \<Rightarrow> semop_loop info slot idn i binary (done_ops @ [op]) ops st2) = (out, st')"
        using run neg base True aoe by (auto simp: Let_def st2_def split: option.split)
      then show thesis using refused [of _ st1] add [OF _ fits _ s] neg aoe by (cases err) simp_all
    next
      case False
      then show thesis
        using run neg base blocked [OF _ refl]
        by (cases "op_nowait op") (auto simp: Let_def op_blocked_def upd_sem_vals_same split: if_splits)
    qed
  next
    case nul
    then show thesis
      using run base zero blocked [OF _ refl]
      by (cases "?v = 0"; cases "op_nowait op") (auto simp: Let_def op_blocked_def upd_sem_vals_same split: if_splits)
  qed
qed

lemma semop_loop_incomplete:
  assumes "undoes info slot idn base done_ops st vs es" "semaem info < 2 ^ 15"
    "sem_base (sema st ! i) = base" "\<forall>op \<in> set ops. base + sem_num op < length (sem_arr st)"
    "semop_loop info slot idn i binary done_ops ops st = (out, st')" "out \<noteq> SemDone"
  shows "undo_inv info st' \<and> sem_vals st' = vs \<and> sem_ents st' = es \<and> table_kept st st'"
  using assms
proof (induction ops arbitrary: done_ops st)
  case (Cons op ops)
  note u = Cons.prems(1) and aem = Cons.prems(2)
  have k: "base + sem_num op < length (sem_arr st)" using Cons.prems(4) by simp
  have go_on: ?case
    if "undoes info slot idn base (done_ops @ [op]) st2 vs es" "table_same st st2"
      "semop_loop info slot idn i binary (done_ops @ [op]) ops st2 = (out, st')" for st2
    using Cons.IH [OF that(1) aem _ _ that(3) Cons.prems(6)] Cons.prems(3,4) that(2) table_kept_trans [OF that(2)]
    by (simp add: table_same_def)
  from Cons.prems(5,3) show ?case
  proof (cases rule: semop_loop_step)
    case (add st1 st2)
    then show ?thesis using go_on undoes_step [OF u aem k add(1,3-6)] by blast
  next
    case zero
    have "undoes info slot idn base (done_ops @ [op]) st vs es"
      using u zero(1) k by (auto simp: undoes_def no_undo_def)
    then show ?thesis using go_on zero(3) by simp
  next
    case (refused e st1)
    note r = undoes_refused [OF u aem refused(1)]
    then show ?thesis using undoes_stop [OF r(1) aem refl, of st'] refused(2) table_kept_trans [OF r(2)] by simp
  next
    case (blocked st1)
    then show ?thesis using undoes_stop [OF u aem blocked(2-5)] by simp
  qed
qed simp

section \<open>The effect of a pass that completes\<close>

definition op_total :: "nat \<Rightarrow> sembuf list \<Rightarrow> nat \<Rightarrow> int" where
  "op_total base ops k = sum_list (map sem_op (filter (\<lambda>op. base + sem_num op = k) ops))"

definition undo_total :: "sembuf list \<Rightarrow> nat \<Rightarrow> int" where
  "undo_total ops num = sum_list (map sem_op (filter (\<lambda>op. op_undo op \<and> sem_num op = num) ops))"

text \<open>How a sequence of operations changes the values and the undo entries.\<close>

definition ops_effect ::
  "seminfo \<Rightarrow> nat \<Rightarrow> int \<Rightarrow> nat \<Rightarrow> sembuf list \<Rightarrow> sem_sys \<Rightarrow> sem_sys \<Rightarrow> bool"
where
  "ops_effect info slot idn base ops st st' \<longleftrightarrow>
     table_same st st'
   \<and> (\<forall>k < length (sem_arr st). int (sem_vals st' ! k) = int (sem_vals st ! k) + op_total base ops k)
   \<and> (\<forall>t. t \<noteq> slot \<longrightarrow> sem_ents st' t = sem_ents st t)
   \<and> (3 * semaem info < 2 ^ 16 \<longrightarrow> (\<forall>n j. sem_adj st' slot j n =
        sem_adj st slot j n - (if j = idn then undo_total ops n else 0)))
   \<and> (\<forall>u \<in> set (sem_ents st' slot). u \<in> set (sem_ents st slot)
        \<or> un_id u = idn \<and> un_num u \<in> sem_num ` set ops)"

lemma ops_effect_Nil: "ops_effect info slot idn base [] st st"
  by (simp add: ops_effect_def op_total_def undo_total_def)

lemma ops_effect_Cons:
  assumes "ops_effect info slot idn base [op] st st1" "ops_effect info slot idn base ops st1 st2"
  shows "ops_effect info slot idn base (op # ops) st st2"
  using assms unfolding ops_effect_def
  by (auto simp: table_same_def op_total_def undo_total_def split: if_splits)

lemma op_effect:
  assumes inv: "undo_inv info st" and aem: "semaem info < 2 ^ 15" and op: "sem_op op \<noteq> 0"
    and k: "base + sem_num op < length (sem_arr st)"
    and fits: "op_fits info op (semval (sem_arr st ! (base + sem_num op)))"
    and bound: "\<forall>v \<in> set (sem_vals st). v \<le> semvmx info" "semvmx info < 2 ^ 16"
    and call: "semop_aoe info slot idn op st = (None, st1)"
    and st2: "undo_same st1 st2" "table_same st1 st2"
      "sem_vals st2 = sem_vals (sem_add (base + sem_num op) (sem_op op) st1)"
  shows "undo_inv info st2" "ops_effect info slot idn base [op] st st2"
    "\<forall>v \<in> set (sem_vals st2). v \<le> semvmx info"
proof -
  let ?k = "base + sem_num op" and ?v = "semval (sem_arr st ! (base + sem_num op))"
  have st1: "table_same st st1" "sem_vals st1 = sem_vals st" using semop_aoe_same [OF call] by simp_all
  have len: "length (sem_arr st1) = length (sem_arr st)" using st1(1) by (simp add: table_same_def)
  have "?v \<in> set (sem_vals st)" using k by (simp add: sem_vals_def)
  then have "?v \<le> semvmx info" using bound(1) by blast
  then have new: "int (u16 (int ?v + sem_op op)) = int ?v + sem_op op" "int ?v + sem_op op \<le> int (semvmx info)"
    using fits bound(2) by (auto simp: op_fits_def u16_id split: if_splits)
  have v2: "sem_vals st2 = (sem_vals st)[?k := u16 (int ?v + sem_op op)]"
    using st2(3) k len st1(2) by (simp add: sem_add_vals)
  show "\<forall>v \<in> set (sem_vals st2). v \<le> semvmx info"
    using bound(1) new set_update_subset_insert [of "sem_vals st" ?k "u16 (int ?v + sem_op op)"] unfolding v2 by auto
  have ents: "undo_inv info st1 \<and> (\<forall>t. t \<noteq> slot \<longrightarrow> sem_ents st1 t = sem_ents st t)
    \<and> (3 * semaem info < 2 ^ 16 \<longrightarrow> aoe_changed (sem_ents st slot) (sem_ents st1 slot) idn (sem_num op) (if op_undo op then sem_op op else 0))
    \<and> (\<forall>u \<in> set (sem_ents st1 slot). u \<in> set (sem_ents st slot) \<or> undo_at idn (sem_num op) u)"
  proof (cases "op_undo op")
    case True
    then have "semaoe info slot (sem_op op) idn (sem_num op) st = (None, st1)" using call by (simp add: semop_aoe_def)
    note a = semaoe_ok [OF inv aem op this]
    have "sem_ents st1 t = sem_ents st t" if "t \<noteq> slot" for t using fun_cong [OF a(5), of t] that by simp
    then show ?thesis using a(1) semaoe_upd_done(3,4) [OF undo_inv_ents [OF inv] aem op a(2,4)] True by simp
  next
    case False
    then show ?thesis using call inv by (simp add: semop_aoe_def aoe_changed_def)
  qed
  have same: "sem_ents st2 = sem_ents st1" using undo_same_view(2) [OF st2(1)] .
  show "undo_inv info st2" using undo_same_view(1) [OF st2(1)] ents by blast
  have "int (sem_vals st2 ! j) = int (sem_vals st ! j) + op_total base [op] j" if "j < length (sem_arr st)" for j
    using that new(1) by (auto simp: v2 nth_list_update op_total_def)
  then show "ops_effect info slot idn base [op] st st2"
    unfolding ops_effect_def same sem_adj_def
    using ents st1 st2(2) by (auto simp: table_same_def undo_total_def aoe_changed_def undo_at_def)
qed

lemma semop_loop_complete:
  assumes "undo_inv info st" "semaem info < 2 ^ 15" "\<forall>v \<in> set (sem_vals st). v \<le> semvmx info" "semvmx info < 2 ^ 16"
    "sem_base (sema st ! i) = base" "\<forall>op \<in> set ops. base + sem_num op < length (sem_arr st)"
    "semop_loop info slot idn i binary done_ops ops st = (SemDone, st')"
  shows "undo_inv info st' \<and> (\<forall>v \<in> set (sem_vals st'). v \<le> semvmx info) \<and> ops_effect info slot idn base ops st st'"
  using assms
proof (induction ops arbitrary: done_ops st)
  case Nil
  then show ?case by (simp add: ops_effect_Nil)
next
  case (Cons op ops)
  have k: "base + sem_num op < length (sem_arr st)" using Cons.prems(6) by simp
  have go_on: ?case
    if st2: "undo_inv info st2" "\<forall>v \<in> set (sem_vals st2). v \<le> semvmx info" "ops_effect info slot idn base [op] st st2"
      "semop_loop info slot idn i binary (done_ops @ [op]) ops st2 = (SemDone, st')" for st2
  proof -
    have "sema st2 = sema st" "length (sem_arr st2) = length (sem_arr st)"
      using st2(3) by (simp_all add: ops_effect_def table_same_def)
    then show ?thesis
      using Cons.IH [OF st2(1) Cons.prems(2) st2(2) Cons.prems(4) _ _ st2(4)] Cons.prems(5,6) ops_effect_Cons [OF st2(3)]
      by simp
  qed
  from Cons.prems(7,5) show ?case
  proof (cases rule: semop_loop_step)
    case (add st1 st2)
    note e = op_effect [OF Cons.prems(1,2) add(1) k add(2) Cons.prems(3,4) add(3-6)]
    then show ?thesis using go_on add(7) by blast
  next
    case zero
    have "ops_effect info slot idn base [op] st st"
      using zero(1) by (auto simp: ops_effect_def op_total_def undo_total_def)
    then show ?thesis using go_on zero(3) Cons.prems(1,3) by blast
  next
    case (blocked st1)
    then show ?thesis by (auto simp: op_blocked_def split: if_splits)
  qed simp
qed

section \<open>The system call\<close>

lemma semop_verify_range:
  "semop_verify sp cr ops = None \<Longrightarrow> op \<in> set ops \<Longrightarrow> sem_num op < sem_nsems sp"
  by (induction ops) (auto split: option.splits if_splits)

text \<open>The sets in use lie within the array of semaphores.\<close>

definition sets_fit :: "sem_sys \<Rightarrow> bool" where
  "sets_fit st \<longleftrightarrow>
     (\<forall>sp \<in> set (sema st). ipc_allocd (sem_perm sp) \<longrightarrow> sem_base sp + sem_nsems sp \<le> length (sem_arr st))"

lemma semconv_lock_Some:
  assumes "semconv_lock st s = Some i"
  shows "i = sem_index s" "i < length (sema st)" "ipc_allocd (sem_perm (sema st ! i))"
    "sem_sequ s = ipc_seq (sem_perm (sema st ! i))"
  using assms by (auto simp: semconv_lock_def Let_def split: if_splits)

lemma semconv_lock_range:
  assumes "semconv_lock st s = Some i" "sets_fit st" "n < sem_nsems (sema st ! i)"
  shows "sem_base (sema st ! i) + n < length (sem_arr st)"
proof -
  have "sema st ! i \<in> set (sema st)" using semconv_lock_Some(2) [OF assms(1)] by simp
  then show ?thesis using assms(2,3) semconv_lock_Some(3) [OF assms(1)] by (fastforce simp: sets_fit_def)
qed

text \<open>One pass of \<open>semop\<close>, up to the point where it would sleep.\<close>

lemma semop_check_pass:
  assumes "\<not> (again \<and> semconv st semid \<noteq> None)"
    "semop_loop info slot semid i (sem_binary (sema st ! i) \<and> sem_nsems (sema st ! i) = 1) [] ops st = (out, st1)"
  shows "semop_check info slot pid now semid i ops again [] st =
    (case out of SemDone \<Rightarrow> (Returned None, semop_finish pid now i ops st1)
     | SemErr e \<Rightarrow> (Returned (Some e), st1) | SemWaitN _ \<Rightarrow> (Asleep, st1) | SemWaitZ _ \<Rightarrow> (Asleep, st1))"
  using assms by (subst semop_check.simps) (auto split: sem_outcome.split)

lemma fold_upd_sem:
  assumes "\<And>op s. semval (f op s) = semval s"
  shows "undo_same st (fold (\<lambda>op. upd_sem (g op) (f op)) ops st') \<longleftrightarrow> undo_same st st'"
    "table_same st (fold (\<lambda>op. upd_sem (g op) (f op)) ops st') \<longleftrightarrow> table_same st st'"
    "sem_vals (fold (\<lambda>op. upd_sem (g op) (f op)) ops st') = sem_vals st'"
  by (induction ops arbitrary: st') (simp_all add: upd_sem_vals_same assms)

lemma semop_finish_same:
  "undo_same st (semop_finish pid now i ops st)" "sem_vals (semop_finish pid now i ops st) = sem_vals st"
  "length (sem_arr (semop_finish pid now i ops st)) = length (sem_arr st)"
  using fold_upd_sem(2) [of "\<lambda>_ s. s\<lparr>sempid := pid\<rparr>" st "\<lambda>op. sem_base (sema st ! i) + sem_num op" ops st]
  by (simp_all add: semop_finish_def fold_upd_sem table_same_def)

text \<open>
  A small system for examples: one set of two semaphores with the values 1 and 0, owned by user 7,
  room for ten undo entries in one undo structure.
\<close>

definition demo_info :: seminfo where
  "demo_info = \<lparr>semmni = 1, semmns = 2, semmnu = 1, semmsl = 2, semopm = 10, semume = 10,
                semvmx = 20, semaem = 10\<rparr>"

definition demo_sem :: sem_sys where
  "demo_sem =
     \<lparr>sema = [\<lparr>sem_perm = \<lparr>ipc_uid = 7, ipc_gid = 1, ipc_cuid = 7, ipc_cgid = 1, ipc_mode = 0x8180, ipc_seq = 3, ipc_key = 99\<rparr>,
               sem_base = 0, sem_nsems = 2, sem_otime = 0, sem_ctime = 0, sem_binary = True\<rparr>],
      sem_arr = [\<lparr>semval = 1, sempid = 0, semncnt = 0, semzcnt = 0\<rparr>, \<lparr>semval = 0, sempid = 0, semncnt = 0, semzcnt = 0\<rparr>],
      semmap = \<lparr>mh_free = 2, mh_want = 0, mh_nam = ''rmallocmap'', mh_size = 2, mh_map = []\<rparr>,
      sem_undo = (\<lambda>_. None), semu = (\<lambda>_. []), semunp = [], semfup = [0], sem_wakes = []\<rparr>"

definition demo_cred :: cred where
  "demo_cred = \<lparr>cr_ref = 1, cr_uid = 7, cr_gid = 1, cr_ruid = 7, cr_rgid = 1, cr_suid = 7, cr_sgid = 1, cr_groups = []\<rparr>"

definition demo_ops :: "int \<Rightarrow> sembuf list" where
  "demo_ops d = [\<lparr>sem_num = 0, sem_op = -1, sem_flg = 0x1000\<rparr>, \<lparr>sem_num = 1, sem_op = d, sem_flg = 0x1800\<rparr>]"

lemma demo_sem_ok:
  "undo_inv demo_info demo_sem" "sets_fit demo_sem" "sem_vals demo_sem = [1, 0]"
  "semaem demo_info = 10" "semvmx demo_info = 20" "length (sem_arr demo_sem) = 2"
  by (simp_all add: undo_inv_def ents_ok_def demo_info_def demo_sem_def sets_fit_def sem_vals_def)

lemma demo_semop:
  "fst (semop demo_info 5 100 0 demo_cred 0x30000 2 (Some (demo_ops (-1))) [] demo_sem) = Returned (Some EAGAIN)"
  "fst (semop demo_info 5 100 0 demo_cred 0x30000 2 (Some (demo_ops 4)) [] demo_sem) = Returned None"
  by code_simp+

text \<open>
  C4: A call of \<open>semop\<close> that fails or goes to sleep has changed no semaphore value and no undo
  entry of any process, whichever of its operations it had already carried out.
\<close>

theorem semop_atomic:
  assumes inv: "undo_inv info st" and aem: "semaem info < 2 ^ 15"
    and vals: "\<forall>v \<in> set (sem_vals st). v < 2 ^ 16" and fit: "sets_fit st"
    and call: "semop info slot pid now cr semid nsops sops [] st = (ret, st')" and ret: "ret \<noteq> Returned None"
  shows "sem_vals st' = sem_vals st \<and> sem_ents st' = sem_ents st \<and> undo_inv info st'"
proof (cases "\<exists>ops i. nsops \<le> semopm info \<and> nsops \<noteq> 0 \<and> sops = Some ops \<and> semconv_lock st semid = Some i
    \<and> semop_verify (sema st ! i) cr ops = None")
  case False
  then have "st' = st" using call by (auto simp: semop_def split: if_splits option.splits)
  then show ?thesis using inv by simp
next
  case True
  then obtain ops i where t: "nsops \<le> semopm info" "nsops \<noteq> 0" "sops = Some ops" "semconv_lock st semid = Some i"
    "semop_verify (sema st ! i) cr ops = None" by blast
  obtain out st1 where run:
    "semop_loop info slot semid i (sem_binary (sema st ! i) \<and> sem_nsems (sema st ! i) = 1) [] ops st = (out, st1)"
    by fastforce
  have st': "(case out of SemDone \<Rightarrow> (Returned None, semop_finish pid now i ops st1)
     | SemErr e \<Rightarrow> (Returned (Some e), st1) | SemWaitN _ \<Rightarrow> (Asleep, st1) | SemWaitZ _ \<Rightarrow> (Asleep, st1)) = (ret, st')"
    using call t semop_check_pass [OF _ run, of False] by (simp add: semop_def)
  then have "out \<noteq> SemDone" "st' = st1" using ret by (auto split: sem_outcome.splits)
  moreover have "\<forall>op \<in> set ops. sem_base (sema st ! i) + sem_num op < length (sem_arr st)"
    using semop_verify_range [OF t(5)] semconv_lock_range [OF t(4) fit] by blast
  ultimately show ?thesis
    using semop_loop_incomplete [OF undoes_start [OF inv vals] aem refl _ run] by simp
qed

theorem semop_atomic_witness:
  "fst (semop demo_info 5 100 0 demo_cred 0x30000 2 (Some (demo_ops (-1))) [] demo_sem) = Returned (Some EAGAIN)
   \<and> sem_vals (snd (semop demo_info 5 100 0 demo_cred 0x30000 2 (Some (demo_ops (-1))) [] demo_sem)) = [1, 0]"
  using semop_atomic [OF demo_sem_ok(1) _ _ demo_sem_ok(2) prod.collapse [symmetric],
      of 5 100 0 demo_cred "0x30000" 2 "Some (demo_ops (-1))"] demo_semop(1) demo_sem_ok
  by simp

text \<open>
  A pass touches only the semaphores its operations name: of these it changes the value and wakes
  sleepers, and it leaves the last process recorded alone.
\<close>

definition sem_calmer :: "sem_ent \<Rightarrow> sem_ent \<Rightarrow> bool" where
  "sem_calmer s s' \<longleftrightarrow> sempid s' = sempid s \<and> semncnt s' \<le> semncnt s \<and> semzcnt s' \<le> semzcnt s"

definition touches_only :: "nat set \<Rightarrow> sem_sys \<Rightarrow> sem_sys \<Rightarrow> bool" where
  "touches_only K st st' \<longleftrightarrow> length (sem_arr st') = length (sem_arr st) \<and>
     (\<forall>k < length (sem_arr st). if k \<in> K then sem_calmer (sem_arr st ! k) (sem_arr st' ! k) else sem_arr st' ! k = sem_arr st ! k)"

lemma touches_only_refl [simp]: "touches_only K st st"
  by (simp add: touches_only_def sem_calmer_def)

lemma touches_only_trans:
  "touches_only K st st1 \<Longrightarrow> touches_only L st1 st2 \<Longrightarrow> K \<subseteq> M \<Longrightarrow> L \<subseteq> M \<Longrightarrow> touches_only M st st2"
proof -
  assume t: "touches_only K st st1" "touches_only L st1 st2" and m: "K \<subseteq> M" "L \<subseteq> M"
  have c: "sem_calmer s s1 \<Longrightarrow> sem_calmer s1 s2 \<Longrightarrow> sem_calmer s s2" "sem_calmer s s" for s s1 s2
    by (auto simp: sem_calmer_def)
  have "if k \<in> M then sem_calmer (sem_arr st ! k) (sem_arr st2 ! k) else sem_arr st2 ! k = sem_arr st ! k"
    if k: "k < length (sem_arr st)" for k
  proof -
    have "if k \<in> K then sem_calmer (sem_arr st ! k) (sem_arr st1 ! k) else sem_arr st1 ! k = sem_arr st ! k"
      "if k \<in> L then sem_calmer (sem_arr st1 ! k) (sem_arr st2 ! k) else sem_arr st2 ! k = sem_arr st1 ! k"
      using t k by (simp_all add: touches_only_def)
    then show ?thesis using m c by (cases "k \<in> K"; cases "k \<in> L") (auto simp: subset_iff)
  qed
  then show ?thesis using t by (simp add: touches_only_def)
qed

lemma touches_upd_sem:
  "sem_calmer (sem_arr st ! k) (f (sem_arr st ! k)) \<Longrightarrow> touches_only {k} st (upd_sem k f st)"
  by (auto simp: touches_only_def upd_sem_def nth_list_update)

lemma touches_log [simp]: "touches_only K st (log_wake w st') \<longleftrightarrow> touches_only K st st'"
  by (simp add: touches_only_def log_wake_def)

lemma touches_steps:
  "touches_only {k} st (sem_add k d st)" "touches_only {k} st (sem_wake_z k st)" "touches_only {k} st (semop_v_wake b k st)"
proof -
  show "touches_only {k} st (sem_add k d st)"
    unfolding sem_add_def by (rule touches_upd_sem) (simp add: sem_calmer_def)
  show "touches_only {k} st (sem_wake_z k st)"
    unfolding sem_wake_z_def by (simp add: touches_upd_sem sem_calmer_def)
  define st1 where "st1 = (if semncnt (sem_arr st ! k) \<noteq> 0 then
       (if b then log_wake (SignalN k) (upd_sem k (\<lambda>s. s\<lparr>semncnt := semncnt s - 1\<rparr>) st)
        else log_wake (BcastN k) (upd_sem k (\<lambda>s. s\<lparr>semncnt := 0\<rparr>) st)) else st)"
  have "touches_only {k} st st1" by (simp add: st1_def touches_upd_sem sem_calmer_def)
  moreover have "touches_only {k} st1 (semop_v_wake b k st)"
    unfolding semop_v_wake_def st1_def [symmetric] Let_def by (simp add: touches_upd_sem sem_calmer_def)
  ultimately show "touches_only {k} st (semop_v_wake b k st)" by (rule touches_only_trans) simp_all
qed

lemma touches_aoe: "semop_aoe info slot idn op st = (err, st1) \<Longrightarrow> sem_arr st1 = sem_arr st"
  by (auto simp: semop_aoe_def semaoe_def sem_undo_get_def Let_def split: if_splits option.splits prod.splits list.splits)

lemma semop_loop_touches:
  "semop_loop info slot idn i binary done_ops ops st = (SemDone, st1) \<Longrightarrow>
   touches_only ((\<lambda>op. sem_base (sema st ! i) + sem_num op) ` set ops) st st1"
proof (induction ops arbitrary: done_ops st)
  case (Cons op ops)
  let ?k = "sem_base (sema st ! i) + sem_num op"
  have next_op: "touches_only ((\<lambda>op. sem_base (sema st ! i) + sem_num op) ` set (op # ops)) st st1"
    if "touches_only {?k} st st2" "table_same st st2" "semop_loop info slot idn i binary ds ops st2 = (SemDone, st1)" for st2 ds
    using touches_only_trans [OF that(1) Cons.IH [OF that(3)]] that(2) by (auto simp: table_same_def)
  obtain err sta where aoe: "semop_aoe info slot idn op st = (err, sta)" by fastforce
  have start: "touches_only {?k} st sta" using touches_aoe [OF aoe] by (simp add: touches_only_def sem_calmer_def)
  let ?sta = "sem_add ?k (sem_op op) sta"
  have add: "touches_only {?k} st ?sta" "table_same st ?sta"
    using touches_only_trans [OF start touches_steps(1)] semop_aoe_same(1) [OF aoe] by simp_all
  have w: "touches_only {?k} st (semop_v_wake b ?k ?sta)" "touches_only {?k} st (sem_wake_z ?k ?sta)" for b
    using touches_only_trans [OF add(1) touches_steps(3)] touches_only_trans [OF add(1) touches_steps(2)] by simp_all
  consider (pos) "sem_op op > 0" | (neg) "sem_op op < 0" | (zero) "sem_op op = 0" by linarith
  then show ?case
  proof cases
    case pos
    then have "semop_loop info slot idn i binary (done_ops @ [op]) ops (semop_v_wake (sem_op op = 1 \<and> binary) ?k ?sta) = (SemDone, st1)"
      using Cons.prems aoe by (auto simp: Let_def split: if_splits option.splits)
    then show ?thesis using add(2) by (intro next_op [OF w(1)]) simp_all
  next
    case neg
    let ?st2 = "if semval (sem_arr ?sta ! ?k) = 0 then sem_wake_z ?k ?sta else ?sta"
    have "semop_loop info slot idn i binary (done_ops @ [op]) ops ?st2 = (SemDone, st1)"
      using neg Cons.prems aoe by (auto simp: Let_def split: if_splits option.splits)
    moreover have "touches_only {?k} st ?st2" "table_same st ?st2" using w(2) add by simp_all
    ultimately show ?thesis using next_op by blast
  next
    case zero
    then have "semop_loop info slot idn i binary (done_ops @ [op]) ops st = (SemDone, st1)"
      using Cons.prems by (auto simp: Let_def split: if_splits)
    then show ?thesis by (intro next_op) simp_all
  qed
qed simp

lemma semop_finish_arr:
  fixes ops pid st i
  defines "K \<equiv> (\<lambda>op. sem_base (sema st ! i) + sem_num op) ` set ops"
  shows "length (sem_arr (semop_finish pid now i ops st)) = length (sem_arr st)"
    "k < length (sem_arr st) \<Longrightarrow> sem_arr (semop_finish pid now i ops st) ! k = (if k \<in> K then (sem_arr st ! k)\<lparr>sempid := pid\<rparr> else sem_arr st ! k)"
    "sema (semop_finish pid now i ops st) = (sema st)[i := (sema st ! i)\<lparr>sem_otime := now\<rparr>]"
    "semmap (semop_finish pid now i ops st) = semmap st"
proof -
  let ?f = "\<lambda>b ops. fold (\<lambda>op. upd_sem (b + sem_num op) (\<lambda>s. s\<lparr>sempid := pid\<rparr>)) ops"
  have t: "table_same st (?f b ops st)" for b by (simp add: fold_upd_sem)
  have "k < length (sem_arr st) \<Longrightarrow> sem_arr (?f b ops st) ! k = (if k \<in> (\<lambda>op. b + sem_num op) ` set ops then (sem_arr st ! k)\<lparr>sempid := pid\<rparr> else sem_arr st ! k)" for b
  proof (induction ops arbitrary: st)
    case (Cons op ops)
    let ?st = "upd_sem (b + sem_num op) (\<lambda>s. s\<lparr>sempid := pid\<rparr>) st"
    have "sem_arr ?st ! k = (if k = b + sem_num op then (sem_arr st ! k)\<lparr>sempid := pid\<rparr> else sem_arr st ! k)"
      using Cons.prems by (simp add: upd_sem_def)
    moreover have "k < length (sem_arr ?st)" using Cons.prems by (simp add: upd_sem_def)
    ultimately show ?case using Cons.IH [of ?st] by auto
  qed simp
  then show "k < length (sem_arr st) \<Longrightarrow> sem_arr (semop_finish pid now i ops st) ! k = (if k \<in> K then (sem_arr st ! k)\<lparr>sempid := pid\<rparr> else sem_arr st ! k)"
    by (simp add: semop_finish_def upd_set_def K_def)
  show "length (sem_arr (semop_finish pid now i ops st)) = length (sem_arr st)"
    "sema (semop_finish pid now i ops st) = (sema st)[i := (sema st ! i)\<lparr>sem_otime := now\<rparr>]"
    "semmap (semop_finish pid now i ops st) = semmap st"
    using t by (simp_all add: semop_finish_def upd_set_def table_same_def)
qed



end
