(* ===== verification/Sem_Inv.thy ===== *)
theory Sem_Inv
  imports Sem_Op
begin

text \<open>
  The invariant of the semaphore module and that every operation keeps it: the undo structures are
  in order, every value is within its limit, the sets in use hold disjoint ranges of the array
  that the resource map does not also list as free, keys and identifiers are unique, and every
  undo entry belongs to a semaphore of a set in use. \<open>sem_step\<close> is the module as a transition
  system; its reachable states satisfy the invariant.
\<close>

section \<open>Identifiers\<close>

lemma sem_index_mod: "sem_index s = nat (s mod 2 ^ 16)"
proof -
  have "(0xffff :: int) = mask 16" by (simp add: mask_eq_exp_minus_1)
  then have "s AND 0xffff = take_bit 16 s" by (simp add: take_bit_eq_mask)
  then show ?thesis by (simp add: sem_index_def take_bit_eq_mod)
qed

lemma sem_sequ_mod: "sem_sequ s = nat (s div 2 ^ 16 mod 2 ^ 15)"
proof -
  have "(0x7fff :: int) = mask 15" by (simp add: mask_eq_exp_minus_1)
  then have "drop_bit 16 s AND 0x7fff = take_bit 15 (drop_bit 16 s)" by (simp add: take_bit_eq_mask)
  then show ?thesis by (simp add: sem_sequ_def take_bit_eq_mod drop_bit_eq_div)
qed

lemma sem_mkid_eq: "sem_mkid sq i = int sq * 2 ^ 16 + int i"
  by (simp add: sem_mkid_def push_bit_eq_mult)

definition sem_id_ok :: "nat \<Rightarrow> nat \<Rightarrow> bool" where
  "sem_id_ok sq i \<longleftrightarrow> sq \<le> 0x7fff \<and> i \<le> 0xffff"

lemma sem_index_mkid: "i \<le> 0xffff \<Longrightarrow> sem_index (sem_mkid sq i) = i"
  by (simp add: sem_index_mod sem_mkid_eq)

lemma sem_sequ_mkid: "sem_id_ok sq i \<Longrightarrow> sem_sequ (sem_mkid sq i) = sq"
  by (simp add: sem_sequ_mod sem_mkid_eq sem_id_ok_def)

interpretation sem_ids: ipc_ids sem_mkid sem_index sem_sequ sem_next_seq sem_id_ok
proof
  fix s i assume ok: "sem_id_ok s i"
  then show "sem_index (sem_mkid s i) = i" by (simp add: sem_index_mkid sem_id_ok_def)
  show "sem_sequ (sem_mkid s i) = s" using ok by (rule sem_sequ_mkid)
  show "sem_id_ok (sem_next_seq (sem_mkid s i) s) i" "sem_next_seq (sem_mkid s i) s \<noteq> s"
    using ok by (auto simp: sem_next_seq_def sem_sequ_mkid) (simp_all add: sem_id_ok_def)
qed

lemma semconv_lock_conv: "semconv_lock st s = ipc_conv sem_index sem_sequ (sem_perms st) s"
  by (auto simp: semconv_lock_def ipc_conv_def sem_perms_def Let_def)

lemma sem_mkid_sequ_index:
  assumes "0 \<le> s" "s < 2 ^ 31"
  shows "sem_mkid (sem_sequ s) (sem_index s) = s"
proof -
  have "0 \<le> s div 2 ^ 16" "s div 2 ^ 16 < 2 ^ 15" using assms by (simp_all add: pos_imp_zdiv_nonneg_iff)
  then have "s div 2 ^ 16 mod 2 ^ 15 = s div 2 ^ 16" by (rule mod_pos_pos_trivial)
  moreover have "s div 2 ^ 16 * 2 ^ 16 + s mod 2 ^ 16 = s" by (rule div_mult_mod_eq)
  ultimately show ?thesis using \<open>0 \<le> s div 2 ^ 16\<close> unfolding sem_mkid_eq sem_sequ_mod sem_index_mod by simp
qed

section \<open>The invariant\<close>

definition sem_own :: "sem_sys \<Rightarrow> nat \<Rightarrow> (nat \<times> nat) option" where
  "sem_own st i =
     (if i < length (sema st) \<and> ipc_allocd (sem_perm (sema st ! i))
      then Some (sem_base (sema st ! i) + 1, sem_nsems (sema st ! i)) else None)"

text \<open>\<open>num\<close> is a semaphore of the set in use that has the identifier \<open>idn\<close>.\<close>

definition sem_live :: "sem_sys \<Rightarrow> int \<Rightarrow> nat \<Rightarrow> bool" where
  "sem_live st idn num \<longleftrightarrow>
     (\<exists>i < length (sema st). ipc_allocd (sem_perm (sema st ! i)) \<and> num < sem_nsems (sema st ! i)
        \<and> idn = sem_mkid (ipc_seq (sem_perm (sema st ! i))) i)"

definition sem_tab_wf :: "sem_sys \<Rightarrow> bool" where
  "sem_tab_wf st \<longleftrightarrow>
     rmap_wf (semmap st) \<and> owned_ok (rm_space (semmap st)) (sem_own st)
   \<and> rm_space (semmap st) \<subseteq> {1 .. length (sem_arr st)}
   \<and> (\<forall>i a n. sem_own st i = Some (a, n) \<longrightarrow> a + n \<le> length (sem_arr st) + 1)
   \<and> keys_distinct (sem_perms st) \<and> length (sema st) \<le> 0x10000
   \<and> (\<forall>i < length (sema st). ipc_seq (sem_perm (sema st ! i)) \<le> 0x7fff)"

definition sem_wf :: "seminfo \<Rightarrow> sem_sys \<Rightarrow> bool" where
  "sem_wf info st \<longleftrightarrow>
     undo_inv info st \<and> (\<forall>v \<in> set (sem_vals st). v \<le> semvmx info) \<and> sem_tab_wf st
   \<and> (\<forall>slot. \<forall>u \<in> set (sem_ents st slot). sem_live st (un_id u) (un_num u))"

text \<open>The limits of the module are within the widths of the fields they bound.\<close>

definition seminfo_ok :: "seminfo \<Rightarrow> bool" where
  "seminfo_ok info \<longleftrightarrow> semvmx info < 2 ^ 16 \<and> semaem info < 2 ^ 15 \<and> semmsl info < 2 ^ 16"

text \<open>The fields of a set that the invariant speaks of.\<close>

definition sem_core :: "semid_ds \<Rightarrow> nat \<times> nat \<times> bool \<times> nat \<times> int" where
  "sem_core sp = (sem_base sp, sem_nsems sp, ipc_allocd (sem_perm sp), ipc_seq (sem_perm sp), ipc_key (sem_perm sp))"

definition core_same :: "sem_sys \<Rightarrow> sem_sys \<Rightarrow> bool" where
  "core_same st st' \<longleftrightarrow> map sem_core (sema st') = map sem_core (sema st) \<and> semmap st' = semmap st
     \<and> length (sem_arr st') = length (sem_arr st)"

lemma core_same_nth:
  assumes "core_same st st'"
  shows "length (sema st') = length (sema st)"
    "i < length (sema st) \<Longrightarrow> sem_core (sema st' ! i) = sem_core (sema st ! i)"
proof -
  have m: "map sem_core (sema st') = map sem_core (sema st)" using assms by (simp add: core_same_def)
  then show l: "length (sema st') = length (sema st)" by (metis length_map)
  show "i < length (sema st) \<Longrightarrow> sem_core (sema st' ! i) = sem_core (sema st ! i)"
    using m l by (metis nth_map)
qed

lemma core_same_own:
  assumes "core_same st st'" shows "sem_own st' = sem_own st" "sem_live st' = sem_live st"
  using core_same_nth [OF assms] by (auto simp: sem_own_def sem_live_def sem_core_def fun_eq_iff)

lemma core_same_tab:
  assumes "core_same st st'" "sem_tab_wf st" shows "sem_tab_wf st'"
proof -
  note c = core_same_nth [OF assms(1)]
  have "keys_distinct (sem_perms st')"
    using assms(2) c by (auto simp: sem_tab_wf_def keys_distinct_def sem_perms_def sem_core_def)
  moreover have "\<forall>i < length (sema st'). ipc_seq (sem_perm (sema st' ! i)) \<le> 0x7fff"
    using assms(2) c by (simp add: sem_tab_wf_def sem_core_def)
  ultimately show ?thesis
    using assms c(1) core_same_own(1) [OF assms(1)] by (simp add: sem_tab_wf_def core_same_def)
qed

lemma table_same_core: "table_same st st' \<Longrightarrow> core_same st st'"
  by (simp add: table_same_def core_same_def)

lemma table_kept_core: "table_kept st st' \<Longrightarrow> core_same st st'"
proof -
  have c: "sem_core sp = sem_core (sp\<lparr>sem_binary := False\<rparr>)" for sp by (simp add: sem_core_def)
  assume k: "table_kept st st'"
  then have "map sem_core (map (\<lambda>sp. sp\<lparr>sem_binary := False\<rparr>) (sema st')) = map sem_core (map (\<lambda>sp. sp\<lparr>sem_binary := False\<rparr>) (sema st))"
    by (simp add: table_kept_def)
  then have "map sem_core (sema st') = map sem_core (sema st)" by (simp add: c [symmetric] comp_def)
  then show ?thesis using k by (simp add: core_same_def table_kept_def)
qed

lemma core_same_upd_set:
  assumes "i < length (sema st)" "sem_core (f (sema st ! i)) = sem_core (sema st ! i)"
  shows "core_same st (upd_set i f st)"
  using assms by (simp add: core_same_def upd_set_def map_update) (metis list_update_id nth_map)

lemma core_same_trans: "core_same st st1 \<Longrightarrow> core_same st1 st2 \<Longrightarrow> core_same st st2"
  by (simp add: core_same_def)

lemma core_same_refl [simp]: "core_same st st"
  by (simp add: core_same_def)

text \<open>An operation that changes only values, sleepers and undo entries keeps the invariant.\<close>

lemma sem_wf_core:
  assumes "sem_wf info st" "core_same st st'" "undo_inv info st'" "\<forall>v \<in> set (sem_vals st'). v \<le> semvmx info"
    "\<And>slot u. u \<in> set (sem_ents st' slot) \<Longrightarrow> sem_live st (un_id u) (un_num u)"
  shows "sem_wf info st'"
  using assms core_same_tab [OF assms(2)] core_same_own(2) [OF assms(2)] by (simp add: sem_wf_def)

lemma sem_wf_quiet:
  assumes "sem_wf info st" "core_same st st'" "undo_same st st'" "sem_vals st' = sem_vals st"
  shows "sem_wf info st'"
proof (rule sem_wf_core [OF assms(1,2)])
  show "undo_inv info st'" using assms(1) undo_same_view(1) [OF assms(3)] by (simp add: sem_wf_def)
  show "\<forall>v \<in> set (sem_vals st'). v \<le> semvmx info" using assms(1,4) by (simp add: sem_wf_def)
  show "u \<in> set (sem_ents st' slot) \<Longrightarrow> sem_live st (un_id u) (un_num u)" for slot u
    using assms(1) undo_same_view(2) [OF assms(3)] by (simp add: sem_wf_def)
qed

lemma sem_wf_live: "sem_wf info st \<Longrightarrow> u \<in> set (sem_ents st slot) \<Longrightarrow> sem_live st (un_id u) (un_num u)"
  unfolding sem_wf_def by blast

lemma sem_wf_parts:
  assumes "sem_wf info st"
  shows "undo_inv info st" "\<forall>v \<in> set (sem_vals st). v \<le> semvmx info" "sem_tab_wf st"
  using assms by (simp_all add: sem_wf_def)

lemma sem_wf_sets_fit:
  assumes "sem_wf info st" shows "sets_fit st"
  unfolding sets_fit_def
proof (intro ballI impI)
  fix sp assume "sp \<in> set (sema st)" "ipc_allocd (sem_perm sp)"
  then obtain i where "i < length (sema st)" "sp = sema st ! i" "sem_own st i = Some (sem_base sp + 1, sem_nsems sp)"
    by (auto simp: in_set_conv_nth sem_own_def)
  moreover have "\<forall>i a n. sem_own st i = Some (a, n) \<longrightarrow> a + n \<le> length (sem_arr st) + 1"
    using assms by (simp add: sem_wf_def sem_tab_wf_def)
  ultimately show "sem_base sp + sem_nsems sp \<le> length (sem_arr st)" by fastforce
qed

section \<open>semop keeps the invariant\<close>

definition semid_range :: "int \<Rightarrow> bool" where
  "semid_range s \<longleftrightarrow> 0 \<le> s \<and> s < 2 ^ 31"

lemma semconv_lock_live:
  assumes "semconv_lock st s = Some i" "semid_range s" "num < sem_nsems (sema st ! i)"
  shows "sem_live st s num"
  using semconv_lock_Some [OF assms(1)] sem_mkid_sequ_index [of s] assms(2,3)
  by (auto simp: sem_live_def semid_range_def intro!: exI [of _ i])

lemma semop_finish_core:
  assumes "i < length (sema st)" shows "core_same st (semop_finish pid now i ops st)"
proof -
  let ?st = "fold (\<lambda>op. upd_sem (sem_base (sema st ! i) + sem_num op) (\<lambda>s. s\<lparr>sempid := pid\<rparr>)) ops st"
  have t: "table_same st ?st" by (simp add: fold_upd_sem)
  then have "core_same ?st (semop_finish pid now i ops st)"
    unfolding semop_finish_def using assms by (intro core_same_upd_set) (simp_all add: table_same_def sem_core_def)
  then show ?thesis using table_same_core [OF t] core_same_trans by blast
qed

lemma semop_check_wf:
  assumes wf: "sem_wf info st" and info: "seminfo_ok info"
    and i: "semconv_lock st semid = Some i" "semid_range semid" "\<forall>op \<in> set ops. sem_num op < sem_nsems (sema st ! i)"
    and call: "semop_check info slot pid now semid i ops again [] st = (ret, st')"
  shows "sem_wf info st'"
proof -
  let ?base = "sem_base (sema st ! i)"
  obtain out st1 where run:
    "semop_loop info slot semid i (sem_binary (sema st ! i) \<and> sem_nsems (sema st ! i) = 1) [] ops st = (out, st1)"
    by fastforce
  have "semconv st semid = None" using semconv_lock_Some [OF i(1)] by (simp add: semconv_def Let_def)
  then have st': "(case out of SemDone \<Rightarrow> (Returned None, semop_finish pid now i ops st1)
     | SemErr e \<Rightarrow> (Returned (Some e), st1) | SemWaitN _ \<Rightarrow> (Asleep, st1) | SemWaitZ _ \<Rightarrow> (Asleep, st1)) = (ret, st')"
    using call semop_check_pass [OF _ run, of again] by simp
  have inv: "undo_inv info st" and v: "\<forall>v \<in> set (sem_vals st). v \<le> semvmx info"
    and live: "\<And>slot u. u \<in> set (sem_ents st slot) \<Longrightarrow> sem_live st (un_id u) (un_num u)"
    using wf by (auto simp: sem_wf_def)
  have k: "\<forall>op \<in> set ops. ?base + sem_num op < length (sem_arr st)"
    using i(3) semconv_lock_range [OF i(1) sem_wf_sets_fit [OF wf]] by blast
  have lim: "semaem info < 2 ^ 15" "semvmx info < 2 ^ 16" using info by (simp_all add: seminfo_ok_def)
  show ?thesis
  proof (cases "out = SemDone")
    case True
    then have e: "undo_inv info st1" "\<forall>v \<in> set (sem_vals st1). v \<le> semvmx info" "ops_effect info slot semid ?base ops st st1"
      using semop_loop_complete [OF inv lim(1) v lim(2) refl k] run by simp_all
    have "sem_live st (un_id u) (un_num u)" if "u \<in> set (sem_ents st1 t)" for t u
      using that e(3) live semconv_lock_live [OF i(1,2)] i(3)
      by (cases "t = slot") (auto simp: ops_effect_def)
    then have wf1: "sem_wf info st1"
      using sem_wf_core [OF wf _ e(1,2)] e(3) table_same_core by (auto simp: ops_effect_def)
    have "sema st1 = sema st" using e(3) by (simp add: ops_effect_def table_same_def)
    then have "core_same st1 (semop_finish pid now i ops st1)"
      using semconv_lock_Some(2) [OF i(1)] by (intro semop_finish_core) simp
    then have "sem_wf info (semop_finish pid now i ops st1)"
      using sem_wf_quiet [OF wf1 _ semop_finish_same(1,2)] by blast
    then show ?thesis using st' True by simp
  next
    case False
    have "\<forall>v \<in> set (sem_vals st). v < 2 ^ 16" using v lim(2) by auto
    then have e: "undo_inv info st1" "sem_vals st1 = sem_vals st" "sem_ents st1 = sem_ents st" "table_kept st st1"
      using semop_loop_incomplete [OF undoes_start [OF inv] lim(1) refl k run False] by simp_all
    have "st' = st1" using st' False by (auto split: sem_outcome.splits)
    then show ?thesis
      using sem_wf_core [OF wf table_kept_core [OF e(4)] e(1)] v live by (simp add: e(2,3))
  qed
qed

lemma semop_wf:
  assumes "sem_wf info st" "seminfo_ok info" "semid_range semid"
    and call: "semop info slot pid now cr semid nsops sops [] st = (ret, st')"
  shows "sem_wf info st'"
proof (cases "\<exists>ops i. nsops \<le> semopm info \<and> nsops \<noteq> 0 \<and> sops = Some ops \<and> semconv_lock st semid = Some i
    \<and> semop_verify (sema st ! i) cr ops = None")
  case False
  then have "st' = st" using call by (auto simp: semop_def split: if_splits option.splits)
  then show ?thesis using assms(1) by simp
next
  case True
  then obtain ops i where t: "nsops \<le> semopm info" "nsops \<noteq> 0" "sops = Some ops" "semconv_lock st semid = Some i"
    "semop_verify (sema st ! i) cr ops = None" by blast
  then have "semop_check info slot pid now semid i ops False [] st = (ret, st')" using call by (simp add: semop_def)
  then show ?thesis using semop_check_wf [OF assms(1,2) t(4) assms(3)] semop_verify_range [OF t(5)] by blast
qed

section \<open>semexit keeps the invariant\<close>

lemma semexit_ent_same:
  "undo_same st (semexit_ent info u st')  \<longleftrightarrow> undo_same st st'"
  "table_same st (semexit_ent info u st') \<longleftrightarrow> table_same st st'"
  by (simp_all add: semexit_ent_def Let_def split: option.split)

lemma semexit_ent_eq:
  assumes "semconv_lock st (un_id u) = Some i" "k = sem_base (sema st ! i) + un_num u"
    "w = int (semval (sem_arr st ! k)) + un_aoe u" "0 \<le> w" "w \<le> int (semvmx info)"
  shows "sem_vals (semexit_ent info u st) = (sem_vals st)[k := u16 w]"
  using assms by (simp add: semexit_ent_def Let_def upd_sem_vals)

lemma semexit_ent_skip:
  assumes "semconv_lock st (un_id u) = None \<or>
    (\<exists>i. semconv_lock st (un_id u) = Some i
      \<and> \<not> (0 \<le> int (semval (sem_arr st ! (sem_base (sema st ! i) + un_num u))) + un_aoe u
           \<and> int (semval (sem_arr st ! (sem_base (sema st ! i) + un_num u))) + un_aoe u \<le> int (semvmx info)))"
  shows "semexit_ent info u st = st"
  using assms by (auto simp: semexit_ent_def)

lemma semexit_ent_vals:
  assumes v: "\<forall>v \<in> set (sem_vals st). v \<le> semvmx info" "semvmx info < 2 ^ 16"
  shows "\<forall>v \<in> set (sem_vals (semexit_ent info u st)). v \<le> semvmx info"
proof (cases "semexit_ent info u st = st")
  case False
  then obtain i where i: "semconv_lock st (un_id u) = Some i"
    "0 \<le> int (semval (sem_arr st ! (sem_base (sema st ! i) + un_num u))) + un_aoe u"
    "int (semval (sem_arr st ! (sem_base (sema st ! i) + un_num u))) + un_aoe u \<le> int (semvmx info)"
    using semexit_ent_skip [of st u info] by (cases "semconv_lock st (un_id u)") blast+
  have new: "u16 (int (semval (sem_arr st ! (sem_base (sema st ! i) + un_num u))) + un_aoe u) \<le> semvmx info"
    using i(2,3) v(2) by simp
  show ?thesis
    unfolding semexit_ent_eq [OF i(1) refl refl i(2,3)]
    using v(1) new set_update_subset_insert by fastforce
qed (use v in simp)

lemma semexit_fold:
  assumes "\<forall>v \<in> set (sem_vals st). v \<le> semvmx info" "semvmx info < 2 ^ 16"
  shows "undo_same st (fold (semexit_ent info) us st) \<and> table_same st (fold (semexit_ent info) us st)
    \<and> (\<forall>v \<in> set (sem_vals (fold (semexit_ent info) us st)). v \<le> semvmx info)"
  using assms(1)
proof (induction us arbitrary: st)
  case (Cons u us)
  let ?st = "semexit_ent info u st"
  have "undo_same st ?st" "table_same st ?st" by (simp_all add: semexit_ent_same)
  then show ?case using Cons.IH [OF semexit_ent_vals [OF Cons.prems assms(2)], of u]
    by (auto simp: undo_same_def table_same_def)
qed simp

text \<open>Returning the structure of a process to the free chain.\<close>

lemma undo_inv_release:
  assumes inv: "undo_inv info st" and own: "sem_undo st slot = Some up"
  shows "undo_inv info (st\<lparr>semu := (semu st)(up := []), semunp := remove1 up (semunp st),
           semfup := up # semfup st, sem_undo := (sem_undo st)(slot := None)\<rparr>)"
    "sem_ents (st\<lparr>semu := (semu st)(up := []), semunp := remove1 up (semunp st),
           semfup := up # semfup st, sem_undo := (sem_undo st)(slot := None)\<rparr>) = (sem_ents st)(slot := [])"
proof -
  let ?st = "st\<lparr>semu := (semu st)(up := []), semunp := remove1 up (semunp st),
           semfup := up # semfup st, sem_undo := (sem_undo st)(slot := None)\<rparr>"
  have other: "sem_undo st t \<noteq> Some up" if "t \<noteq> slot" for t using undo_invD(7) [OF inv own, of t] that by blast
  have d: "distinct (semunp st)" using undo_invD(2) [OF inv] .
  show "undo_inv info ?st"
  proof (rule undo_invI)
    fix v show "v \<in> set (semunp ?st) \<longleftrightarrow> semu ?st v \<noteq> []" using undo_invD(3) [OF inv, of v] d by auto
  next
    fix v assume "v \<in> set (semfup ?st)"
    then show "semu ?st v = []" using undo_invD(5) [OF inv, of v] by auto
  next
    fix s v assume "sem_undo ?st s = Some v"
    then show "v \<notin> set (semfup ?st)" using undo_invD(6) [OF inv, of s v] other [of s] by (auto split: if_splits)
  next
    fix s t v assume "sem_undo ?st s = Some v" "sem_undo ?st t = Some v"
    then show "s = t" using undo_invD(7) [OF inv, of s v t] by (auto split: if_splits)
  next
    fix v assume "semu ?st v \<noteq> []"
    then obtain s where "sem_undo st s = Some v" "v \<noteq> up" using undo_invD(8) [OF inv, of v] by (auto split: if_splits)
    then show "\<exists>s. sem_undo ?st s = Some v" using own by (intro exI [of _ s]) auto
  next
    show "distinct (semfup ?st)" using undo_invD(4) [OF inv] undo_invD(6) [OF inv own] by simp
  qed (use undo_invD(1) [OF inv] d in \<open>simp_all add: ents_ok_def\<close>)
  show "sem_ents ?st = (sem_ents st)(slot := [])"
  proof
    fix t show "sem_ents ?st t = ((sem_ents st)(slot := [])) t"
      using other [of t] by (cases "t = slot") (auto simp: sem_ents_def split: option.splits)
  qed
qed

lemma semexit_wf:
  assumes wf: "sem_wf info st" and info: "seminfo_ok info"
  shows "sem_wf info (semexit info slot st)" "sem_undo (semexit info slot st) slot = None"
    "sem_ents (semexit info slot st) = (sem_ents st)(slot := [])"
proof -
  have inv: "undo_inv info st" and v: "\<forall>v \<in> set (sem_vals st). v \<le> semvmx info" "semvmx info < 2 ^ 16"
    and live: "\<And>slot u. u \<in> set (sem_ents st slot) \<Longrightarrow> sem_live st (un_id u) (un_num u)"
    using wf info by (auto simp: sem_wf_def seminfo_ok_def)
  have "sem_wf info (semexit info slot st) \<and> sem_undo (semexit info slot st) slot = None
     \<and> sem_ents (semexit info slot st) = (sem_ents st)(slot := [])"
  proof (cases "sem_undo st slot")
    case None
    then show ?thesis using wf by (auto simp: semexit_def sem_ents_def)
  next
    case (Some up)
    define st1 where "st1 = fold (semexit_ent info) (rev (semu st up)) st"
    define st2 where "st2 = st1\<lparr>semu := (semu st1)(up := []), semunp := remove1 up (semunp st1),
           semfup := up # semfup st1, sem_undo := (sem_undo st1)(slot := None)\<rparr>"
    have f: "undo_same st st1" "table_same st st1" "\<forall>v \<in> set (sem_vals st1). v \<le> semvmx info"
      using semexit_fold [OF v] by (simp_all add: st1_def)
    have exit: "semexit info slot st = st2"
    proof (cases "semu st up = []")
      case True
      then have "up \<notin> set (semunp st)" using undo_invD(3) [OF inv, of up] by simp
      then show ?thesis using True Some by (simp add: semexit_def st2_def st1_def remove1_idem fun_upd_idem)
    qed (use Some in \<open>simp add: semexit_def st2_def st1_def Let_def\<close>)
    have own: "sem_undo st1 slot = Some up" using f(1) Some by (simp add: undo_same_def)
    note r = undo_inv_release [OF undo_same_view(1) [OF f(1) inv] own, folded st2_def]
    have c: "core_same st st2" using table_same_core [OF f(2)] by (simp add: st2_def core_same_def)
    have "sem_vals st2 = sem_vals st1" by (simp add: st2_def sem_vals_def)
    moreover have "sem_live st (un_id u) (un_num u)" if "u \<in> set (sem_ents st2 t)" for t u
      using that live [of u t] undo_same_view(2) [OF f(1)] by (simp add: r(2) split: if_splits)
    ultimately have "sem_wf info st2" using sem_wf_core [OF wf c r(1)] f(3) by simp
    then show ?thesis using exit r(2) undo_same_view(2) [OF f(1)] by (simp add: st2_def)
  qed
  then show "sem_wf info (semexit info slot st)" "sem_undo (semexit info slot st) slot = None"
    "sem_ents (semexit info slot st) = (sem_ents st)(slot := [])" by blast+
qed

section \<open>semctl keeps the invariant\<close>

lemma ipc_allocd_set [simp]: "ipc_allocd (p\<lparr>ipc_uid := u, ipc_gid := g, ipc_mode := m OR IPC_ALLOC\<rparr>)"
proof -
  have "bit (m OR IPC_ALLOC) 15" "bit IPC_ALLOC 15" by (simp_all add: bit_or_iff IPC_ALLOC_def bit_numeral_rec)
  then have "bit ((m OR IPC_ALLOC) AND IPC_ALLOC) 15" by (simp add: bit_and_iff)
  then have "(m OR IPC_ALLOC) AND IPC_ALLOC \<noteq> 0" by (metis bit_0_eq bot_apply bot_bool_def)
  then show ?thesis by (simp add: ipc_allocd_def)
qed

lemma sem_set_perm_wf:
  assumes "sem_wf info st" "i < length (sema st)" "ipc_allocd (sem_perm (sema st ! i))"
  shows "sem_wf info (sem_set_perm i uid gid mode now st)"
proof (rule sem_wf_quiet [OF assms(1)])
  show "core_same st (sem_set_perm i uid gid mode now st)"
    unfolding sem_set_perm_def using assms(2,3) by (intro core_same_upd_set) (simp_all add: sem_core_def)
qed (simp_all add: sem_set_perm_def)

lemma sem_store_same:
  "undo_same st (sem_store k val st') \<longleftrightarrow> undo_same st st'" "table_same st (sem_store k val st') \<longleftrightarrow> table_same st st'"
  "sem_vals (sem_store k val st') = (sem_vals st')[k := val]"
  by (simp_all add: sem_store_def Let_def upd_sem_vals)

lemma sem_store_all_same:
  "undo_same st (sem_store_all pid k vs st') \<longleftrightarrow> undo_same st st'"
  "table_same st (sem_store_all pid k vs st') \<longleftrightarrow> table_same st st'"
  by (induction vs arbitrary: k st') (simp_all add: sem_store_same)

lemma sem_store_all_vals:
  "\<forall>v \<in> set (sem_vals st). v \<le> m \<Longrightarrow> \<forall>v \<in> set vs. v \<le> m \<Longrightarrow>
   \<forall>v \<in> set (sem_vals (sem_store_all pid k vs st)). v \<le> m"
proof (induction vs arbitrary: k st)
  case (Cons v vs)
  have "\<forall>w \<in> set ((sem_vals st)[k := v]). w \<le> m"
    using Cons.prems set_update_subset_insert [of "sem_vals st" k v] by auto
  then have "\<forall>w \<in> set (sem_vals (upd_sem k (\<lambda>s. s\<lparr>sempid := pid\<rparr>) (sem_store k v st))). w \<le> m"
    by (simp add: upd_sem_vals_same sem_store_same)
  from Cons.IH [OF this, of "Suc k"] show ?case using Cons.prems(2) by simp
qed simp

text \<open>Forgetting undo entries keeps the invariant.\<close>

lemma semunrm_wf:
  assumes "sem_wf info st" shows "sem_wf info (semunrm idn low high st)"
proof (rule sem_wf_core [OF assms])
  have inv: "undo_inv info st" using assms by (simp add: sem_wf_def)
  show "undo_inv info (semunrm idn low high st)" using semunrm_ok(1) [OF inv] .
  show "\<forall>v \<in> set (sem_vals (semunrm idn low high st)). v \<le> semvmx info"
    using assms by (simp add: sem_wf_def sem_vals_def)
  show "u \<in> set (sem_ents (semunrm idn low high st) slot) \<Longrightarrow> sem_live st (un_id u) (un_num u)" for u slot
    using sem_wf_live [OF assms, of u slot] by (simp add: semunrm_ok(2) [OF inv])
qed (simp add: core_same_def)

text \<open>Storing values within the limit keeps it too.\<close>

lemma sem_wf_values:
  assumes "sem_wf info st" "undo_same st st'" "table_same st st'" "\<forall>v \<in> set (sem_vals st'). v \<le> semvmx info"
  shows "sem_wf info st'"
proof (rule sem_wf_core [OF assms(1) table_same_core [OF assms(3)] _ assms(4)])
  show "undo_inv info st'" using assms(1) undo_same_view(1) [OF assms(2)] by (simp add: sem_wf_def)
  show "u \<in> set (sem_ents st' slot) \<Longrightarrow> sem_live st (un_id u) (un_num u)" for u slot
    using assms(1) undo_same_view(2) [OF assms(2)] by (simp add: sem_wf_def)
qed

lemma semctl_setval_Inr: "\<exists>res asu' st'. semctl_setval info pid semid i semnum cr asu arg st = Inr (res, asu', st')"
  by (simp add: semctl_setval_def Let_def split: option.split)

lemma semctl_setall_Inr: "\<exists>res asu' st'. semctl_setall info pid semid i cr asu arg st = Inr (res, asu', st')"
  by (simp add: semctl_setall_def Let_def split: option.split)

lemma semctl_setval_wf:
  assumes wf: "sem_wf info st" and info: "seminfo_ok info"
    and call: "semctl_setval info pid semid i semnum cr asu arg st = Inr (res, asu', st')"
  shows "sem_wf info st'"
proof (cases "st' = st")
  case False
  let ?k = "sem_base (sema st ! i) + semnum"
  have arg: "arg mod 2 ^ 32 \<le> int (semvmx info)"
    and st': "st' = semunrm semid semnum semnum (upd_sem ?k (\<lambda>s. s\<lparr>sempid := pid\<rparr>) (sem_store ?k (u16 arg) st))"
    using call False by (auto simp: semctl_setval_def Let_def split: option.splits if_splits)
  have "arg mod 2 ^ 16 = arg mod 2 ^ 32 mod 2 ^ 16" by (simp add: mod_mod_cancel)
  also have "\<dots> = arg mod 2 ^ 32" using arg info by (intro mod_pos_pos_trivial) (auto simp: seminfo_ok_def)
  finally have "u16 arg \<le> semvmx info" using arg by (simp add: u16_def nat_le_iff)
  then have "sem_wf info (upd_sem ?k (\<lambda>s. s\<lparr>sempid := pid\<rparr>) (sem_store ?k (u16 arg) st))"
    using wf set_update_subset_insert [of "sem_vals st" ?k "u16 arg"]
    by (intro sem_wf_values [OF wf]) (auto simp: sem_store_same upd_sem_vals_same sem_wf_def)
  then show ?thesis unfolding st' by (rule semunrm_wf)
qed (use wf in simp)

lemma semctl_setall_wf:
  assumes wf: "sem_wf info st"
    and call: "semctl_setall info pid semid i cr asu arg st = Inr (res, asu', st')"
  shows "sem_wf info st'"
proof (cases "st' = st")
  case False
  then obtain vals where vals: "\<forall>v \<in> set (take (sem_nsems (sema st ! i)) vals). v \<le> semvmx info"
    and st': "st' = sem_store_all pid (sem_base (sema st ! i)) (take (sem_nsems (sema st ! i)) vals)
                (semunrm semid 0 (sem_nsems (sema st ! i)) st)"
    using call by (auto simp: semctl_setall_def Let_def list_ex_iff not_less split: option.splits if_splits)
  have wf1: "sem_wf info (semunrm semid 0 (sem_nsems (sema st ! i)) st)" using semunrm_wf [OF wf] .
  then have "\<forall>v \<in> set (sem_vals (semunrm semid 0 (sem_nsems (sema st ! i)) st)). v \<le> semvmx info"
    by (simp add: sem_wf_def)
  then show ?thesis
    unfolding st' using sem_store_all_vals [OF _ vals] by (intro sem_wf_values [OF wf1]) (simp_all add: sem_store_all_same)
qed (use wf in simp)

subsection \<open>Removing a set\<close>

lemma sem_clear_same:
  "undo_same st (sem_clear k st') \<longleftrightarrow> undo_same st st'" "table_same st (sem_clear k st') \<longleftrightarrow> table_same st st'"
  "sem_vals (sem_clear k st') = (sem_vals st')[k := 0]"
  by (simp_all add: sem_clear_def upd_sem_vals)

lemma sem_clear_all:
  "undo_same st (fold sem_clear ks st') \<longleftrightarrow> undo_same st st'"
  "table_same st (fold sem_clear ks st') \<longleftrightarrow> table_same st st'"
  "\<forall>v \<in> set (sem_vals st'). v \<le> m \<Longrightarrow> \<forall>v \<in> set (sem_vals (fold sem_clear ks st')). v \<le> m"
proof (induction ks arbitrary: st')
  case (Cons k ks)
  {
    case 3
    then have "\<forall>v \<in> set (sem_vals (sem_clear k st')). v \<le> m"
      using set_update_subset_insert [of "sem_vals st'" k 0] by (auto simp: sem_clear_same)
    then show ?case using Cons.IH(3) [of "sem_clear k st'"] by simp
  }
qed (simp_all add: sem_clear_same)

text \<open>The invariant of the table when the set in slot \<open>i\<close> is given up and the map is \<open>mp\<close>.\<close>

lemma sem_tab_wf_remove:
  assumes tab: "sem_tab_wf st" and i: "i < length (sema st)"
    and own: "owned_ok (rm_space mp) ((sem_own st)(i := None))" "rmap_wf mp" "rm_space mp \<subseteq> {1 .. length (sem_arr st)}"
    and p: "\<not> ipc_allocd (sem_perm sp)" "ipc_seq (sem_perm sp) \<le> 0x7fff"
    and st': "sema st' = (sema st)[i := sp]" "semmap st' = mp" "length (sem_arr st') = length (sem_arr st)"
  shows "sem_tab_wf st'" "sem_own st' = (sem_own st)(i := None)"
proof -
  show o': "sem_own st' = (sem_own st)(i := None)"
    using i p(1) st'(1) by (auto simp: sem_own_def fun_eq_iff nth_list_update)
  have "sem_perms st' = (sem_perms st)[i := sem_perm sp]" using st'(1) by (simp add: sem_perms_def map_update)
  then have "keys_distinct (sem_perms st')"
    using keys_distinct_free [OF _ p(1)] tab by (simp add: sem_tab_wf_def)
  moreover have "\<forall>j < length (sema st'). ipc_seq (sem_perm (sema st' ! j)) \<le> 0x7fff"
    using tab p(2) st'(1) i by (simp add: sem_tab_wf_def nth_list_update)
  ultimately show "sem_tab_wf st'"
    using own tab st' o' by (simp add: sem_tab_wf_def)
qed

lemma sem_live_other:
  assumes "sem_live st idn num" "idn \<noteq> sem_mkid (ipc_seq (sem_perm (sema st ! i))) i" "sema st' = (sema st)[i := sp]"
  shows "sem_live st' idn num"
proof -
  obtain j where "j < length (sema st)" "ipc_allocd (sem_perm (sema st ! j))" "num < sem_nsems (sema st ! j)"
    "idn = sem_mkid (ipc_seq (sem_perm (sema st ! j))) j"
    using assms(1) by (auto simp: sem_live_def)
  moreover from this assms(2) have "j \<noteq> i" by auto
  ultimately show ?thesis using assms(3) by (auto simp: sem_live_def intro!: exI [of _ j])
qed

lemma sem_live_unique:
  assumes "sem_tab_wf st" "i < length (sema st)" "sem_live st idn num" "idn = sem_mkid (ipc_seq (sem_perm (sema st ! i))) i"
  shows "num < sem_nsems (sema st ! i)"
proof -
  obtain j where j: "j < length (sema st)" "num < sem_nsems (sema st ! j)"
    "idn = sem_mkid (ipc_seq (sem_perm (sema st ! j))) j"
    using assms(3) by (auto simp: sem_live_def)
  have "sem_id_ok (ipc_seq (sem_perm (sema st ! k))) k" if "k < length (sema st)" for k
    using assms(1) that by (simp add: sem_tab_wf_def sem_id_ok_def)
  then have "j = i" using sem_ids.mk_id_inj assms(2,4) j(1,3) by metis
  then show ?thesis using j(2) by simp
qed

lemma sem_own_release:
  assumes "sem_tab_wf st" "sem_own st i = Some (a, n)"
  obtains w mp where "rmfree (semmap st) n a = Inr (w, mp)" "rmap_wf mp"
    "owned_ok (rm_space mp) ((sem_own st)(i := None))" "rm_space mp \<subseteq> {1 .. length (sem_arr st)}"
proof -
  have wf: "rmap_wf (semmap st)" and own: "owned_ok (rm_space (semmap st)) (sem_own st)"
    and sp: "rm_space (semmap st) \<subseteq> {1 .. length (sem_arr st)}" "a + n \<le> length (sem_arr st) + 1"
    using assms by (auto simp: sem_tab_wf_def)
  note o1 = owned_okD [OF own assms(2)]
  obtain mp where mp: "rm_release (semmap st) n a = Some mp" "rmap_wf mp" "owned_ok (rm_space mp) ((sem_own st)(i := None))"
    using rm.release_owned [OF wf own assms(2)] by blast
  moreover have "rm_space mp \<subseteq> rm_space (semmap st) \<union> {a ..< a + n}"
    using rm.release_ok [OF wf o1] mp(1) by auto
  then have "rm_space mp \<subseteq> {1 .. length (sem_arr st)}" using sp o1(1) by fastforce
  ultimately show thesis using that by (auto simp: rm_release_def split: sum.splits)
qed

lemma semctl_rmid_wf:
  assumes wf: "sem_wf info st" and i: "semconv_lock st semid = Some i" "semid_range semid"
  shows "\<exists>res asu' st'. semctl_rmid semid i cr asu st = Inr (res, asu', st') \<and> sem_wf info st'
    \<and> (fst (sem_owner (sem_perm (sema st ! i)) cr asu) \<longrightarrow>
         res = Inr (OutInt 0) \<and> sem_own st' = (sem_own st)(i := None)
       \<and> semconv_lock st' semid = None \<and> (\<forall>slot. \<forall>u \<in> set (sem_ents st' slot). un_id u \<noteq> semid))
    \<and> (\<not> fst (sem_owner (sem_perm (sema st ! i)) cr asu) \<longrightarrow> res = Inl EPERM \<and> st' = st)"
proof (cases "fst (sem_owner (sem_perm (sema st ! i)) cr asu)")
  case False
  then show ?thesis using wf by (auto simp: semctl_rmid_def Let_def split: prod.splits)
next
  case True
  let ?sp = "sema st ! i"
  note c = semconv_lock_Some [OF i(1)] and parts = sem_wf_parts [OF wf]
  define st1 where "st1 = semunrm semid 0 (sem_nsems ?sp) st"
  define st2 where "st2 = fold sem_clear [sem_base ?sp ..< sem_base ?sp + sem_nsems ?sp] st1"
  have own: "sem_own st i = Some (sem_base ?sp + 1, sem_nsems ?sp)" using c by (simp add: sem_own_def)
  obtain w mp where mp: "rmfree (semmap st) (sem_nsems ?sp) (sem_base ?sp + 1) = Inr (w, mp)" "rmap_wf mp"
    "owned_ok (rm_space mp) ((sem_own st)(i := None))" "rm_space mp \<subseteq> {1 .. length (sem_arr st)}"
    using sem_own_release [OF parts(3) own] by blast
  have id: "semid = sem_mkid (ipc_seq (sem_perm ?sp)) i" using c sem_mkid_sequ_index [of semid] i(2) by (simp add: semid_range_def)
  have wf1: "sem_wf info st1" unfolding st1_def using semunrm_wf [OF wf] .
  have s2: "undo_same st1 st2" "table_same st1 st2" "\<forall>v \<in> set (sem_vals st2). v \<le> semvmx info"
    using sem_clear_all(3) [OF sem_wf_parts(2) [OF wf1]] by (simp_all add: st2_def sem_clear_all)
  define p where "p = (sem_perm ?sp)\<lparr>ipc_seq := sem_next_seq semid (ipc_seq (sem_perm ?sp)), ipc_mode := 0\<rparr>"
  define st' where "st' = upd_set i (\<lambda>sp. sp\<lparr>sem_perm := (sem_perm sp)\<lparr>ipc_seq := sem_next_seq semid (ipc_seq (sem_perm sp)),
                                                           ipc_mode := 0\<rparr>\<rparr>) (st2\<lparr>semmap := mp\<rparr>)"
  have t: "sema st2 = sema st" "semmap st2 = semmap st" "length (sem_arr st2) = length (sem_arr st)"
    using s2(2) by (simp_all add: table_same_def st1_def)
  obtain asu' where "sem_owner (sem_perm ?sp) cr asu = (True, asu')" using True by (metis prod.collapse)
  then have call: "semctl_rmid semid i cr asu st = Inr (Inr (OutInt 0), asu', st')"
    using mp(1) t(2) by (simp add: semctl_rmid_def Let_def st1_def st2_def st'_def)
  have tab': "sema st' = (sema st)[i := ?sp\<lparr>sem_perm := p\<rparr>]" "semmap st' = mp" "length (sem_arr st') = length (sem_arr st)"
    using t by (simp_all add: st'_def upd_set_def p_def)
  have "sem_ents st' = sem_ents st2" by (rule sem_ents_cong) (simp_all add: st'_def upd_set_def)
  then have ents: "sem_ents st' = (\<lambda>slot. filter (\<lambda>u. \<not> undo_hit semid 0 (sem_nsems ?sp) u) (sem_ents st slot))"
    using semunrm_ok(2) [OF parts(1)] undo_same_view(2) [OF s2(1)] by (simp add: st1_def)
  have seq: "ipc_seq (sem_perm ?sp) \<le> 0x7fff" "i \<le> 0xffff" using parts(3) c(2) by (simp_all add: sem_tab_wf_def)
  then have ok: "sem_id_ok (ipc_seq (sem_perm ?sp)) i" by (simp add: sem_id_ok_def)
  have p: "\<not> ipc_allocd p" "ipc_seq p \<le> 0x7fff" "ipc_seq p = sem_next_seq semid (ipc_seq (sem_perm ?sp))"
    using sem_ids.next_ok [OF ok] by (simp_all add: p_def ipc_allocd_def id sem_id_ok_def)
  note tw = sem_tab_wf_remove [OF parts(3) c(2) mp(3,2,4) _ _ tab']
  have stale: "semconv_lock st' semid = None"
    using sem_ids.conv_stale [OF ok, of "sem_perms st" p] c(2) p(3) id tab'(1)
    by (simp add: semconv_lock_conv sem_perms_def map_update)
  have gone: "un_id u \<noteq> semid \<and> sem_live st' (un_id u) (un_num u)" if "u \<in> set (sem_ents st' slot)" for u slot
  proof -
    have u: "u \<in> set (sem_ents st slot)" "\<not> undo_hit semid 0 (sem_nsems ?sp) u" using that by (simp_all add: ents)
    then have live: "sem_live st (un_id u) (un_num u)" using sem_wf_live [OF wf] by blast
    have "un_id u \<noteq> semid"
      using live u(2) sem_live_unique [OF parts(3) c(2) live] id by (fastforce simp: undo_hit_def)
    then show ?thesis using sem_live_other [OF live _ tab'(1)] id by blast
  qed
  have "undo_inv info st'"
    using undo_same_view(1) [OF s2(1) sem_wf_parts(1) [OF wf1]] by (simp add: st'_def upd_set_def undo_inv_def)
  moreover have "\<forall>v \<in> set (sem_vals st'). v \<le> semvmx info"
    using s2(3) by (simp add: st'_def upd_set_def sem_vals_def)
  ultimately have "sem_wf info st'" using tw p gone by (simp add: sem_wf_def)
  then show ?thesis using call True tw(2) p stale gone by auto
qed

text \<open>What a removal does to the semaphores, to the sleepers and to the map.\<close>

lemma sem_clear_arr: "k < length (sem_arr st) \<Longrightarrow> sem_arr (sem_clear k st) = (sem_arr st)[k := sem_zero]"
  by (cases "sem_arr st ! k")
    (simp add: sem_clear_def sem_wake_n_def sem_wake_z_def upd_sem_def log_wake_def sem_zero_def)

lemma sem_clear_wakes:
  "set (sem_wakes st) \<subseteq> set (sem_wakes (sem_clear k st))"
  "k < length (sem_arr st) \<Longrightarrow> semncnt (sem_arr st ! k) \<noteq> 0 \<Longrightarrow> BcastN k \<in> set (sem_wakes (sem_clear k st))"
  "k < length (sem_arr st) \<Longrightarrow> semzcnt (sem_arr st ! k) \<noteq> 0 \<Longrightarrow> BcastZ k \<in> set (sem_wakes (sem_clear k st))"
  by (auto simp: sem_clear_def sem_wake_n_def sem_wake_z_def upd_sem_def log_wake_def)

lemma sem_clear_range_all:
  assumes "b \<le> length (sem_arr st)" "a \<le> b"
  shows "sem_arr (fold sem_clear [a ..< b] st) = take a (sem_arr st) @ replicate (b - a) sem_zero @ drop b (sem_arr st)
    \<and> (\<forall>k. a \<le> k \<and> k < b \<longrightarrow>
         (semncnt (sem_arr st ! k) \<noteq> 0 \<longrightarrow> BcastN k \<in> set (sem_wakes (fold sem_clear [a ..< b] st)))
       \<and> (semzcnt (sem_arr st ! k) \<noteq> 0 \<longrightarrow> BcastZ k \<in> set (sem_wakes (fold sem_clear [a ..< b] st))))"
  using assms
proof (induction b)
  case (Suc b)
  show ?case
  proof (cases "a \<le> b")
    case True
    let ?st = "fold sem_clear [a ..< b] st" and ?z = "replicate (b - a) sem_zero"
    have step: "fold sem_clear [a ..< Suc b] st = sem_clear b ?st" using True by simp
    have IH: "sem_arr ?st = take a (sem_arr st) @ ?z @ drop b (sem_arr st)"
      "a \<le> k \<Longrightarrow> k < b \<Longrightarrow> semncnt (sem_arr st ! k) \<noteq> 0 \<Longrightarrow> BcastN k \<in> set (sem_wakes ?st)"
      "a \<le> k \<Longrightarrow> k < b \<Longrightarrow> semzcnt (sem_arr st ! k) \<noteq> 0 \<Longrightarrow> BcastZ k \<in> set (sem_wakes ?st)" for k
      using Suc True by auto
    have at: "sem_arr ?st ! b = sem_arr st ! b" "b < length (sem_arr ?st)"
      using Suc.prems True by (simp_all add: IH(1) nth_append)
    have "drop b (sem_arr st) = sem_arr st ! b # drop (Suc b) (sem_arr st)" using Suc.prems by (simp add: Cons_nth_drop_Suc)
    then have "(take a (sem_arr st) @ ?z @ drop b (sem_arr st))[b := sem_zero] = take a (sem_arr st) @ ?z @ sem_zero # drop (Suc b) (sem_arr st)"
      using Suc.prems True by (simp add: list_update_append min_absorb2)
    also have "?z @ sem_zero # drop (Suc b) (sem_arr st) = replicate (Suc b - a) sem_zero @ drop (Suc b) (sem_arr st)"
      using True by (simp add: Suc_diff_le replicate_app_Cons_same)
    finally have arr: "sem_arr (sem_clear b ?st) = take a (sem_arr st) @ replicate (Suc b - a) sem_zero @ drop (Suc b) (sem_arr st)"
      by (simp add: sem_clear_arr at(2)) (simp add: IH(1))
    have w: "(semncnt (sem_arr st ! k) \<noteq> 0 \<longrightarrow> BcastN k \<in> set (sem_wakes (sem_clear b ?st)))
       \<and> (semzcnt (sem_arr st ! k) \<noteq> 0 \<longrightarrow> BcastZ k \<in> set (sem_wakes (sem_clear b ?st)))" if "a \<le> k" "k < Suc b" for k
      using that IH(2,3) [of k] sem_clear_wakes(1) [of ?st b] sem_clear_wakes(2,3) [of b ?st] at by (cases "k = b") auto
    show ?thesis unfolding step using arr w by blast
  next
    case False
    then show ?thesis using Suc.prems by (simp add: le_Suc_eq)
  qed
qed simp

lemmas sem_clear_range = sem_clear_range_all [THEN conjunct1]

lemma sem_clear_range_wakes:
  assumes "b \<le> length (sem_arr st)" "a \<le> k" "k < b"
  shows "semncnt (sem_arr st ! k) \<noteq> 0 \<Longrightarrow> BcastN k \<in> set (sem_wakes (fold sem_clear [a ..< b] st))"
    "semzcnt (sem_arr st ! k) \<noteq> 0 \<Longrightarrow> BcastZ k \<in> set (sem_wakes (fold sem_clear [a ..< b] st))"
  using sem_clear_range_all [of b st a] assms by auto

lemma semctl_rmid_effect:
  assumes wf: "sem_wf info st" and i: "semconv_lock st semid = Some i" "semid_range semid"
    and call: "semctl_rmid semid i cr asu st = Inr (Inr r, asu', st')"
  defines "sp \<equiv> sema st ! i"
  shows "sema st' = (sema st)[i := sp\<lparr>sem_perm := (sem_perm sp)\<lparr>ipc_seq := (ipc_seq (sem_perm sp) + 1) mod 2 ^ 15, ipc_mode := 0\<rparr>\<rparr>]"
    "sem_arr st' = take (sem_base sp) (sem_arr st) @ replicate (sem_nsems sp) sem_zero @ drop (sem_base sp + sem_nsems sp) (sem_arr st)"
    "sem_ents st' slot = filter (\<lambda>u. un_id u \<noteq> semid) (sem_ents st slot)"
    "0 < mh_free (semmap st) \<or> rm_touches (semmap st) (sem_nsems sp) (sem_base sp + 1) \<Longrightarrow>
     rm_space (semmap st') = rm_space (semmap st) \<union> {sem_base sp + 1 ..< sem_base sp + 1 + sem_nsems sp}"
    "sem_base sp \<le> k \<Longrightarrow> k < sem_base sp + sem_nsems sp \<Longrightarrow> semncnt (sem_arr st ! k) \<noteq> 0 \<Longrightarrow> BcastN k \<in> set (sem_wakes st')"
    "sem_base sp \<le> k \<Longrightarrow> k < sem_base sp + sem_nsems sp \<Longrightarrow> semzcnt (sem_arr st ! k) \<noteq> 0 \<Longrightarrow> BcastZ k \<in> set (sem_wakes st')"
proof -
  let ?n = "sem_nsems sp" and ?b = "sem_base sp"
  note c = semconv_lock_Some [OF i(1)] and parts = sem_wf_parts [OF wf]
  define st1 where "st1 = semunrm semid 0 ?n st"
  define st2 where "st2 = fold sem_clear [?b ..< ?b + ?n] st1"
  have own: "sem_own st i = Some (?b + 1, ?n)" using c by (simp add: sem_own_def sp_def)
  have id: "semid = sem_mkid (ipc_seq (sem_perm sp)) i" using c sem_mkid_sequ_index [of semid] i(2) by (simp add: semid_range_def sp_def)
  have seq: "sem_sequ semid = ipc_seq (sem_perm sp)" "ipc_seq (sem_perm sp) \<le> 0x7fff"
    using c parts(3) by (simp_all add: sp_def sem_tab_wf_def)
  have fit: "?b + ?n \<le> length (sem_arr st)" using parts(3) own by (force simp: sem_tab_wf_def)
  have t1: "sema st1 = sema st" "semmap st1 = semmap st" "sem_arr st1 = sem_arr st"
    by (simp_all add: st1_def semunrm_def split: prod.split)
  have s2: "undo_same st1 st2" "table_same st1 st2" by (simp_all add: st2_def sem_clear_all)
  have m2: "semmap st2 = semmap st" "sema st2 = sema st" using s2(2) t1 by (simp_all add: table_same_def)
  obtain w mp where mp: "rmfree (semmap st) ?n (?b + 1) = Inr (w, mp)"
    and st': "st' = upd_set i (\<lambda>sp. sp\<lparr>sem_perm := (sem_perm sp)\<lparr>ipc_seq := sem_next_seq semid (ipc_seq (sem_perm sp)), ipc_mode := 0\<rparr>\<rparr>)
        (st2\<lparr>semmap := mp\<rparr>)"
    using call m2(1) by (auto simp: semctl_rmid_def Let_def st1_def st2_def sp_def split: prod.splits sum.splits if_splits)
  have "sem_next_seq semid (ipc_seq (sem_perm sp)) = (ipc_seq (sem_perm sp) + 1) mod 2 ^ 15"
    using seq by (auto simp: sem_next_seq_def)
  then show "sema st' = (sema st)[i := sp\<lparr>sem_perm := (sem_perm sp)\<lparr>ipc_seq := (ipc_seq (sem_perm sp) + 1) mod 2 ^ 15, ipc_mode := 0\<rparr>\<rparr>]"
    by (simp add: st' upd_set_def m2(2) sp_def)
  have a: "sem_arr st' = sem_arr st2" "sem_wakes st' = sem_wakes st2" "semmap st' = mp" by (simp_all add: st' upd_set_def)
  have rng: "?b + ?n \<le> length (sem_arr st1)" "?b \<le> ?b + ?n" using fit t1(3) by simp_all
  show "sem_arr st' = take ?b (sem_arr st) @ replicate ?n sem_zero @ drop (?b + ?n) (sem_arr st)"
    using sem_clear_range [OF rng] t1(3) by (simp add: a(1) st2_def)
  show "?b \<le> k \<Longrightarrow> k < ?b + ?n \<Longrightarrow> semncnt (sem_arr st ! k) \<noteq> 0 \<Longrightarrow> BcastN k \<in> set (sem_wakes st')"
    using sem_clear_range_wakes(1) [OF rng(1)] t1(3) by (simp add: a(2) st2_def)
  show "?b \<le> k \<Longrightarrow> k < ?b + ?n \<Longrightarrow> semzcnt (sem_arr st ! k) \<noteq> 0 \<Longrightarrow> BcastZ k \<in> set (sem_wakes st')"
    using sem_clear_range_wakes(2) [OF rng(1)] t1(3) by (simp add: a(2) st2_def)
  have "rmap_wf (semmap st)" "owned_ok (rm_space (semmap st)) (sem_own st)" using parts(3) by (simp_all add: sem_tab_wf_def)
  from rmfree_correct [OF this(1) owned_okD [OF this(2) own]] mp a(3)
  show "0 < mh_free (semmap st) \<or> rm_touches (semmap st) ?n (?b + 1) \<Longrightarrow>
     rm_space (semmap st') = rm_space (semmap st) \<union> {?b + 1 ..< ?b + 1 + ?n}" by auto
  have "sem_ents st' = sem_ents st2" by (rule sem_ents_cong) (simp_all add: st' upd_set_def)
  then have "sem_ents st' slot = filter (\<lambda>u. \<not> undo_hit semid 0 ?n u) (sem_ents st slot)"
    using semunrm_ok(2) [OF parts(1)] undo_same_view(2) [OF s2(1)] by (simp add: st1_def)
  moreover have "undo_hit semid 0 ?n u \<longleftrightarrow> un_id u = semid" if "u \<in> set (sem_ents st slot)" for u
  proof -
    have live: "sem_live st (un_id u) (un_num u)" using sem_wf_live [OF wf] that by blast
    show ?thesis using sem_live_unique [OF parts(3) c(2) live] id by (fastforce simp: undo_hit_def sp_def)
  qed
  ultimately show "sem_ents st' slot = filter (\<lambda>u. un_id u \<noteq> semid) (sem_ents st slot)" by (auto intro: filter_cong)
qed

lemma semctl_wf:
  assumes wf: "sem_wf info st" and info: "seminfo_ok info" and id: "semid_range semid"
  shows "\<exists>res asu' st'. semctl info now pid cr asu semid semnum cmd st = Inr (res, asu', st') \<and> sem_wf info st'"
proof (cases "semconv_lock st semid")
  case None
  then show ?thesis using wf by (simp add: semctl_def)
next
  case (Some i)
  note c = semconv_lock_Some [OF Some] and perm = sem_set_perm_wf [OF wf]
  show ?thesis
  proof (cases cmd)
    case SemRMID
    then show ?thesis using semctl_rmid_wf [OF wf Some id, of cr asu] Some by (auto simp: semctl_def)
  next
    case (SemSET arg)
    then show ?thesis using wf c perm Some
      by (auto simp: semctl_def semctl_set_def Let_def split: prod.split option.split)
  next
    case (SemOSET arg)
    then show ?thesis using wf c perm Some
      by (auto simp: semctl_def semctl_oset_def Let_def split: prod.split option.split)
  next
    case (SETVAL arg)
    obtain res asu' st' where r: "semctl_setval info pid semid i semnum cr asu arg st = Inr (res, asu', st')"
      by (metis semctl_setval_Inr)
    then show ?thesis using semctl_setval_wf [OF wf info r] SETVAL Some by (simp add: semctl_def)
  next
    case (SETALL arg)
    obtain res asu' st' where r: "semctl_setall info pid semid i cr asu arg st = Inr (res, asu', st')"
      by (metis semctl_setall_Inr)
    then show ?thesis using semctl_setall_wf [OF wf r] SETALL Some by (simp add: semctl_def)
  qed (use wf Some in \<open>simp_all add: semctl_def semctl_ostat_def semctl_stat_def semctl_get_def semctl_getall_def Let_def
         split: option.split\<close>)
qed

section \<open>semget keeps the invariant\<close>

lemma sem_live_unused:
  assumes "sem_live st idn num" "\<not> ipc_allocd (sem_perm (sema st ! i))" "sema st' = (sema st)[i := sp]"
  shows "sem_live st' idn num"
proof -
  obtain j where "j < length (sema st)" "ipc_allocd (sem_perm (sema st ! j))" "num < sem_nsems (sema st ! j)"
    "idn = sem_mkid (ipc_seq (sem_perm (sema st ! j))) j"
    using assms(1) by (auto simp: sem_live_def)
  moreover from this assms(2) have "j \<noteq> i" by auto
  ultimately show ?thesis using assms(3) by (auto simp: sem_live_def intro!: exI [of _ j])
qed

text \<open>The table when the unused slot \<open>i\<close> gets a set of its own.\<close>

lemma sem_tab_wf_add:
  assumes tab: "sem_tab_wf st" and i: "i < length (sema st)"
    and own: "owned_ok (rm_space mp) ((sem_own st)(i \<mapsto> (a, n)))" "rmap_wf mp"
    and space: "rm_space mp \<subseteq> {1 .. length (sem_arr st)}" "a + n \<le> length (sem_arr st) + 1" "0 < a"
    and p: "ipc_allocd (sem_perm sp)" "ipc_seq (sem_perm sp) \<le> 0x7fff" "sem_base sp = a - 1" "sem_nsems sp = n"
    and keys: "keys_distinct ((sem_perms st)[i := sem_perm sp])"
    and st': "sema st' = (sema st)[i := sp]" "semmap st' = mp" "length (sem_arr st') = length (sem_arr st)"
  shows "sem_tab_wf st'" "sem_own st' = (sem_own st)(i \<mapsto> (a, n))"
proof -
  show o': "sem_own st' = (sem_own st)(i \<mapsto> (a, n))"
    using i p st'(1) space(3) by (auto simp: sem_own_def fun_eq_iff nth_list_update)
  have "sem_perms st' = (sem_perms st)[i := sem_perm sp]" using st'(1) by (simp add: sem_perms_def map_update)
  moreover have "\<forall>j < length (sema st'). ipc_seq (sem_perm (sema st' ! j)) \<le> 0x7fff"
    using tab p(2) st'(1) i by (simp add: sem_tab_wf_def nth_list_update)
  ultimately show "sem_tab_wf st'"
    using own tab st' o' keys space by (simp add: sem_tab_wf_def)
qed

text \<open>A slot that the table does not use can be given any unallocated entry.\<close>

lemma sem_wf_unset:
  assumes wf: "sem_wf info st" and i: "i < length (sema st)" "\<not> ipc_allocd (sem_perm (sema st ! i))"
    and p: "\<not> ipc_allocd p" "ipc_seq p \<le> 0x7fff"
  shows "sem_wf info (upd_set i (\<lambda>sp. sp\<lparr>sem_perm := p\<rparr>) st)"
proof -
  let ?st = "upd_set i (\<lambda>sp. sp\<lparr>sem_perm := p\<rparr>) st" and ?sp = "(sema st ! i)\<lparr>sem_perm := p\<rparr>"
  note parts = sem_wf_parts [OF wf]
  have t: "sema ?st = (sema st)[i := ?sp]" "semmap ?st = semmap st" "length (sem_arr ?st) = length (sem_arr st)"
    by (simp_all add: upd_set_def)
  have "(sem_own st)(i := None) = sem_own st" using i(2) by (auto simp: sem_own_def fun_eq_iff)
  then have "owned_ok (rm_space (semmap st)) ((sem_own st)(i := None))" "rmap_wf (semmap st)"
    "rm_space (semmap st) \<subseteq> {1 .. length (sem_arr st)}"
    using parts(3) by (simp_all add: sem_tab_wf_def)
  from sem_tab_wf_remove(1) [OF parts(3) i(1) this _ _ t] p have "sem_tab_wf ?st" by simp
  moreover have "sem_live ?st (un_id u) (un_num u)" if "u \<in> set (sem_ents ?st slot)" for u slot
  proof -
    have "undo_same st ?st" by simp
    from undo_same_view(2) [OF this] that have "u \<in> set (sem_ents st slot)" by simp
    then show ?thesis using sem_live_unused [OF sem_wf_live [OF wf] i(2) t(1)] by blast
  qed
  ultimately show ?thesis
    using undo_same_view(1) [of st ?st info] parts by (simp add: sem_wf_def)
qed

text \<open>What a successful \<open>semget\<close> that creates a set does.\<close>

lemma semget_new:
  assumes wf: "sem_wf info st" and info: "seminfo_ok info"
    and new: "ipcget key semflg cr (sem_perms st) = Inr (True, i, p)"
    and n: "0 < nsems" "nsems \<le> int (semmsl info)" and a: "rmalloc (semmap st) (nat nsems) = (a, mp)" "a \<noteq> 0"
    and st': "st' = upd_set i (\<lambda>sp. sp\<lparr>sem_base := a - 1, sem_binary := True, sem_nsems := u16 nsems,
                        sem_ctime := now, sem_otime := 0\<rparr>)
                 (upd_set i (\<lambda>sp. sp\<lparr>sem_perm := p\<rparr>) st\<lparr>semmap := mp\<rparr>)"
  shows "sem_wf info st'" "sem_own st' = (sem_own st)(i \<mapsto> (a, nat nsems))" "sem_own st i = None"
    "semconv_lock st' (sem_mkid (ipc_seq p) i) = Some i" "sem_vals st' = sem_vals st" "sem_ents st' = sem_ents st"
proof -
  note parts = sem_wf_parts [OF wf] and g = ipcget_new [OF new]
  have i: "i < length (sema st)" "\<not> ipc_allocd (sem_perm (sema st ! i))" using g(1,2) by (simp_all add: sem_perms_def)
  then show "sem_own st i = None" by (simp add: sem_own_def)
  have p: "ipc_allocd p" "ipc_key p = key" "ipc_seq p = ipc_seq (sem_perm (sema st ! i))"
    using g(3) i(1) by (simp_all add: ipcget_init_def sem_perms_def) (simp add: ipcget_init_def [symmetric])
  have seq: "ipc_seq p \<le> 0x7fff" "i \<le> 0xffff" using p(3) parts(3) i(1) by (simp_all add: sem_tab_wf_def)
  define sp where "sp = (sema st ! i)\<lparr>sem_perm := p, sem_base := a - 1, sem_binary := True,
      sem_nsems := u16 nsems, sem_ctime := now, sem_otime := 0\<rparr>"
  have t: "sema st' = (sema st)[i := sp]" "semmap st' = mp" "length (sem_arr st') = length (sem_arr st)"
    using i(1) by (simp_all add: st' upd_set_def sp_def)
  have u16: "u16 nsems = nat nsems" and pos: "0 < nat nsems" "nat nsems < 2 ^ 31"
    using n info by (auto simp: seminfo_ok_def)
  have tab: "rmap_wf (semmap st)" "owned_ok (rm_space (semmap st)) (sem_own st)"
    "rm_space (semmap st) \<subseteq> {1 .. length (sem_arr st)}" "keys_distinct (sem_perms st)"
    using parts(3) by (simp_all add: sem_tab_wf_def)
  have al: "rmap_wf mp" "owned_ok (rm_space mp) ((sem_own st)(i \<mapsto> (a, nat nsems)))"
    using rm.alloc_owned [OF tab(1,2) pos a] by blast+
  have bl: "{a ..< a + nat nsems} \<subseteq> rm_space (semmap st)" "rm_space mp \<subseteq> rm_space (semmap st)"
    using rm.alloc_some [OF tab(1) pos(1) a] by auto
  have last: "a + nat nsems - 1 \<in> {a ..< a + nat nsems}" using pos(1) by auto
  then have "a + nat nsems - 1 \<in> {1 .. length (sem_arr st)}" using bl(1) tab(3) by blast
  then have lim: "a + nat nsems \<le> length (sem_arr st) + 1" using pos(1) by auto
  have keys: "keys_distinct ((sem_perms st)[i := sem_perm sp])"
    using keys_distinct_init [OF tab(4) g(1,4) p(2)] by (simp add: sp_def)
  have "rm_space mp \<subseteq> {1 .. length (sem_arr st)}" using bl(2) tab(3) by blast
  from sem_tab_wf_add [OF parts(3) i(1) al(2,1) this lim _ _ _ _ _ keys t]
  have tw: "sem_tab_wf st'" and o': "sem_own st' = (sem_own st)(i \<mapsto> (a, nat nsems))"
    using a(2) p seq u16 by (simp_all add: sp_def)
  show "sem_own st' = (sem_own st)(i \<mapsto> (a, nat nsems))" by (rule o')
  have us: "undo_same st st'" by (simp add: st' undo_same_def upd_set_def)
  show vals: "sem_vals st' = sem_vals st" by (simp add: st' upd_set_def sem_vals_def)
  show ents: "sem_ents st' = sem_ents st" using undo_same_view(2) [OF us] .
  have "sem_live st' (un_id u) (un_num u)" if "u \<in> set (sem_ents st' slot)" for u slot
    using sem_live_unused [OF sem_wf_live [OF wf] i(2) t(1)] that ents by simp
  then show "sem_wf info st'" using tw vals undo_same_view(1) [OF us parts(1)] parts(2) by (simp add: sem_wf_def)
  show "semconv_lock st' (sem_mkid (ipc_seq p) i) = Some i"
    using sem_ids.conv_mk [of "sem_perms st'" i] t(1) i(1) p(1) seq
    by (simp add: semconv_lock_conv sem_perms_def sp_def sem_id_ok_def)
qed

lemma semget_wf:
  assumes wf: "sem_wf info st" and info: "seminfo_ok info"
    and call: "semget info now cr key nsems semflg st = (res, st')"
  shows "sem_wf info st'"
proof (cases "\<exists>i p. ipcget key semflg cr (sem_perms st) = Inr (True, i, p)")
  case False
  then have "st' = st" using call by (auto simp: semget_def split: sum.splits if_splits)
  then show ?thesis using wf by simp
next
  case True
  then obtain i p where new: "ipcget key semflg cr (sem_perms st) = Inr (True, i, p)" by blast
  note g = ipcget_new [OF new]
  have i: "i < length (sema st)" "\<not> ipc_allocd (sem_perm (sema st ! i))" using g(1,2) by (simp_all add: sem_perms_def)
  have "ipc_seq p = ipc_seq (sem_perm (sema st ! i))" using g(3) i(1) by (simp add: ipcget_init_def sem_perms_def)
  then have "ipc_seq p \<le> 0x7fff" using sem_wf_parts(3) [OF wf] i(1) by (simp add: sem_tab_wf_def)
  then have unset: "sem_wf info (upd_set i (\<lambda>sp. sp\<lparr>sem_perm := p\<lparr>ipc_mode := 0\<rparr>\<rparr>) st)"
    using sem_wf_unset [OF wf i] by (simp add: ipc_allocd_def)
  obtain a mp where a: "rmalloc (semmap st) (nat nsems) = (a, mp)" by fastforce
  consider "nsems \<le> 0 \<or> nsems > int (semmsl info)" | "0 < nsems" "nsems \<le> int (semmsl info)" "a = 0"
    | "0 < nsems" "nsems \<le> int (semmsl info)" "a \<noteq> 0" by linarith
  then show ?thesis
  proof cases
    case 1
    then show ?thesis using call new unset by (auto simp: semget_def Let_def)
  next
    case 2
    have "mp = semmap st" using rm.alloc_none [of "semmap st" "nat nsems"] a 2 sem_wf_parts(3) [OF wf] by (simp add: sem_tab_wf_def)
    then have "st' = upd_set i (\<lambda>sp. sp\<lparr>sem_perm := p\<lparr>ipc_mode := 0\<rparr>\<rparr>) st"
      using call new 2 a by (auto simp: semget_def Let_def upd_set_def)
    then show ?thesis using unset by simp
  next
    case 3
    then have "st' = upd_set i (\<lambda>sp. sp\<lparr>sem_base := a - 1, sem_binary := True, sem_nsems := u16 nsems,
                        sem_ctime := now, sem_otime := 0\<rparr>)
                 (upd_set i (\<lambda>sp. sp\<lparr>sem_perm := p\<rparr>) st\<lparr>semmap := mp\<rparr>)"
      using call new a by (auto simp: semget_def Let_def)
    from semget_new(1) [OF wf info new 3(1,2) a 3(3) this] show ?thesis .
  qed
qed

section \<open>The module as a transition system\<close>

text \<open>
  A step is one system call up to its return or to its first sleep, the next pass of a sleeping
  \<open>semop\<close> (\<open>wake\<close>), a signal that ends a sleep (\<open>intr\<close>), or the exit of a process. Identifiers
  are not negative. A sleeping process whose identifier is still valid finds the set it went to
  sleep on: sequence numbers come round only after \<^verbatim>\<open>SEMA_SEQ_MAX\<close> removals.
\<close>

fun sem_call_range :: "sem_call \<Rightarrow> bool" where
  "sem_call_range (SEMCTL semid _ _) = semid_range semid"
| "sem_call_range (SEMOP semid _ _) = semid_range semid"
| "sem_call_range _ = True"

inductive sem_step :: "seminfo \<Rightarrow> sem_sys \<Rightarrow> sem_sys \<Rightarrow> bool" for info where
  call: "sem_call_range call \<Longrightarrow> semsys info now pid slot cr asu [] call st = Inr (res, asu', st') \<Longrightarrow> sem_step info st st'"
| wake: "semid_range semid \<Longrightarrow> i = sem_index semid \<Longrightarrow>
    (semconv st semid = None \<longrightarrow> (\<forall>op \<in> set ops. sem_num op < sem_nsems (sema st ! i))) \<Longrightarrow>
    semop_check info slot pid now semid i ops True [] st = (ret, st') \<Longrightarrow> sem_step info st st'"
| intr_n: "sem_step info st (sem_intr_n k st)"
| intr_z: "sem_step info st (sem_intr_z k st)"
| exit: "sem_step info st (semexit info slot st)"

inductive_cases sem_stepE: "sem_step info st st'"

inductive sem_reach :: "seminfo \<Rightarrow> sem_sys \<Rightarrow> bool" where
  load: "sem_init tune mapsz v_proc maxavail map_ok None = Inr (Inr (info, st)) \<Longrightarrow> 2 \<le> mapsz \<Longrightarrow> mapsz < 2 ^ 31 \<Longrightarrow>
    semmns tune < 2 ^ 31 \<Longrightarrow> seminfo_ok tune \<Longrightarrow> sem_reach info st"
| step: "sem_reach info st \<Longrightarrow> sem_step info st st' \<Longrightarrow> sem_reach info st'"

lemma semconv_None_lock: "semconv st s = None \<Longrightarrow> semconv_lock st s = Some (sem_index s)"
  by (auto simp: semconv_def semconv_lock_def Let_def split: if_splits)

lemma semsys_wf:
  assumes wf: "sem_wf info st" and info: "seminfo_ok info" and call: "sem_call_range call"
  shows "\<exists>res asu' st'. semsys info now pid slot cr asu [] call st = Inr (res, asu', st') \<and> sem_wf info st'"
proof (cases call)
  case (SEMCTL semid semnum cmd)
  then obtain res asu' st' where "semctl info now pid cr asu semid semnum cmd st = Inr (res, asu', st')" "sem_wf info st'"
    using semctl_wf [OF wf info, of semid now pid cr asu semnum cmd] call by auto
  then show ?thesis using SEMCTL by (simp add: semsys_def)
next
  case (SEMGET key nsems semflg)
  obtain res st' where g: "semget info now cr key nsems semflg st = (res, st')" by fastforce
  then show ?thesis using semget_wf [OF wf info g] SEMGET by (cases res) (simp_all add: semsys_def)
next
  case (SEMOP semid nsops sops)
  obtain ret st' where g: "semop info slot pid now cr semid nsops sops [] st = (ret, st')" by fastforce
  then show ?thesis using semop_wf [OF wf info _ g] SEMOP call
    by (auto simp: semsys_def split: sem_ret.split option.split)
qed (use wf in \<open>simp add: semsys_def\<close>)

lemma semsys_returns:
  assumes "sem_wf info st" "seminfo_ok info" "sem_call_range call"
  shows "\<exists>r. semsys info now pid slot cr asu sleeps call st = Inr r"
proof (cases "\<exists>semid nsops sops. call = SEMOP semid nsops sops")
  case True
  then show ?thesis by (auto simp: semsys_def split: prod.split sem_ret.split option.split)
next
  case False
  then have "semsys info now pid slot cr asu sleeps call st = semsys info now pid slot cr asu [] call st"
    by (cases call) (simp_all add: semsys_def)
  then show ?thesis using semsys_wf [OF assms, of now pid slot cr asu] by auto
qed

lemma sem_step_wf:
  assumes "sem_step info st st'" "sem_wf info st" "seminfo_ok info"
  shows "sem_wf info st'"
  using assms
proof (cases rule: sem_step.cases)
  case (call c now pid slot cr asu res asu')
  then show ?thesis using semsys_wf [OF assms(2,3) call(1), of now pid slot cr asu] by simp
next
  case (wake semid i ops slot pid now ret)
  show ?thesis
  proof (cases "semconv st semid = None")
    case True
    then show ?thesis
      using semop_check_wf [OF assms(2,3) _ wake(1) _ wake(4)] wake(2,3) semconv_None_lock [OF True] by simp
  next
    case False
    then have "st' = st" using wake(4) by (subst (asm) semop_check.simps) simp
    then show ?thesis using assms(2) by simp
  qed
next
  case (intr_n k)
  have "undo_same st st'" "table_same st st'" "sem_vals st' = sem_vals st"
    by (simp_all add: intr_n sem_intr_n_def upd_sem_vals_same)
  then show ?thesis using sem_wf_quiet [OF assms(2) table_same_core] by simp
next
  case (intr_z k)
  have "undo_same st st'" "table_same st st'" "sem_vals st' = sem_vals st"
    by (simp_all add: intr_z sem_intr_z_def upd_sem_vals_same)
  then show ?thesis using sem_wf_quiet [OF assms(2) table_same_core] by simp
next
  case (exit slot)
  then show ?thesis using semexit_wf(1) [OF assms(2,3)] by simp
qed

lemma sem_init_wf:
  assumes init: "sem_init tune mapsz v_proc maxavail map_ok None = Inr (Inr (info, st))"
    and mapsz: "2 \<le> mapsz" "mapsz < 2 ^ 31" and mns: "semmns tune < 2 ^ 31" and ok: "seminfo_ok tune"
  shows "sem_wf info st" "seminfo_ok info"
proof -
  define mp0 where "mp0 = \<lparr>mh_free = mapsz, mh_want = 0, mh_nam = ''rmallocmap'', mh_size = mapsz, mh_map = []\<rparr>"
  have "rmallocmap True mapsz = Inr (Some mp0)"
    using mapsz by (simp add: rmallocmap_def mapinit_def MAP_OVERHEAD_def mp0_def)
  moreover have "map_ok" using init by (auto simp: sem_init_def rmallocmap_def Let_def split: if_splits)
  ultimately obtain w mp where info: "info = (if semmni tune > SEMA_INDEX_MAX then tune\<lparr>semmni := SEMA_INDEX_MAX\<rparr> else tune)"
    and mp: "rmfree mp0 (semmns info) 1 = Inr (w, mp)"
    and st: "st = \<lparr>sema = replicate (semmni info) semid_zero, sem_arr = replicate (semmns info) sem_zero,
                semmap = mp, sem_undo = (\<lambda>_. None), semu = (\<lambda>_. []), semunp = [], semfup = [0 ..< semmnu info], sem_wakes = []\<rparr>"
    using init by (auto simp: sem_init_def Let_def split: if_splits sum.splits)
  show "seminfo_ok info" using ok by (simp add: info seminfo_ok_def)
  have n: "semmns info < 2 ^ 31" "semmni info \<le> 0xffff" using mns by (simp_all add: info SEMA_INDEX_MAX_def)
  have pos: "0 < semmns info" using mp by (cases "semmns info = 0") (simp_all add: rmfree_def rmfree_among_def ssize_pos_def)
  have wf0: "rmap_wf mp0" "rm_space mp0 = {}" using mapsz by (simp_all add: mp0_def rmap_wf_def rmap_inv_def rm_space_def)
  have "rmap_wf mp" "rm_space mp \<subseteq> {1 ..< 1 + semmns info}"
    using rmfree_correct [OF wf0(1), of 1 "semmns info"] pos n(1) mp wf0(2) by auto
  moreover have none: "\<not> ipc_allocd (sem_perm semid_zero)" "ipc_seq (sem_perm semid_zero) = 0"
    by (simp_all add: semid_zero_def ipc_allocd_def)
  moreover have "sem_own st = Map.empty" using none by (auto simp: sem_own_def st fun_eq_iff)
  moreover have "keys_distinct (sem_perms st)" using none by (simp add: keys_distinct_def sem_perms_def st)
  ultimately have "sem_tab_wf st" using n(2) by (auto simp: sem_tab_wf_def st)
  moreover have "undo_inv info st" by (simp add: undo_inv_def ents_ok_def st)
  ultimately show "sem_wf info st" by (simp add: sem_wf_def sem_vals_def sem_ents_def st sem_zero_def)
qed


text \<open>The examples' tunables, and the module just loaded with them.\<close>

definition demo_boot :: sem_sys where
  "demo_boot =
     \<lparr>sema = [semid_zero], sem_arr = [sem_zero, sem_zero],
      semmap = \<lparr>mh_free = 3, mh_want = 0, mh_nam = ''rmallocmap'', mh_size = 4, mh_map = [\<lparr>m_size = 2, m_addr = 1\<rparr>]\<rparr>,
      sem_undo = (\<lambda>_. None), semu = (\<lambda>_. []), semunp = [], semfup = [0], sem_wakes = []\<rparr>"

lemma demo_boot_init: "sem_init demo_info 4 10 100000 True None = Inr (Inr (demo_info, demo_boot))"
proof -
  have "replicate 2 sem_zero = [sem_zero, sem_zero]" by (simp add: numeral_2_eq_2)
  then show ?thesis
    by (simp add: sem_init_def demo_info_def demo_boot_def SEMA_INDEX_MAX_def sem_memory_def rmallocmap_def mapinit_def
        MAP_OVERHEAD_def rmfree_def rmfree_among_def ssize_pos_def rmfree_retry.simps Let_def)
qed

lemma demo_boot_reach: "sem_reach demo_info demo_boot" "seminfo_ok demo_info"
  by (rule sem_reach.load [OF demo_boot_init]; simp add: demo_info_def seminfo_ok_def)
     (simp add: demo_info_def seminfo_ok_def)


section \<open>Removing, creating, setting\<close>

text \<open>
  C19: \<open>IPC_RMID\<close> by the owner, the creator or the super-user, with an identifier that is not negative,
  succeeds and never panics in \<open>rmfree\<close>. The entry of the set in the table is marked free with the
  next sequence number (15 bits) and no other entry changes; so the identifier is no longer accepted. The semaphores
  of the set are cleared, their sleepers woken, and no other semaphore changes. The range of the set goes back
  to the map, exactly, whenever the map has a slot for it or it touches a free segment. Of the undo entries of
  every process exactly those of the set are gone. Anybody else gets \<open>EPERM\<close> and nothing changes.
\<close>

theorem semctl_rmid_correct:
  assumes "sem_wf info st" "seminfo_ok info" "semid_range semid" "semconv_lock st semid = Some i"
  shows "let sp = sema st ! i; p = sem_perm sp; b = sem_base sp; n = sem_nsems sp in
    \<exists>res asu' st'. semctl info now pid cr asu semid semnum SemRMID st = Inr (res, asu', st') \<and> sem_wf info st'
    \<and> (if cr_uid cr \<in> {ipc_uid p, ipc_cuid p, 0}
       then res = Inr (OutInt 0) \<and> sem_own st' = (sem_own st)(i := None) \<and> semconv_lock st' semid = None
          \<and> sema st' = (sema st)[i := sp\<lparr>sem_perm := p\<lparr>ipc_seq := (ipc_seq p + 1) mod 2 ^ 15, ipc_mode := 0\<rparr>\<rparr>]
          \<and> sem_arr st' = take b (sem_arr st) @ replicate n sem_zero @ drop (b + n) (sem_arr st)
          \<and> (\<forall>k. b \<le> k \<and> k < b + n \<longrightarrow> (semncnt (sem_arr st ! k) \<noteq> 0 \<longrightarrow> BcastN k \<in> set (sem_wakes st'))
                                  \<and> (semzcnt (sem_arr st ! k) \<noteq> 0 \<longrightarrow> BcastZ k \<in> set (sem_wakes st')))
          \<and> (0 < mh_free (semmap st) \<or> rm_touches (semmap st) n (b + 1) \<longrightarrow>
               rm_space (semmap st') = rm_space (semmap st) \<union> {b + 1 ..< b + 1 + n})
          \<and> (\<forall>slot. sem_ents st' slot = filter (\<lambda>u. un_id u \<noteq> semid) (sem_ents st slot))
       else res = Inl EPERM \<and> st' = st)"
proof -
  let ?p = "sem_perm (sema st ! i)"
  have o: "fst (sem_owner ?p cr asu) \<longleftrightarrow> cr_uid cr \<in> {ipc_uid ?p, ipc_cuid ?p, 0}"
    by (auto simp: sem_owner_def suser_def)
  obtain res asu' st' where r: "semctl_rmid semid i cr asu st = Inr (res, asu', st')" "sem_wf info st'"
    and ok: "cr_uid cr \<in> {ipc_uid ?p, ipc_cuid ?p, 0} \<Longrightarrow>
      res = Inr (OutInt 0) \<and> sem_own st' = (sem_own st)(i := None) \<and> semconv_lock st' semid = None"
    and no: "cr_uid cr \<notin> {ipc_uid ?p, ipc_cuid ?p, 0} \<Longrightarrow> res = Inl EPERM \<and> st' = st"
    using semctl_rmid_wf [OF assms(1,4,3), of cr asu] unfolding o by blast
  have call: "semctl info now pid cr asu semid semnum SemRMID st = Inr (res, asu', st')"
    using r(1) assms(4) by (simp add: semctl_def)
  show ?thesis
  proof (cases "cr_uid cr \<in> {ipc_uid ?p, ipc_cuid ?p, 0}")
    case True
    then have "semctl_rmid semid i cr asu st = Inr (Inr (OutInt 0), asu', st')" using r(1) ok by simp
    note eff = semctl_rmid_effect [OF assms(1,4,3) this]
    show ?thesis unfolding Let_def using call r(2) True ok eff by auto
  next
    case False
    then show ?thesis unfolding Let_def using call r(2) no by auto
  qed
qed

lemma demo_sem_wf: "sem_wf demo_info demo_sem" "seminfo_ok demo_info" "semid_range 0x30000" "semconv_lock demo_sem 0x30000 = Some 0"
proof -
  have al: "ipc_allocd (sem_perm (sema demo_sem ! 0))" by (simp add: demo_sem_def ipc_allocd_def IPC_ALLOC_def)
  show "semconv_lock demo_sem 0x30000 = Some 0"
    using al by (simp add: semconv_lock_def sem_index_mod sem_sequ_mod Let_def) (simp add: demo_sem_def)
  have own: "sem_own demo_sem = Map.empty(0 \<mapsto> (1, 2))"
    using al by (auto simp: sem_own_def demo_sem_def fun_eq_iff)
  have "rmap_wf (semmap demo_sem)" "rm_space (semmap demo_sem) = {}"
    by (simp_all add: demo_sem_def rmap_wf_def rmap_inv_def rm_space_def)
  moreover have "owned_ok {} (sem_own demo_sem)" unfolding own owned_ok_def by simp
  ultimately have "sem_tab_wf demo_sem"
    unfolding sem_tab_wf_def own by (simp add: keys_distinct_def sem_perms_def) (simp add: demo_sem_def)
  then show "sem_wf demo_info demo_sem"
    using demo_sem_ok(1,3) by (simp add: sem_wf_def demo_info_def sem_ents_def) (simp add: demo_sem_def)
qed (simp_all add: demo_info_def seminfo_ok_def semid_range_def)

theorem semctl_rmid_correct_witness:
  "\<exists>res asu' st'. semctl demo_info 0 100 demo_cred False 0x30000 0 SemRMID demo_sem = Inr (res, asu', st')
    \<and> res = Inr (OutInt 0) \<and> semconv_lock st' 0x30000 = None \<and> sem_arr st' = [sem_zero, sem_zero]
    \<and> rm_space (semmap st') = {1, 2}"
proof -
  have "length (sem_arr demo_sem) = 2" "0 < mh_free (semmap demo_sem)" "rm_space (semmap demo_sem) = {}" "{1 ..< 3} = {1, 2 :: nat}"
    by (auto simp: demo_sem_def rm_space_def)
  moreover have "sem_base (sema demo_sem ! 0) = 0" "sem_nsems (sema demo_sem ! 0) = 2"
    "ipc_uid (sem_perm (sema demo_sem ! 0)) = cr_uid demo_cred" by (simp_all add: demo_sem_def demo_cred_def)
  ultimately show ?thesis
    using semctl_rmid_correct [OF demo_sem_wf, of 0 100 demo_cred False 0]
    by (auto simp: Let_def numeral_2_eq_2)
qed


lemma demo_boot_get:
  "ipcget 42 0x380 demo_cred (sem_perms demo_boot) = Inr (True, 0, ipcget_init 42 0x380 demo_cred (sem_perm semid_zero))"
  "fst (semget demo_info 9 demo_cred 42 2 0x380 demo_boot) = Inr 0"
proof -
  show g: "ipcget 42 0x380 demo_cred (sem_perms demo_boot) = Inr (True, 0, ipcget_init 42 0x380 demo_cred (sem_perm semid_zero))"
    by (simp add: ipcget_def IPC_PRIVATE_def sem_perms_def demo_boot_def semid_zero_def ipc_allocd_def ipc_creat_def IPC_CREAT_def)
  have "rmalloc (semmap demo_boot) 2 = (1, (semmap demo_boot)\<lparr>mh_free := 4, mh_map := []\<rparr>)"
    by (simp add: rmalloc_def rmalloc_locked_def demo_boot_def ssize_pos_def)
  then show "fst (semget demo_info 9 demo_cred 42 2 0x380 demo_boot) = Inr 0"
    by (simp add: semget_def g Let_def demo_info_def ipcget_init_def semid_zero_def sem_mkid_def)
qed


end
