(* ===== verification/Sem_Props.thy ===== *)
theory Sem_Props
  imports Sem_Inv
begin

text \<open>
  What the exit of a process does to the semaphores it has adjusted, and that \<open>GETALL\<close> reads
  back what \<open>SETALL\<close> stored.
\<close>

section \<open>Process exit\<close>

lemma semconv_lock_cong: "sema st' = sema st \<Longrightarrow> semconv_lock st' s = semconv_lock st s"
  unfolding semconv_lock_def by simp

text \<open>The place of a semaphore with an undo entry in the array, and its value after the exit.\<close>

definition undo_place :: "sem_sys \<Rightarrow> undo \<Rightarrow> nat" where
  "undo_place st u = sem_base (sema st ! sem_index (un_id u)) + un_num u"

definition exit_val :: "seminfo \<Rightarrow> nat \<Rightarrow> int \<Rightarrow> nat" where
  "exit_val info v aoe = (if 0 \<le> int v + aoe \<and> int v + aoe \<le> int (semvmx info) then nat (int v + aoe) else v)"

lemma semexit_ent_value:
  assumes "semconv_lock st (un_id u) = Some i" "undo_place st u < length (sem_arr st)" "semvmx info < 2 ^ 16"
  shows "sem_vals (semexit_ent info u st) =
    (sem_vals st)[undo_place st u := exit_val info (sem_vals st ! undo_place st u) (un_aoe u)]"
proof -
  let ?k = "undo_place st u"
  let ?w = "int (semval (sem_arr st ! ?k)) + un_aoe u"
  have k: "?k = sem_base (sema st ! i) + un_num u" using semconv_lock_Some(1) [OF assms(1)] by (simp add: undo_place_def)
  show ?thesis
  proof (cases "0 \<le> ?w \<and> ?w \<le> int (semvmx info)")
    case True
    then have "u16 ?w = nat ?w" using assms(3) by simp
    then show ?thesis using semexit_ent_eq [OF assms(1) k refl] True assms(2) by (simp add: exit_val_def)
  next
    case False
    then have "semexit_ent info u st = st" using semexit_ent_skip [of st u info] assms(1) k by auto
    moreover have "exit_val info (sem_vals st ! ?k) (un_aoe u) = sem_vals st ! ?k"
      using False assms(2) by (auto simp: exit_val_def)
    ultimately show ?thesis by simp
  qed
qed

lemma semexit_fold_values:
  assumes "\<forall>u \<in> set us. semconv_lock st (un_id u) \<noteq> None \<and> undo_place st u < length (sem_arr st)"
    "distinct (map (undo_place st) us)" "semvmx info < 2 ^ 16"
  shows "(\<forall>u \<in> set us. sem_vals (fold (semexit_ent info) us st) ! undo_place st u =
            exit_val info (sem_vals st ! undo_place st u) (un_aoe u))
    \<and> (\<forall>k. k \<notin> undo_place st ` set us \<longrightarrow> sem_vals (fold (semexit_ent info) us st) ! k = sem_vals st ! k)"
  using assms(1,2)
proof (induction us arbitrary: st)
  case (Cons u us)
  let ?st = "semexit_ent info u st" and ?k = "undo_place st u"
  have t: "table_same st ?st" by (simp add: semexit_ent_same)
  have same: "undo_place ?st = undo_place st" "semconv_lock ?st = semconv_lock st" "length (sem_arr ?st) = length (sem_arr st)"
    using t by (auto simp: table_same_def undo_place_def semconv_lock_def fun_eq_iff)
  obtain i where "semconv_lock st (un_id u) = Some i" "?k < length (sem_arr st)" using Cons.prems(1) by auto
  note v = semexit_ent_value [OF this assms(3)]
  have new: "?k \<notin> undo_place st ` set us" using Cons.prems(2) by auto
  have ih: "(\<forall>w \<in> set us. sem_vals (fold (semexit_ent info) us ?st) ! undo_place st w =
            exit_val info (sem_vals ?st ! undo_place st w) (un_aoe w))
    \<and> (\<forall>k. k \<notin> undo_place st ` set us \<longrightarrow> sem_vals (fold (semexit_ent info) us ?st) ! k = sem_vals ?st ! k)"
    using Cons.IH [of ?st] Cons.prems same by simp
  have "sem_vals ?st ! undo_place st w = sem_vals st ! undo_place st w" if "w \<in> set us" for w
    using new that v by (metis image_eqI nth_list_update_neq)
  then show ?case using ih new v \<open>?k < length (sem_arr st)\<close> by auto
qed simp

text \<open>Different entries of one process are about different semaphores.\<close>

lemma sem_live_place:
  assumes "sem_tab_wf st" "sem_live st (un_id u) (un_num u)"
  obtains i where "i < length (sema st)" "ipc_allocd (sem_perm (sema st ! i))" "un_num u < sem_nsems (sema st ! i)"
    "un_id u = sem_mkid (ipc_seq (sem_perm (sema st ! i))) i" "sem_index (un_id u) = i" "semconv_lock st (un_id u) = Some i"
proof -
  obtain i where i: "i < length (sema st)" "ipc_allocd (sem_perm (sema st ! i))" "un_num u < sem_nsems (sema st ! i)"
    "un_id u = sem_mkid (ipc_seq (sem_perm (sema st ! i))) i"
    using assms(2) by (auto simp: sem_live_def)
  have "sem_id_ok (ipc_seq (sem_perm (sema st ! i))) i" using assms(1) i(1) by (simp add: sem_tab_wf_def sem_id_ok_def)
  then have "sem_index (un_id u) = i" "sem_sequ (un_id u) = ipc_seq (sem_perm (sema st ! i))"
    using sem_ids.index_mk sem_ids.sequ_mk i(4) by simp_all
  then show thesis using that i by (simp add: semconv_lock_def)
qed

lemma sem_places_apart:
  assumes tab: "sem_tab_wf st" and live: "sem_live st (un_id u) (un_num u)" "sem_live st (un_id v) (un_num v)"
    and ne: "(un_id u, un_num u) \<noteq> (un_id v, un_num v)"
  shows "undo_place st u \<noteq> undo_place st v"
proof -
  obtain i where i: "i < length (sema st)" "ipc_allocd (sem_perm (sema st ! i))" "un_num u < sem_nsems (sema st ! i)"
    "un_id u = sem_mkid (ipc_seq (sem_perm (sema st ! i))) i" "sem_index (un_id u) = i"
    using sem_live_place [OF tab live(1)] by metis
  obtain j where j: "j < length (sema st)" "ipc_allocd (sem_perm (sema st ! j))" "un_num v < sem_nsems (sema st ! j)"
    "un_id v = sem_mkid (ipc_seq (sem_perm (sema st ! j))) j" "sem_index (un_id v) = j"
    using sem_live_place [OF tab live(2)] by metis
  show ?thesis
  proof (cases "i = j")
    case True
    then show ?thesis using ne i(4,5) j(4,5) by (auto simp: undo_place_def)
  next
    case False
    have "owned_ok (rm_space (semmap st)) (sem_own st)" using tab by (simp add: sem_tab_wf_def)
    from owned_ok_apart [OF this False] i(1,2) j(1,2)
    have "{sem_base (sema st ! i) + 1 ..< sem_base (sema st ! i) + 1 + sem_nsems (sema st ! i)}
      \<inter> {sem_base (sema st ! j) + 1 ..< sem_base (sema st ! j) + 1 + sem_nsems (sema st ! j)} = {}"
      by (simp add: sem_own_def)
    moreover have "sem_base (sema st ! i) + 1 + un_num u \<in> {sem_base (sema st ! i) + 1 ..< sem_base (sema st ! i) + 1 + sem_nsems (sema st ! i)}"
      "sem_base (sema st ! j) + 1 + un_num v \<in> {sem_base (sema st ! j) + 1 ..< sem_base (sema st ! j) + 1 + sem_nsems (sema st ! j)}"
      using i(3) j(3) by simp_all
    ultimately show ?thesis using i(5) j(5) by (auto simp: undo_place_def)
  qed
qed

lemma undo_places_distinct:
  assumes "sem_tab_wf st" "\<forall>u \<in> set us. sem_live st (un_id u) (un_num u)" "sorted_wrt undo_lt us"
  shows "distinct (map (undo_place st) us)"
  using assms(2,3)
proof (induction us)
  case (Cons u us)
  have "undo_place st u \<noteq> undo_place st v" if "v \<in> set us" for v
    using sem_places_apart [OF assms(1), of u v] Cons.prems that by (auto simp: undo_lt_def undo_before_def)
  then show ?case using Cons by auto
qed simp


text \<open>The example system with a process in slot 5 that has taken one unit of semaphore 0.\<close>

definition demo_undo :: sem_sys where
  "demo_undo = demo_sem\<lparr>sem_undo := (\<lambda>_. None)(5 := Some 0), semu := (\<lambda>_. [])(0 := [\<lparr>un_aoe = 1, un_num = 0, un_id = 0x30000\<rparr>]),
                       semunp := [0], semfup := []\<rparr>"

lemma demo_undo_wf: "sem_wf demo_info demo_undo" "sem_ents demo_undo 5 = [\<lparr>un_aoe = 1, un_num = 0, un_id = 0x30000\<rparr>]"
proof -
  show "sem_ents demo_undo 5 = [\<lparr>un_aoe = 1, un_num = 0, un_id = 0x30000\<rparr>]" by (simp add: demo_undo_def sem_ents_def)
  have live: "sem_live demo_sem 0x30000 0"
    using semconv_lock_live [OF demo_sem_wf(4,3), of 0] by (simp add: demo_sem_def)
  show "sem_wf demo_info demo_undo"
  proof (rule sem_wf_core [OF demo_sem_wf(1)])
    show "undo_inv demo_info demo_undo"
      by (rule undo_invI) (auto simp: demo_undo_def ents_ok_def demo_info_def split: if_splits)
    show "sem_live demo_sem (un_id u) (un_num u)" if "u \<in> set (sem_ents demo_undo slot)" for u slot
      using that live by (simp add: demo_undo_def sem_ents_def split: if_splits)
    show "\<forall>v \<in> set (sem_vals demo_undo). v \<le> semvmx demo_info"
      using demo_sem_ok(3) by (simp add: demo_undo_def sem_vals_def demo_info_def)
  qed (simp add: core_same_def demo_undo_def)
qed


section \<open>Setting and reading all values\<close>

lemma sem_store_all_list:
  "k + length vs \<le> length (sem_arr st) \<Longrightarrow>
   sem_vals (sem_store_all pid k vs st) = take k (sem_vals st) @ vs @ drop (k + length vs) (sem_vals st)"
proof (induction vs arbitrary: k st)
  case (Cons v vs)
  let ?st = "upd_sem k (\<lambda>s. s\<lparr>sempid := pid\<rparr>) (sem_store k v st)"
  have "table_same st ?st" by (simp add: sem_store_same)
  then have len: "length (sem_arr ?st) = length (sem_arr st)" by (simp add: table_same_def)
  have v: "sem_vals ?st = (sem_vals st)[k := v]" by (simp add: upd_sem_vals_same sem_store_same)
  have "sem_vals (sem_store_all pid k (v # vs) st) =
      take (Suc k) ((sem_vals st)[k := v]) @ vs @ drop (Suc k + length vs) ((sem_vals st)[k := v])"
    using Cons.IH [of "Suc k" ?st] Cons.prems len v by simp
  moreover have "k < length (sem_vals st)" using Cons.prems by simp
  ultimately show ?case by (simp add: take_Suc_conv_app_nth)
qed simp

text \<open>
  C30: \<open>SETALL\<close> with values within the limit, by a process allowed to alter the set, stores them:
  \<open>GETALL\<close> by any process allowed to read the set then returns exactly these values; the
  other semaphores of the array keep theirs, and no process keeps an undo entry for the set.
\<close>

theorem semctl_setall_getall:
  assumes wf: "sem_wf info st" and info: "seminfo_ok info" and id: "semid_range semid" "semconv_lock st semid = Some i"
    and alter: "ipcaccess (sem_perm (sema st ! i)) SEM_A cr = None"
    and "read": "ipcaccess (sem_perm (sema st ! i)) SEM_R cr' = None"
    and vals: "length vals = sem_nsems (sema st ! i)" "\<forall>v \<in> set vals. v \<le> semvmx info"
  shows "\<exists>st'. semctl info now pid cr asu semid n (SETALL (Some vals)) st = Inr (Inr (OutInt 0), asu, st')
    \<and> semctl info now' pid' cr' asu' semid n' (GETALL (\<lambda>_. True)) st' = Inr (Inr (OutVals vals), asu', st')
    \<and> (\<forall>k. k < sem_base (sema st ! i) \<or> sem_base (sema st ! i) + length vals \<le> k \<longrightarrow> sem_vals st' ! k = sem_vals st ! k)
    \<and> (\<forall>slot. \<forall>u \<in> set (sem_ents st' slot). un_id u \<noteq> semid)"
proof -
  let ?sp = "sema st ! i"
  let ?b = "sem_base ?sp" and ?n = "sem_nsems ?sp"
  note c = semconv_lock_Some [OF id(2)] and parts = sem_wf_parts [OF wf]
  define st1 where "st1 = semunrm semid 0 ?n st"
  define st' where "st' = sem_store_all pid ?b vals st1"
  have "?sp \<in> set (sema st)" using c(2) by simp
  then have fit: "?b + ?n \<le> length (sem_arr st)" using sem_wf_sets_fit [OF wf] c(3) by (simp add: sets_fit_def)
  have t: "table_same st st'" "undo_same st1 st'" by (simp_all add: st'_def sem_store_all_same) (simp add: st1_def table_same_def)
  have v: "sem_vals st' = take ?b (sem_vals st) @ vals @ drop (?b + length vals) (sem_vals st)"
    using sem_store_all_list [of ?b vals st1 pid] fit vals(1) by (simp add: st'_def st1_def sem_vals_def)
  have set: "semctl info now pid cr asu semid n (SETALL (Some vals)) st = Inr (Inr (OutInt 0), asu, st')"
    using id(2) alter vals by (auto simp: semctl_def semctl_setall_def Let_def st'_def st1_def list_ex_iff)
  have "semval (sem_arr st' ! (?b + k)) = vals ! k" if "k < ?n" for k
  proof -
    have "?b + k < length (sem_arr st')" using that fit t(1) by (simp add: table_same_def)
    then have "semval (sem_arr st' ! (?b + k)) = sem_vals st' ! (?b + k)" by simp
    also have "\<dots> = vals ! k" using that fit vals(1) by (simp add: v nth_append)
    finally show ?thesis .
  qed
  then have "map (\<lambda>k. semval (sem_arr st' ! (?b + k))) [0 ..< ?n] = vals"
    using vals(1) by (intro nth_equalityI) simp_all
  moreover have tab: "sema st' = sema st" using t(1) by (simp add: table_same_def)
  moreover have "semconv_lock st' semid = Some i" using id(2) semconv_lock_cong [OF tab, of semid] by simp
  ultimately have get: "semctl info now' pid' cr' asu' semid n' (GETALL (\<lambda>_. True)) st' = Inr (Inr (OutVals vals), asu', st')"
    using "read" by (simp add: semctl_def semctl_getall_def Let_def list_all_iff)
  have gone: "un_id u \<noteq> semid" if "u \<in> set (sem_ents st' slot)" for u slot
  proof -
    have u: "u \<in> set (sem_ents st slot)" "\<not> undo_hit semid 0 ?n u"
      using that undo_same_view(2) [OF t(2)] by (simp_all add: st1_def semunrm_ok(2) [OF parts(1)])
    have "semid = sem_mkid (ipc_seq (sem_perm ?sp)) i"
      using c sem_mkid_sequ_index [of semid] id(1) by (simp add: semid_range_def)
    then show ?thesis
      using sem_live_unique [OF parts(3) c(2) sem_wf_live [OF wf u(1)]] u(2) by (fastforce simp: undo_hit_def)
  qed
  have "sem_vals st' ! k = sem_vals st ! k" if "k < ?b \<or> ?b + length vals \<le> k" for k
    using that fit vals(1) by (auto simp: v nth_append)
  then show ?thesis using set get gone by blast
qed

theorem semctl_setall_getall_witness:
  "\<exists>st'. semctl demo_info 0 100 demo_cred False 0x30000 0 (SETALL (Some [7, 20])) demo_undo = Inr (Inr (OutInt 0), False, st')
    \<and> semctl demo_info 0 200 demo_cred False 0x30000 0 (GETALL (\<lambda>_. True)) st' = Inr (Inr (OutVals [7, 20]), False, st')"
proof -
  have c: "semconv_lock demo_undo 0x30000 = Some 0"
    using demo_sem_wf(4) semconv_lock_cong [of demo_undo demo_sem] by (simp add: demo_undo_def)
  have "ipcaccess (sem_perm (sema demo_undo ! 0)) SEM_A demo_cred = None"
    "ipcaccess (sem_perm (sema demo_undo ! 0)) SEM_R demo_cred = None"
    by code_simp+
  from semctl_setall_getall [OF demo_undo_wf(1) demo_sem_wf(2,3) c this, of "[7, 20]" 0 100 False 0 0 200 False 0]
  show ?thesis by (auto simp: demo_undo_def demo_sem_def demo_info_def)
qed

section \<open>Limits that the code does not check\<close>

text \<open>
  An adjustment is kept in a \<^verbatim>\<open>short\<close>. With \<open>semaem\<close> at 30000, the sum of two adjustments of
  30000 wraps around to a value that passes the range check.
\<close>

lemma semaoe_upd_wraps:
  "semaoe_upd \<lparr>semmni = 1, semmns = 2, semmnu = 1, semmsl = 2, semopm = 10, semume = 10, semvmx = 32767, semaem = 30000\<rparr>
     (- 30000) 0x30000 0 [\<lparr>un_aoe = 30000, un_num = 0, un_id = 0x30000\<rparr>]
   = (None, [\<lparr>un_aoe = - 5536, un_num = 0, un_id = 0x30000\<rparr>])"
  by (simp add: semaoe_upd_def undo_before_def undo_at_def s16_def)

text \<open>
  \<open>semmsl\<close> is not bounded. A set of 65536 semaphores is recorded with 0 of them, and removing it
  panics.
\<close>

lemma semget_truncates: "u16 65536 = 0"
  by (simp add: u16_def)

lemma semctl_rmid_empty_panics:
  assumes "sem_nsems (sema st ! i) = 0" "sem_owner (sem_perm (sema st ! i)) cr asu = (True, asu')"
  shows "semctl_rmid semid i cr asu st = Inl (Panic ''bad rmfree'')"
  using assms by (simp add: semctl_rmid_def Let_def rmfree_def rmfree_among_def ssize_pos_def)

text \<open>
  An identifier with the sign bit set is taken for the same set, but undo entries recorded
  under it are not found when the set is changed or removed under the other one.
\<close>

lemma semconv_lock_alias: "semconv_lock st (s - 2 ^ 31) = semconv_lock st s"
proof -
  have e: "s - 2 ^ 31 = s + (- (2 ^ 15)) * 2 ^ 16" by simp
  have "(s - 2 ^ 31) mod 2 ^ 16 = s mod 2 ^ 16" unfolding e by (rule mod_mult_self1)
  moreover have "(s - 2 ^ 31) div 2 ^ 16 = s div 2 ^ 16 - 2 ^ 15" unfolding e by (subst div_mult_self1) simp_all
  then have "(s - 2 ^ 31) div 2 ^ 16 mod 2 ^ 15 = s div 2 ^ 16 mod 2 ^ 15" by (simp only: minus_mod_self2)
  ultimately have "sem_index (s - 2 ^ 31) = sem_index s" "sem_sequ (s - 2 ^ 31) = sem_sequ s"
    unfolding sem_index_mod sem_sequ_mod by simp_all
  then show ?thesis by (simp add: semconv_lock_def Let_def)
qed

text \<open>
  \<open>semget\<close> runs under \<^verbatim>\<open>sem_lock\<close> and not under the lock of the set. \<open>ipcget\<close> marks the entry
  allocated before its base and size are stored: here entry 0 is free and still has the range
  of a removed set, which now belongs to entry 1. Once \<open>ipcget\<close> has written the permissions of
  entry 0, its identifier is accepted and \<open>semop\<close> changes a semaphore of the other set.
\<close>

definition stale_sys :: sem_sys where
  "stale_sys = demo_sem\<lparr>sema :=
     [(sema demo_sem ! 0)\<lparr>sem_perm := (sem_perm (sema demo_sem ! 0))\<lparr>ipc_mode := 0, ipc_seq := 4\<rparr>\<rparr>, sema demo_sem ! 0]\<rparr>"

lemma semget_exposes_stale_range:
  "case ipcget 0 0x380 demo_cred (sem_perms stale_sys) of
     Inr (new, i, p) \<Rightarrow> new \<and> i = 0 \<and> sem_own stale_sys 0 = None \<and> sem_own stale_sys 1 = Some (1, 2)
       \<and> sem_vals stale_sys ! 0 = 1
       \<and> (case semop demo_info 5 100 9 demo_cred (sem_mkid (ipc_seq p) i) 1 (Some [\<lparr>sem_num = 0, sem_op = 1, sem_flg = 0\<rparr>]) []
                (upd_set i (\<lambda>sp. sp\<lparr>sem_perm := p\<rparr>) stale_sys) of
            (ret, st') \<Rightarrow> ret = Returned None \<and> sem_vals st' ! 0 = 2)"
  by code_simp

end
