(* ===== verification/Msg.thy ===== *)
theory Msg
  imports Rmap Ipc
begin

text \<open>
  The System V message module, \<^verbatim>\<open>os/msg.c\<close>: data and operations.

  A queue is the list of the messages on the chain from \<^verbatim>\<open>msg_first\<close> to \<^verbatim>\<open>msg_last\<close>. A message has a
  header, which is a number here; \<open>msgfp\<close> is the chain of the free headers. The text of a message
  is a range of segments of the pool \<open>msg_txt\<close> (\<^verbatim>\<open>msg\<close> in the code), allocated from the resource
  map \<open>msgmap\<close>. Operations on condition variables are logged in \<open>msg_wakes\<close>, most recent first.

  \<open>msgctl\<close>, \<open>msgrcv\<close> and \<open>msgsnd\<close> run under the lock of their queue between sleeps, and \<open>msgget\<close>
  runs under \<^verbatim>\<open>msg_lock\<close> only. Each of them, up to its first sleep, is one function of the state
  here: what another processor does between the point where \<open>ipcget\<close> marks an entry allocated
  and the end of \<open>msgget\<close>, or between the queue lock and the locks of the free chain and the map, is not
  modelled. \<open>msgrcv\<close> and \<open>msgsnd\<close>, which can sleep, take
  what happens during each sleep as an argument. Data copied from user memory is an argument,
  \<open>None\<close> for a fault; flags say whether copies to user memory succeed.
\<close>

section \<open>Data\<close>

record msginfo =
  msgmap_ents :: nat
  msgmax :: nat
  msgmnb :: nat
  msgmni :: nat
  msgssz :: nat
  msgtql :: nat
  msgseg :: nat

record msg =
  msg_hdr :: nat
  msg_type :: int
  msg_ts :: nat
  msg_spot :: int

record msqid_ds =
  msg_perm :: ipc_perm
  msg_q :: "msg list"
  msg_cbytes :: nat
  msg_qnum :: nat
  msg_qbytes :: nat
  msg_lspid :: int
  msg_lrpid :: int
  msg_stime :: int
  msg_rtime :: int
  msg_ctime :: int

datatype msg_wake = WakeReaders nat | WakeWriters nat | WakeHeaders

record msg_sys =
  msgque :: "msqid_ds list"
  msgmap :: map_head
  msgfp :: "nat list"
  msg_txt :: "8 word list"
  msg_wakes :: "msg_wake list"

definition MSG_R :: "32 word" where "MSG_R = 0x100"
definition MSG_W :: "32 word" where "MSG_W = 0x80"
definition MSG_RWAIT :: "32 word" where "MSG_RWAIT = 0x200"
definition MSG_WWAIT :: "32 word" where "MSG_WWAIT = 0x400"
definition MSG_NOERROR :: "32 word" where "MSG_NOERROR = 0x1000"

definition msg_nowait :: "32 word \<Rightarrow> bool" where
  "msg_nowait flg \<longleftrightarrow> flg AND IPC_NOWAIT \<noteq> 0"

definition msg_noerror :: "32 word \<Rightarrow> bool" where
  "msg_noerror flg \<longleftrightarrow> flg AND MSG_NOERROR \<noteq> 0"

definition rwaiting :: "ipc_perm \<Rightarrow> bool" where
  "rwaiting p \<longleftrightarrow> ipc_mode p AND MSG_RWAIT \<noteq> 0"

definition wwaiting :: "ipc_perm \<Rightarrow> bool" where
  "wwaiting p \<longleftrightarrow> ipc_mode p AND MSG_WWAIT \<noteq> 0"

definition set_flag :: "32 word \<Rightarrow> msqid_ds \<Rightarrow> msqid_ds" where
  "set_flag f qp = qp\<lparr>msg_perm := (msg_perm qp)\<lparr>ipc_mode := ipc_mode (msg_perm qp) OR f\<rparr>\<rparr>"

definition clear_flag :: "32 word \<Rightarrow> msqid_ds \<Rightarrow> msqid_ds" where
  "clear_flag f qp = qp\<lparr>msg_perm := (msg_perm qp)\<lparr>ipc_mode := ipc_mode (msg_perm qp) AND NOT f\<rparr>\<rparr>"

definition msg_perms :: "msg_sys \<Rightarrow> ipc_perm list" where
  "msg_perms st = map msg_perm (msgque st)"

definition upd_q :: "nat \<Rightarrow> (msqid_ds \<Rightarrow> msqid_ds) \<Rightarrow> msg_sys \<Rightarrow> msg_sys" where
  "upd_q i f st = st\<lparr>msgque := (msgque st)[i := f (msgque st ! i)]\<rparr>"

definition wake :: "msg_wake \<Rightarrow> msg_sys \<Rightarrow> msg_sys" where
  "wake w st = st\<lparr>msg_wakes := w # msg_wakes st\<rparr>"

text \<open>Bytes to segments.\<close>

definition btoq :: "msginfo \<Rightarrow> nat \<Rightarrow> nat" where
  "btoq info n = (n + msgssz info - 1) div msgssz info"

section \<open>Headers and text\<close>

text \<open>Putting a header back on the free chain, which wakes those who wait for one.\<close>

definition msg_hdr_free :: "nat \<Rightarrow> msg_sys \<Rightarrow> msg_sys" where
  "msg_hdr_free h st =
     (let st1 = st\<lparr>msgfp := h # msgfp st\<rparr> in if msgfp st = [] then wake WakeHeaders st1 else st1)"

definition del_nth :: "nat \<Rightarrow> 'a list \<Rightarrow> 'a list" where
  "del_nth k xs = take k xs @ drop (Suc k) xs"

text \<open>
  \<open>msgfree\<close> takes the message at position \<open>k\<close> of queue \<open>i\<close>, where the code has pointers to the
  message and to its predecessor.
\<close>

definition msgfree :: "msginfo \<Rightarrow> nat \<Rightarrow> nat \<Rightarrow> msg_sys \<Rightarrow> msg_sys kres" where
  "msgfree info i k st =
     (let mp = msg_q (msgque st ! i) ! k;
          st1 = upd_q i (\<lambda>qp. qp\<lparr>msg_q := del_nth k (msg_q qp), msg_qnum := usub (msg_qnum qp) 1\<rparr>) st;
          st2 = (if wwaiting (msg_perm (msgque st1 ! i))
                 then wake (WakeWriters i) (upd_q i (clear_flag MSG_WWAIT) st1) else st1)
      in
        if msg_ts mp \<noteq> 0 then
          (case rmfree (msgmap st2) (btoq info (msg_ts mp)) (nat ((msg_spot mp + 1) mod 2 ^ 32)) of
             Inl f \<Rightarrow> Inl f
           | Inr (_, map') \<Rightarrow> Inr (msg_hdr_free (msg_hdr mp) (st2\<lparr>msgmap := map'\<rparr>)))
        else Inr (msg_hdr_free (msg_hdr mp) st2))"

section \<open>Identifiers\<close>

definition msg_mkid :: "nat \<Rightarrow> nat \<Rightarrow> nat \<Rightarrow> int" where
  "msg_mkid mni sq i = s32 (int sq * int mni + int i)"

definition msgconv :: "msginfo \<Rightarrow> int \<Rightarrow> msg_sys \<Rightarrow> errno + nat" where
  "msgconv info idn st =
     (if idn < 0 then Inl EINVAL
      else
        let i = nat (idn mod int (msgmni info)); qp = msgque st ! i in
        if \<not> ipc_allocd (msg_perm qp) \<or> idn div int (msgmni info) \<noteq> int (ipc_seq (msg_perm qp)) then Inl EINVAL
        else Inr i)"

section \<open>msgctl\<close>

record o_msqid_ds =
  om_uid :: nat
  om_gid :: nat
  om_cuid :: nat
  om_cgid :: nat
  om_mode :: nat
  om_seq :: nat
  om_key :: int
  om_cbytes :: nat
  om_qnum :: nat
  om_qbytes :: nat
  om_lspid :: int
  om_lrpid :: int
  om_stime :: int
  om_rtime :: int
  om_ctime :: int

datatype msg_cmd =
    MsgRMID
  | MsgOSET "(nat \<times> nat \<times> 32 word \<times> nat) option"
  | MsgSET "(int \<times> int \<times> 32 word \<times> nat) option"
  | MsgOSTAT bool
  | MsgSTAT bool
  | MsgBADCMD

datatype msgctl_out = MsgZero | MsgDs msqid_ds | MsgOds o_msqid_ds

type_synonym msgctl_res = "((errno + msgctl_out) \<times> bool \<times> msg_sys) kres"

definition msg_owner :: "ipc_perm \<Rightarrow> cred \<Rightarrow> bool \<Rightarrow> bool \<times> bool" where
  "msg_owner p cr asu =
     (if cr_uid cr \<noteq> ipc_uid p \<and> cr_uid cr \<noteq> ipc_cuid p then suser cr asu else (True, asu))"

text \<open>Freeing the first message until there is none.\<close>

primrec msg_drain :: "nat \<Rightarrow> msginfo \<Rightarrow> nat \<Rightarrow> msg_sys \<Rightarrow> msg_sys kres" where
  "msg_drain 0 info i st = Inr st"
| "msg_drain (Suc n) info i st = (case msgfree info i 0 st of Inl f \<Rightarrow> Inl f | Inr st' \<Rightarrow> msg_drain n info i st')"

text \<open>The test \<^verbatim>\<open>msgid + msginfo.msgmni < 0\<close> is about a signed overflow.\<close>

definition msg_next_seq :: "nat \<Rightarrow> int \<Rightarrow> nat \<Rightarrow> nat" where
  "msg_next_seq mni idn sq = (if idn + int mni \<ge> 2 ^ 31 then 0 else sq + 1)"

definition msgctl_rmid :: "msginfo \<Rightarrow> int \<Rightarrow> nat \<Rightarrow> cred \<Rightarrow> bool \<Rightarrow> msg_sys \<Rightarrow> msgctl_res" where
  "msgctl_rmid info msgid i cr asu st =
     (let (okay, asu) = msg_owner (msg_perm (msgque st ! i)) cr asu in
      if \<not> okay then Inr (Inl EPERM, asu, st)
      else
        case msg_drain (length (msg_q (msgque st ! i))) info i st of
          Inl f \<Rightarrow> Inl f
        | Inr st1 \<Rightarrow>
            (let p = msg_perm (msgque st1 ! i);
                 st2 = (if rwaiting p then wake (WakeReaders i) st1 else st1);
                 st3 = (if wwaiting p then wake (WakeWriters i) st2 else st2)
             in
               Inr (Inr MsgZero, asu,
                 upd_q i (\<lambda>qp. qp\<lparr>msg_cbytes := 0,
                                  msg_perm := p\<lparr>ipc_seq := msg_next_seq (msgmni info) msgid (ipc_seq p), ipc_mode := 0\<rparr>\<rparr>) st3)))"

definition msg_set_perm :: "nat \<Rightarrow> int \<Rightarrow> int \<Rightarrow> 32 word \<Rightarrow> nat \<Rightarrow> int \<Rightarrow> msg_sys \<Rightarrow> msg_sys" where
  "msg_set_perm i uid gid mode qbytes now =
     upd_q i (\<lambda>qp. qp\<lparr>msg_perm := (msg_perm qp)\<lparr>ipc_uid := uid, ipc_gid := gid,
                         ipc_mode := (ipc_mode (msg_perm qp) AND NOT mode777) OR (mode AND mode777)\<rparr>,
                     msg_qbytes := qbytes, msg_ctime := now\<rparr>)"

definition msgctl_oset :: "int \<Rightarrow> nat \<Rightarrow> cred \<Rightarrow> bool \<Rightarrow> (nat \<times> nat \<times> 32 word \<times> nat) option \<Rightarrow> msg_sys \<Rightarrow> msgctl_res" where
  "msgctl_oset now i cr asu arg st =
     (let qp = msgque st ! i; (okay, asu) = msg_owner (msg_perm qp) cr asu in
      if \<not> okay then Inr (Inl EPERM, asu, st)
      else
        case arg of
          None \<Rightarrow> Inr (Inl EFAULT, asu, st)
        | Some (uid, gid, mode, qbytes) \<Rightarrow>
            (let (big, asu) = (if qbytes > msg_qbytes qp then map_prod Not id (suser cr asu) else (False, asu)) in
             if big then Inr (Inl EPERM, asu, st)
             else if uid \<ge> 65535 \<or> gid \<ge> 65535 then Inr (Inl EOVERFLOW, asu, st)
             else if uid > 2147483647 \<or> gid > 2147483647 then Inr (Inl EINVAL, asu, st)
             else Inr (Inr MsgZero, asu, msg_set_perm i (int uid) (int gid) mode qbytes now st)))"

definition msgctl_set :: "int \<Rightarrow> nat \<Rightarrow> cred \<Rightarrow> bool \<Rightarrow> (int \<times> int \<times> 32 word \<times> nat) option \<Rightarrow> msg_sys \<Rightarrow> msgctl_res" where
  "msgctl_set now i cr asu arg st =
     (let qp = msgque st ! i; (okay, asu) = msg_owner (msg_perm qp) cr asu in
      if \<not> okay then Inr (Inl EPERM, asu, st)
      else
        case arg of
          None \<Rightarrow> Inr (Inl EFAULT, asu, st)
        | Some (uid, gid, mode, qbytes) \<Rightarrow>
            (let (big, asu) = (if qbytes > msg_qbytes qp then map_prod Not id (suser cr asu) else (False, asu)) in
             if big then Inr (Inl EPERM, asu, st)
             else if uid < 0 \<or> uid > 2147483647 \<or> gid < 0 \<or> gid > 2147483647 then Inr (Inl EINVAL, asu, st)
             else Inr (Inr MsgZero, asu, msg_set_perm i uid gid mode qbytes now st)))"

definition over_u :: "int \<Rightarrow> int \<Rightarrow> bool" where
  "over_u lim x \<longleftrightarrow> x mod 2 ^ 32 > lim"

definition msgctl_ostat :: "nat \<Rightarrow> cred \<Rightarrow> bool \<Rightarrow> bool \<Rightarrow> msg_sys \<Rightarrow> msgctl_res" where
  "msgctl_ostat i cr asu copy_ok st =
     (let qp = msgque st ! i; p = msg_perm qp in
      case ipcaccess p MSG_R cr of
        Some e \<Rightarrow> Inr (Inl e, asu, st)
      | None \<Rightarrow>
          if over_u 65535 (ipc_uid p) \<or> over_u 65535 (ipc_gid p) \<or> over_u 65535 (ipc_cuid p)
             \<or> over_u 65535 (ipc_cgid p) \<or> over_u 65535 (int (ipc_seq p)) \<or> over_u 65535 (int (msg_cbytes qp))
             \<or> over_u 65535 (int (msg_qnum qp)) \<or> over_u 65535 (int (msg_qbytes qp))
             \<or> over_u 32767 (msg_lspid qp) \<or> over_u 32767 (msg_lrpid qp)
          then Inr (Inl EOVERFLOW, asu, st)
          else if \<not> copy_ok then Inr (Inl EFAULT, asu, st)
          else
            Inr (Inr (MsgOds \<lparr>om_uid = u16 (ipc_uid p), om_gid = u16 (ipc_gid p), om_cuid = u16 (ipc_cuid p),
                   om_cgid = u16 (ipc_cgid p), om_mode = u16 (uint (ipc_mode p)), om_seq = u16 (int (ipc_seq p)),
                   om_key = ipc_key p, om_cbytes = u16 (int (msg_cbytes qp)), om_qnum = u16 (int (msg_qnum qp)),
                   om_qbytes = u16 (int (msg_qbytes qp)), om_lspid = s16 (msg_lspid qp), om_lrpid = s16 (msg_lrpid qp),
                   om_stime = msg_stime qp, om_rtime = msg_rtime qp, om_ctime = msg_ctime qp\<rparr>), asu, st))"

definition msgctl_stat :: "nat \<Rightarrow> cred \<Rightarrow> bool \<Rightarrow> bool \<Rightarrow> msg_sys \<Rightarrow> msgctl_res" where
  "msgctl_stat i cr asu copy_ok st =
     (case ipcaccess (msg_perm (msgque st ! i)) MSG_R cr of
        Some e \<Rightarrow> Inr (Inl e, asu, st)
      | None \<Rightarrow>
          if \<not> copy_ok then Inr (Inl EFAULT, asu, st)
          else Inr (Inr (MsgDs (msgque st ! i)), asu, st))"

definition msgctl :: "msginfo \<Rightarrow> int \<Rightarrow> cred \<Rightarrow> bool \<Rightarrow> int \<Rightarrow> msg_cmd \<Rightarrow> msg_sys \<Rightarrow> msgctl_res" where
  "msgctl info now cr asu msgid cmd st =
     (case msgconv info msgid st of
        Inl e \<Rightarrow> Inr (Inl e, asu, st)
      | Inr i \<Rightarrow>
          (case cmd of
             MsgRMID \<Rightarrow> msgctl_rmid info msgid i cr asu st
           | MsgOSET arg \<Rightarrow> msgctl_oset now i cr asu arg st
           | MsgSET arg \<Rightarrow> msgctl_set now i cr asu arg st
           | MsgOSTAT copy_ok \<Rightarrow> msgctl_ostat i cr asu copy_ok st
           | MsgSTAT copy_ok \<Rightarrow> msgctl_stat i cr asu copy_ok st
           | MsgBADCMD \<Rightarrow> Inr (Inl EINVAL, asu, st)))"

section \<open>msgget\<close>

definition msgget :: "msginfo \<Rightarrow> int \<Rightarrow> cred \<Rightarrow> int \<Rightarrow> 32 word \<Rightarrow> msg_sys \<Rightarrow> (errno + int) \<times> msg_sys" where
  "msgget info now cr key msgflg st =
     (case ipcget key msgflg cr (msg_perms st) of
        Inl e \<Rightarrow> (Inl e, st)
      | Inr (new, i, p) \<Rightarrow>
          (Inr (msg_mkid (msgmni info) (ipc_seq p) i),
           if new then
             upd_q i (\<lambda>qp. qp\<lparr>msg_perm := p, msg_q := [], msg_qnum := 0, msg_qbytes := msgmnb info,
                              msg_lspid := 0, msg_lrpid := 0, msg_stime := 0, msg_rtime := 0, msg_ctime := now\<rparr>) st
           else st))"

section \<open>msgrcv\<close>

text \<open>
  The search for a message of the type asked for: its position, if there is one. For a negative
  type, \<open>best\<close> is the position and the type of the best message so far.
\<close>

fun msg_find_type :: "int \<Rightarrow> nat \<Rightarrow> msg list \<Rightarrow> nat option" where
  "msg_find_type typ k [] = None"
| "msg_find_type typ k (mp # q) = (if typ \<noteq> msg_type mp then msg_find_type typ (Suc k) q else Some k)"

fun msg_find_low :: "int \<Rightarrow> (nat \<times> int) option \<Rightarrow> nat \<Rightarrow> msg list \<Rightarrow> (nat \<times> int) option" where
  "msg_find_low typ best k [] = best"
| "msg_find_low typ best k (mp # q) =
     (if msg_type mp \<le> s32 (- typ) then
        (if (case best of Some (_, t) \<Rightarrow> t \<le> msg_type mp | None \<Rightarrow> False) then msg_find_low typ best (Suc k) q
         else msg_find_low typ (Some (k, msg_type mp)) (Suc k) q)
      else msg_find_low typ best (Suc k) q)"

definition msg_find :: "int \<Rightarrow> msg list \<Rightarrow> nat option" where
  "msg_find typ q =
     (if typ = 0 then (if q = [] then None else Some 0)
      else if typ > 0 then msg_find_type typ 0 q
      else map_option fst (msg_find_low typ None 0 q))"

text \<open>The bytes of the pool from a segment on.\<close>

definition pool_read :: "msginfo \<Rightarrow> msg_sys \<Rightarrow> int \<Rightarrow> nat \<Rightarrow> 8 word list" where
  "pool_read info st spot n = take n (drop (msgssz info * nat spot) (msg_txt st))"

definition pool_write :: "msginfo \<Rightarrow> msg_sys \<Rightarrow> nat \<Rightarrow> 8 word list \<Rightarrow> msg_sys" where
  "pool_write info st spot bs =
     st\<lparr>msg_txt := take (msgssz info * spot) (msg_txt st) @ bs @ drop (msgssz info * spot + length bs) (msg_txt st)\<rparr>"

text \<open>
  One pass of \<open>msgrcv\<close> on queue \<open>i\<close>: an error, the type and the text of a message, or a wait. The
  flags say whether the type and the text can be copied out.
\<close>

datatype rcv_outcome = RcvErr errno | RcvMsg int "8 word list" | RcvWait

definition msgrcv_take ::
  "msginfo \<Rightarrow> int \<Rightarrow> int \<Rightarrow> nat \<Rightarrow> int \<Rightarrow> int \<Rightarrow> 32 word \<Rightarrow> bool \<Rightarrow> bool \<Rightarrow> msg_sys \<Rightarrow> (rcv_outcome \<times> msg_sys) kres"
where
  "msgrcv_take info pid now i msgsz msgtyp msgflg type_ok text_ok st =
     (case msg_find msgtyp (msg_q (msgque st ! i)) of
        Some k \<Rightarrow>
          (let smp = msg_q (msgque st ! i) ! k in
           if msgsz < int (msg_ts smp) \<and> \<not> msg_noerror msgflg then Inr (RcvErr E2BIG, st)
           else
             let sz = (if msgsz < int (msg_ts smp) then nat msgsz else msg_ts smp) in
             if \<not> type_ok then Inr (RcvErr EFAULT, st)
             else if sz \<noteq> 0 \<and> \<not> text_ok then Inr (RcvErr EFAULT, st)
             else
               case msgfree info i k
                      (upd_q i (\<lambda>qp. qp\<lparr>msg_cbytes := usub (msg_cbytes qp) (msg_ts smp),
                                        msg_lrpid := pid, msg_rtime := now\<rparr>) st) of
                 Inl f \<Rightarrow> Inl f
               | Inr st' \<Rightarrow> Inr (RcvMsg (msg_type smp) (pool_read info st (msg_spot smp) sz), st'))
      | None \<Rightarrow>
          if msg_nowait msgflg then Inr (RcvErr ENOMSG, st)
          else Inr (RcvWait, upd_q i (set_flag MSG_RWAIT) st))"

text \<open>Whether the queue a sleeper went to sleep on has been removed meanwhile.\<close>

definition msg_gone :: "msginfo \<Rightarrow> int \<Rightarrow> nat \<Rightarrow> msg_sys \<Rightarrow> bool" where
  "msg_gone info msqid i st \<longleftrightarrow>
     \<not> ipc_allocd (msg_perm (msgque st ! i)) \<or> msqid div int (msgmni info) \<noteq> int (ipc_seq (msg_perm (msgque st ! i)))"

datatype msg_ret = MsgRet "errno + int \<times> 8 word list" | MsgAsleep

fun msgrcv_loop ::
  "msginfo \<Rightarrow> int \<Rightarrow> int \<Rightarrow> int \<Rightarrow> nat \<Rightarrow> int \<Rightarrow> int \<Rightarrow> 32 word \<Rightarrow> bool \<Rightarrow> bool
   \<Rightarrow> (bool \<times> (msg_sys \<Rightarrow> msg_sys)) list \<Rightarrow> msg_sys \<Rightarrow> (msg_ret \<times> msg_sys) kres"
where
  "msgrcv_loop info pid now msqid i msgsz msgtyp msgflg type_ok text_ok sleeps st =
     (case msgrcv_take info pid now i msgsz msgtyp msgflg type_ok text_ok st of
        Inl f \<Rightarrow> Inl f
      | Inr (RcvErr e, st1) \<Rightarrow> Inr (MsgRet (Inl e), st1)
      | Inr (RcvMsg t bs, st1) \<Rightarrow> Inr (MsgRet (Inr (t, bs)), st1)
      | Inr (RcvWait, st1) \<Rightarrow>
          (case sleeps of
             [] \<Rightarrow> Inr (MsgAsleep, st1)
           | (intr, env) # sleeps' \<Rightarrow>
               if intr then Inr (MsgRet (Inl EINTR), env st1)
               else if msg_gone info msqid i (env st1) then Inr (MsgRet (Inl EIDRM), env st1)
               else msgrcv_loop info pid now msqid i msgsz msgtyp msgflg type_ok text_ok sleeps' (env st1)))"

declare msgrcv_loop.simps [simp del]

definition msgrcv ::
  "msginfo \<Rightarrow> int \<Rightarrow> int \<Rightarrow> cred \<Rightarrow> int \<Rightarrow> int \<Rightarrow> int \<Rightarrow> 32 word \<Rightarrow> bool \<Rightarrow> bool
   \<Rightarrow> (bool \<times> (msg_sys \<Rightarrow> msg_sys)) list \<Rightarrow> msg_sys \<Rightarrow> (msg_ret \<times> msg_sys) kres"
where
  "msgrcv info pid now cr msqid msgsz msgtyp msgflg type_ok text_ok sleeps st =
     (case msgconv info msqid st of
        Inl e \<Rightarrow> Inr (MsgRet (Inl e), st)
      | Inr i \<Rightarrow>
          (case ipcaccess (msg_perm (msgque st ! i)) MSG_R cr of
             Some e \<Rightarrow> Inr (MsgRet (Inl e), st)
           | None \<Rightarrow>
               if msgsz < 0 then Inr (MsgRet (Inl EINVAL), st)
               else msgrcv_loop info pid now msqid i msgsz msgtyp msgflg type_ok text_ok sleeps st))"

section \<open>msgsnd\<close>

text \<open>
  One pass of \<open>msgsnd\<close>: done, an error, or a wait for room on the queue, for a header, or for
  space in the pool. \<open>text\<close> is the text as copied from the user.
\<close>

datatype snd_outcome = SndDone | SndErr errno | SndWaitQ | SndWaitH | SndWaitM

definition msg_enqueue :: "int \<Rightarrow> int \<Rightarrow> nat \<Rightarrow> msg \<Rightarrow> nat \<Rightarrow> msg_sys \<Rightarrow> msg_sys" where
  "msg_enqueue pid now i mp cnt st =
     (let st1 = upd_q i (\<lambda>qp. qp\<lparr>msg_qnum := uadd (msg_qnum qp) 1, msg_cbytes := uadd (msg_cbytes qp) cnt,
                                 msg_lspid := pid, msg_stime := now, msg_q := msg_q qp @ [mp]\<rparr>) st
      in if rwaiting (msg_perm (msgque st1 ! i))
         then wake (WakeReaders i) (upd_q i (clear_flag MSG_RWAIT) st1) else st1)"

text \<open>The part of a pass that runs with a message header in hand.\<close>

definition msgsnd_hdr ::
  "msginfo \<Rightarrow> int \<Rightarrow> int \<Rightarrow> nat \<Rightarrow> int \<Rightarrow> nat \<Rightarrow> 32 word \<Rightarrow> 8 word list option \<Rightarrow> nat \<Rightarrow> msg_sys \<Rightarrow> (snd_outcome \<times> msg_sys) kres"
where
  "msgsnd_hdr info pid now i typ cnt msgflg txt h st1 =
     (if cnt = 0 then
        Inr (SndDone, msg_enqueue pid now i \<lparr>msg_hdr = h, msg_type = typ, msg_ts = 0, msg_spot = - 1\<rparr> 0 st1)
      else
        let (a, map') = rmalloc_locked (msgmap st1) (btoq info cnt) in
        if a = 0 then
          (if msg_nowait msgflg then Inr (SndErr EAGAIN, msg_hdr_free h st1)
           else Inr (SndWaitM, msg_hdr_free h (st1\<lparr>msgmap := (msgmap st1)\<lparr>mh_want := mh_want (msgmap st1) + 1\<rparr>\<rparr>)))
        else
          let st2 = st1\<lparr>msgmap := map'\<rparr>; spot = a - 1 in
          case txt of
            None \<Rightarrow>
              (case rmfree map' (btoq info cnt) (spot + 1) of
                 Inl f \<Rightarrow> Inl f
               | Inr (_, map'') \<Rightarrow> Inr (SndErr EFAULT, msg_hdr_free h (st2\<lparr>msgmap := map''\<rparr>)))
          | Some bs \<Rightarrow>
              Inr (SndDone,
                msg_enqueue pid now i
                  \<lparr>msg_hdr = h, msg_type = typ, msg_ts = u16 (int cnt), msg_spot = s16 (int spot)\<rparr> cnt
                  (pool_write info st2 spot bs)))"

definition msgsnd_put ::
  "msginfo \<Rightarrow> int \<Rightarrow> int \<Rightarrow> nat \<Rightarrow> int \<Rightarrow> nat \<Rightarrow> 32 word \<Rightarrow> 8 word list option \<Rightarrow> msg_sys \<Rightarrow> (snd_outcome \<times> msg_sys) kres"
where
  "msgsnd_put info pid now i typ cnt msgflg txt st =
     (let qp = msgque st ! i in
      if uadd cnt (msg_cbytes qp) > u32 (msg_qbytes qp) then
        (if msg_nowait msgflg then Inr (SndErr EAGAIN, st)
         else Inr (SndWaitQ, upd_q i (set_flag MSG_WWAIT) st))
      else
        case msgfp st of
          [] \<Rightarrow> if msg_nowait msgflg then Inr (SndErr EAGAIN, st) else Inr (SndWaitH, st)
        | h # fs \<Rightarrow> msgsnd_hdr info pid now i typ cnt msgflg txt h (st\<lparr>msgfp := fs\<rparr>))"

text \<open>
  A signal ends a wait for room on the queue. When the queue has been removed, the code unlocks
  through a pointer that nothing has set.
\<close>

definition msgsnd_intr :: "msginfo \<Rightarrow> int \<Rightarrow> nat \<Rightarrow> msg_sys \<Rightarrow> msg_sys kres" where
  "msgsnd_intr info msqid i st =
     (case msgconv info msqid st of
        Inl e \<Rightarrow> Inl (Wild ''qp1'')
      | Inr _ \<Rightarrow> Inr (wake (WakeWriters i) (upd_q i (clear_flag MSG_WWAIT) st)))"

text \<open>The loop around the passes.\<close>

fun msgsnd_loop ::
  "msginfo \<Rightarrow> int \<Rightarrow> int \<Rightarrow> int \<Rightarrow> nat \<Rightarrow> int \<Rightarrow> nat \<Rightarrow> 32 word \<Rightarrow> 8 word list option
   \<Rightarrow> (bool \<times> (msg_sys \<Rightarrow> msg_sys)) list \<Rightarrow> msg_sys \<Rightarrow> (msg_ret \<times> msg_sys) kres"
where
  "msgsnd_loop info pid now msqid i typ cnt msgflg txt sleeps st =
     (case msgsnd_put info pid now i typ cnt msgflg txt st of
        Inl f \<Rightarrow> Inl f
      | Inr (SndDone, st1) \<Rightarrow> Inr (MsgRet (Inr (0, [])), st1)
      | Inr (SndErr e, st1) \<Rightarrow> Inr (MsgRet (Inl e), st1)
      | Inr (SndWaitQ, st1) \<Rightarrow>
          (case sleeps of
             [] \<Rightarrow> Inr (MsgAsleep, st1)
           | (intr, env) # sleeps' \<Rightarrow>
               let st2 = env st1 in
               if intr then
                 (case msgsnd_intr info msqid i st2 of
                    Inl f \<Rightarrow> Inl f
                  | Inr st3 \<Rightarrow> Inr (MsgRet (Inl EINTR), st3))
               else if msg_gone info msqid i st2 then Inr (MsgRet (Inl EIDRM), st2)
               else msgsnd_loop info pid now msqid i typ cnt msgflg txt sleeps' st2)
      | Inr (SndWaitH, st1) \<Rightarrow>
          (case sleeps of
             [] \<Rightarrow> Inr (MsgAsleep, st1)
           | (intr, env) # sleeps' \<Rightarrow>
               let st2 = env st1 in
               if intr then
                 (case msgconv info msqid st2 of
                    Inl e \<Rightarrow> Inr (MsgRet (Inl e), st2)
                  | Inr _ \<Rightarrow> Inr (MsgRet (Inl EINTR), st2))
               else
                 (case msgconv info msqid st2 of
                    Inl e \<Rightarrow> Inr (MsgRet (Inl EIDRM), st2)
                  | Inr j \<Rightarrow> msgsnd_loop info pid now msqid j typ cnt msgflg txt sleeps' st2))
      | Inr (SndWaitM, st1) \<Rightarrow>
          (case sleeps of
             [] \<Rightarrow> Inr (MsgAsleep, st1)
           | (intr, env) # sleeps' \<Rightarrow>
               let st2 = env st1 in
               (case msgconv info msqid st2 of
                  Inl e \<Rightarrow> Inr (MsgRet (Inl EIDRM), st2)
                | Inr j \<Rightarrow>
                    if intr then Inr (MsgRet (Inl EINTR), st2)
                    else msgsnd_loop info pid now msqid j typ cnt msgflg txt sleeps' st2)))"

declare msgsnd_loop.simps [simp del]

text \<open>\<open>typ\<close> is the type as copied from the user.\<close>

definition msgsnd ::
  "msginfo \<Rightarrow> int \<Rightarrow> int \<Rightarrow> cred \<Rightarrow> int \<Rightarrow> int \<Rightarrow> 32 word \<Rightarrow> int option \<Rightarrow> 8 word list option
   \<Rightarrow> (bool \<times> (msg_sys \<Rightarrow> msg_sys)) list \<Rightarrow> msg_sys \<Rightarrow> (msg_ret \<times> msg_sys) kres"
where
  "msgsnd info pid now cr msqid msgsz msgflg typ txt sleeps st =
     (case msgconv info msqid st of
        Inl e \<Rightarrow> Inr (MsgRet (Inl e), st)
      | Inr i \<Rightarrow>
          (case ipcaccess (msg_perm (msgque st ! i)) MSG_W cr of
             Some e \<Rightarrow> Inr (MsgRet (Inl e), st)
           | None \<Rightarrow>
               if msgsz < 0 \<or> msgsz > int (msgmax info) then Inr (MsgRet (Inl EINVAL), st)
               else
                 case typ of
                   None \<Rightarrow> Inr (MsgRet (Inl EFAULT), st)
                 | Some t \<Rightarrow>
                     if t < 1 then Inr (MsgRet (Inl EINVAL), st)
                     else msgsnd_loop info pid now msqid i t (nat msgsz) msgflg txt sleeps st))"

section \<open>The system call entry and loading\<close>

datatype msg_call =
    MSGGET int "32 word"
  | MSGCTL int msg_cmd
  | MSGRCV int int int "32 word" bool bool
  | MSGSND int int "32 word" "int option" "8 word list option"
  | MSGBAD

datatype msg_out = MOutInt int | MOutCtl msgctl_out | MOutMsg int "8 word list"

text \<open>The result is \<open>None\<close> for a process left asleep.\<close>

definition msgsys ::
  "msginfo \<Rightarrow> int \<Rightarrow> int \<Rightarrow> cred \<Rightarrow> bool \<Rightarrow> (bool \<times> (msg_sys \<Rightarrow> msg_sys)) list \<Rightarrow> msg_call \<Rightarrow> msg_sys
   \<Rightarrow> ((errno + msg_out) option \<times> bool \<times> msg_sys) kres"
where
  "msgsys info pid now cr asu sleeps call st =
     (case call of
        MSGGET key flg \<Rightarrow>
          (case msgget info now cr key flg st of (res, st') \<Rightarrow> Inr (Some (map_sum id MOutInt res), asu, st'))
      | MSGCTL msgid cmd \<Rightarrow>
          (case msgctl info now cr asu msgid cmd st of
             Inl f \<Rightarrow> Inl f
           | Inr (res, asu', st') \<Rightarrow> Inr (Some (map_sum id MOutCtl res), asu', st'))
      | MSGRCV msqid msgsz msgtyp flg type_ok text_ok \<Rightarrow>
          (case msgrcv info pid now cr msqid msgsz msgtyp flg type_ok text_ok sleeps st of
             Inl f \<Rightarrow> Inl f
           | Inr (MsgRet res, st') \<Rightarrow> Inr (Some (map_sum id (\<lambda>(t, bs). MOutMsg t bs) res), asu, st')
           | Inr (MsgAsleep, st') \<Rightarrow> Inr (None, asu, st'))
      | MSGSND msqid msgsz flg typ txt \<Rightarrow>
          (case msgsnd info pid now cr msqid msgsz flg typ txt sleeps st of
             Inl f \<Rightarrow> Inl f
           | Inr (MsgRet res, st') \<Rightarrow> Inr (Some (map_sum id (\<lambda>_. MOutInt 0) res), asu, st')
           | Inr (MsgAsleep, st') \<Rightarrow> Inr (None, asu, st'))
      | MSGBAD \<Rightarrow> Inr (Some (Inl EINVAL), asu, st))"

definition msqid_zero :: msqid_ds where
  "msqid_zero =
     \<lparr>msg_perm = \<lparr>ipc_uid = 0, ipc_gid = 0, ipc_cuid = 0, ipc_cgid = 0, ipc_mode = 0, ipc_seq = 0, ipc_key = 0\<rparr>,
      msg_q = [], msg_cbytes = 0, msg_qnum = 0, msg_qbytes = 0, msg_lspid = 0, msg_lrpid = 0,
      msg_stime = 0, msg_rtime = 0, msg_ctime = 0\<rparr>"

text \<open>
  \<open>msg_init\<close> is the module's \<^verbatim>\<open>_init\<close>. The sizes are those of the structures: 8 bytes for a map
  entry, 112 for a queue, 8 for a lock and 12 for a header.
\<close>

definition int_rnd :: "nat \<Rightarrow> nat" where
  "int_rnd n = (n + 3) div 4 * 4"

definition msg_memory :: "msginfo \<Rightarrow> nat" where
  "msg_memory info =
     int_rnd (msgseg info * msgssz info) + msgmap_ents info * 8 + msgmni info * 112
     + int_rnd (msgmni info * 8) + msgtql info * 12"

definition msg_init :: "msginfo \<Rightarrow> nat \<Rightarrow> errno option \<Rightarrow> (errno + msg_sys) kres" where
  "msg_init info maxavail installed =
     (if msg_memory info > maxavail div 4 then Inr (Inl ENOMEM)
      else
        case mapinit (msgseg info) 1 ''msgmap'' (msgmap_ents info) of
          Inl f \<Rightarrow> Inl f
        | Inr mp \<Rightarrow>
            (case installed of
               Some e \<Rightarrow> Inr (Inl e)
             | None \<Rightarrow>
                 Inr (Inr \<lparr>msgque = replicate (msgmni info) msqid_zero, msgmap = mp,
                          msgfp = [0 ..< msgtql info],
                          msg_txt = replicate (int_rnd (msgseg info * msgssz info)) 0, msg_wakes = []\<rparr>)))"

end
