(* ===== verification/Msg_Inv.thy ===== *)
theory Msg_Inv
  imports Msg
begin

text \<open>
  The invariant of the message module and that its operations keep it: no header is used twice,
  the texts of the messages occupy disjoint ranges of the pool apart from its free space, the
  counters of a queue agree with its messages, keys and identifiers are unique.
  \<open>msg_view\<close> is what a queue is to its users, a list of typed texts; sending appends to it and
  receiving removes from it.
\<close>

section \<open>Identifiers\<close>

definition msg_index :: "nat \<Rightarrow> int \<Rightarrow> nat" where
  "msg_index mni idn = nat (idn mod int mni)"

definition msg_sequ :: "nat \<Rightarrow> int \<Rightarrow> nat" where
  "msg_sequ mni idn = nat (idn div int mni)"

definition msg_id_ok :: "nat \<Rightarrow> nat \<Rightarrow> nat \<Rightarrow> bool" where
  "msg_id_ok mni sq i \<longleftrightarrow> mni < 2 ^ 30 \<and> i < mni \<and> sq * mni + i < 2 ^ 31"

lemma msg_mkid_eq: "msg_id_ok mni sq i \<Longrightarrow> msg_mkid mni sq i = int sq * int mni + int i"
proof -
  assume "msg_id_ok mni sq i"
  then have "int (sq * mni + i) < 2 ^ 31" by (simp only: msg_id_ok_def of_nat_less_numeral_power_cancel_iff)
  moreover have "- (2 ^ 31) \<le> int sq * int mni + int i" by (rule order_trans [of _ 0]) simp_all
  ultimately show ?thesis unfolding msg_mkid_def by (intro s32_id) (assumption, simp)
qed

lemma msg_index_mkid: "msg_id_ok mni sq i \<Longrightarrow> msg_index mni (msg_mkid mni sq i) = i"
  by (simp add: msg_index_def msg_mkid_eq) (simp add: msg_id_ok_def)

lemma msg_sequ_mkid: "msg_id_ok mni sq i \<Longrightarrow> msg_sequ mni (msg_mkid mni sq i) = sq"
  by (simp add: msg_sequ_def msg_mkid_eq) (simp add: msg_id_ok_def)

lemma msg_id_ok_next:
  assumes "msg_id_ok mni sq i"
  shows "msg_id_ok mni (msg_next_seq mni (msg_mkid mni sq i) sq) i"
proof (cases "msg_mkid mni sq i + int mni \<ge> 2 ^ 31")
  case True
  then show ?thesis using assms by (simp add: msg_next_seq_def msg_id_ok_def)
next
  case False
  then have "int ((sq + 1) * mni + i) < 2 ^ 31" using assms by (simp add: msg_mkid_eq algebra_simps)
  then have "(sq + 1) * mni + i < 2 ^ 31" by (simp only: of_nat_less_numeral_power_cancel_iff)
  then show ?thesis using False assms by (simp add: msg_next_seq_def msg_id_ok_def)
qed

text \<open>A queue that was not the first in its slot has a new sequence number after it is removed.\<close>

lemma msg_next_neq:
  assumes "msg_id_ok mni sq i"
  shows "msg_next_seq mni (msg_mkid mni sq i) sq \<noteq> sq"
proof -
  have "sq \<noteq> 0" if "msg_mkid mni sq i + int mni \<ge> 2 ^ 31"
  proof
    assume "sq = 0"
    then have "int i + int mni \<ge> 2 ^ 31" using that assms by (simp add: msg_mkid_eq)
    then show False using assms by (simp add: msg_id_ok_def)
  qed
  then show ?thesis by (simp add: msg_next_seq_def)
qed

interpretation msg_ids: ipc_ids "msg_mkid mni" "msg_index mni" "msg_sequ mni" "msg_next_seq mni" "msg_id_ok mni" for mni
  by unfold_locales (simp_all add: msg_index_mkid msg_sequ_mkid msg_id_ok_next msg_next_neq)

lemma msgconv_conv:
  assumes "length (msgque st) = msgmni info" "0 < msgmni info" "0 \<le> idn"
  shows "msgconv info idn st = (case ipc_conv (msg_index (msgmni info)) (msg_sequ (msgmni info)) (msg_perms st) idn of
    None \<Rightarrow> Inl EINVAL | Some i \<Rightarrow> Inr i)"
proof -
  have "msg_index (msgmni info) idn < length (msgque st)"
    using assms by (simp add: msg_index_def nat_less_iff)
  moreover have "0 \<le> idn div int (msgmni info)" using assms by (simp add: pos_imp_zdiv_nonneg_iff)
  then have "idn div int (msgmni info) = int sq \<longleftrightarrow> msg_sequ (msgmni info) idn = sq" for sq
    by (auto simp: msg_sequ_def)
  ultimately show ?thesis
    using assms(3) by (simp add: msgconv_def ipc_conv_def msg_perms_def Let_def msg_index_def [symmetric])
qed

lemma msgconv_Inr:
  assumes "msgconv info idn st = Inr i"
  shows "0 \<le> idn" "i = msg_index (msgmni info) idn" "ipc_allocd (msg_perm (msgque st ! i))"
    "msg_sequ (msgmni info) idn = ipc_seq (msg_perm (msgque st ! i))"
  using assms by (auto simp: msgconv_def Let_def msg_index_def msg_sequ_def split: if_splits)

lemma msgconv_mkid:
  assumes "msgconv info idn st = Inr i" "0 < msgmni info"
  shows "idn = int (ipc_seq (msg_perm (msgque st ! i))) * int (msgmni info) + int i"
proof -
  have "idn div int (msgmni info) = int (ipc_seq (msg_perm (msgque st ! i)))" "idn mod int (msgmni info) = int i"
    using assms by (auto simp: msgconv_def Let_def split: if_splits)
  then show ?thesis by (metis div_mult_mod_eq)
qed

section \<open>The invariant\<close>

definition all_msgs :: "msg_sys \<Rightarrow> msg list" where
  "all_msgs st = concat (map msg_q (msgque st))"

definition msg_range :: "msginfo \<Rightarrow> msg \<Rightarrow> nat \<times> nat" where
  "msg_range info m = (nat (msg_spot m) + 1, btoq info (msg_ts m))"

text \<open>The ranges of the pool that are in use, by the header of the message.\<close>

definition msg_own :: "msginfo \<Rightarrow> msg list \<Rightarrow> nat \<Rightarrow> (nat \<times> nat) option" where
  "msg_own info ms = map_of (map (\<lambda>m. (msg_hdr m, msg_range info m)) (filter (\<lambda>m. msg_ts m \<noteq> 0) ms))"

definition msginfo_ok :: "msginfo \<Rightarrow> bool" where
  "msginfo_ok info \<longleftrightarrow> 0 < msgssz info \<and> 0 < msgmni info \<and> msgmni info < 2 ^ 30 \<and> msgmax info < 2 ^ 16
     \<and> msgseg info < 2 ^ 15"

definition msg_ok :: "msg \<Rightarrow> bool" where
  "msg_ok m \<longleftrightarrow> 1 \<le> msg_type m \<and> msg_ts m < 2 ^ 16 \<and> (msg_ts m \<noteq> 0 \<longrightarrow> 0 \<le> msg_spot m)"

definition queue_ok :: "msginfo \<Rightarrow> nat \<Rightarrow> msqid_ds \<Rightarrow> bool" where
  "queue_ok info i qp \<longleftrightarrow> msg_qnum qp = u32 (length (msg_q qp))
     \<and> (\<not> ipc_allocd (msg_perm qp) \<longrightarrow> msg_q qp = []) \<and> msg_id_ok (msgmni info) (ipc_seq (msg_perm qp)) i"

text \<open>The byte count of a queue is wrong for a moment while messages are removed.\<close>

definition bytes_ok :: "msqid_ds \<Rightarrow> bool" where
  "bytes_ok qp \<longleftrightarrow> msg_cbytes qp = u32 (sum_list (map msg_ts (msg_q qp)))"

definition pool_ok :: "msginfo \<Rightarrow> msg_sys \<Rightarrow> bool" where
  "pool_ok info st \<longleftrightarrow>
     rmap_wf (msgmap st) \<and> owned_ok (rm_space (msgmap st)) (msg_own info (all_msgs st))
   \<and> rm_space (msgmap st) \<subseteq> {1 .. msgseg info}
   \<and> (\<forall>h a n. msg_own info (all_msgs st) h = Some (a, n) \<longrightarrow> a + n \<le> msgseg info + 1)
   \<and> msgseg info * msgssz info \<le> length (msg_txt st)"

definition msg_wf0 :: "msginfo \<Rightarrow> msg_sys \<Rightarrow> bool" where
  "msg_wf0 info st \<longleftrightarrow>
     length (msgque st) = msgmni info \<and> distinct (map msg_hdr (all_msgs st) @ msgfp st)
   \<and> (\<forall>m \<in> set (all_msgs st). msg_ok m) \<and> pool_ok info st
   \<and> (\<forall>i < length (msgque st). queue_ok info i (msgque st ! i)) \<and> keys_distinct (msg_perms st)"

definition msg_wf :: "msginfo \<Rightarrow> msg_sys \<Rightarrow> bool" where
  "msg_wf info st \<longleftrightarrow> msg_wf0 info st \<and> (\<forall>i < length (msgque st). bytes_ok (msgque st ! i))"

lemma msg_wf0D:
  assumes "msg_wf0 info st"
  shows "length (msgque st) = msgmni info" "distinct (map msg_hdr (all_msgs st))" "distinct (msgfp st)"
    "set (msgfp st) \<inter> msg_hdr ` set (all_msgs st) = {}" "\<forall>m \<in> set (all_msgs st). msg_ok m" "pool_ok info st"
    "i < length (msgque st) \<Longrightarrow> queue_ok info i (msgque st ! i)" "keys_distinct (msg_perms st)"
  using assms by (auto simp: msg_wf0_def)

text \<open>Changing one queue changes the list of all messages in one place.\<close>

lemma concat_update:
  "i < length qs \<Longrightarrow> \<exists>pre post. concat (map f qs) = pre @ f (qs ! i) @ post
     \<and> (\<forall>q. concat (map f (qs[i := q])) = pre @ f q @ post)"
proof (induction qs arbitrary: i)
  case (Cons x qs)
  show ?case
  proof (cases i)
    case 0
    then show ?thesis by (intro exI [of _ "[]"] exI [of _ "concat (map f qs)"]) simp
  next
    case (Suc j)
    then obtain pre post where "concat (map f qs) = pre @ f (qs ! j) @ post"
      "\<forall>q. concat (map f (qs[j := q])) = pre @ f q @ post"
      using Cons.IH [of j] Cons.prems by auto
    then show ?thesis using Suc by (intro exI [of _ "f x @ pre"] exI [of _ post]) simp
  qed
qed simp

lemma all_msgs_split:
  assumes "i < length (msgque st)"
  obtains pre post where "all_msgs st = pre @ msg_q (msgque st ! i) @ post"
    "\<And>st' qp. msgque st' = (msgque st)[i := qp] \<Longrightarrow> all_msgs st' = pre @ msg_q qp @ post"
  using concat_update [OF assms, of msg_q] unfolding all_msgs_def by metis

lemma msg_own_hdr: "msg_own info ms h = Some r \<Longrightarrow> h \<in> msg_hdr ` set ms"
  unfolding msg_own_def by (drule map_of_SomeD) auto

lemma msg_own_in:
  assumes "distinct (map msg_hdr ms)" "m \<in> set ms" "msg_ts m \<noteq> 0"
  shows "msg_own info ms (msg_hdr m) = Some (msg_range info m)"
proof -
  have "distinct (map msg_hdr (filter (\<lambda>m. msg_ts m \<noteq> 0) ms))" using assms(1) by (rule distinct_map_filter)
  then have "distinct (map fst (map (\<lambda>m. (msg_hdr m, msg_range info m)) (filter (\<lambda>m. msg_ts m \<noteq> 0) ms)))"
    by (simp add: comp_def)
  then show ?thesis using assms(2,3) unfolding msg_own_def by (intro map_of_is_SomeI) auto
qed

lemma msg_own_None: "h \<notin> msg_hdr ` set ms \<Longrightarrow> msg_own info ms h = None"
  using msg_own_hdr [of info ms h] by (cases "msg_own info ms h") auto

lemma msg_own_append: "msg_own info (xs @ ys) = msg_own info ys ++ msg_own info xs"
  by (simp add: msg_own_def)

lemma msg_own_Cons: "msg_own info (m # ms) = (if msg_ts m \<noteq> 0 then (msg_own info ms)(msg_hdr m \<mapsto> msg_range info m) else msg_own info ms)"
  by (simp add: msg_own_def)

text \<open>A message in the middle of the list.\<close>

lemma msg_own_middle:
  assumes "distinct (map msg_hdr (xs @ m # ys))"
  shows "msg_own info (xs @ m # ys) =
      (if msg_ts m \<noteq> 0 then (msg_own info (xs @ ys))(msg_hdr m \<mapsto> msg_range info m) else msg_own info (xs @ ys))"
    "msg_own info (xs @ ys) = (msg_own info (xs @ m # ys))(msg_hdr m := None)"
proof -
  have no: "msg_own info xs (msg_hdr m) = None" "msg_own info ys (msg_hdr m) = None"
    using assms by (auto intro!: msg_own_None)
  show "msg_own info (xs @ m # ys) =
      (if msg_ts m \<noteq> 0 then (msg_own info (xs @ ys))(msg_hdr m \<mapsto> msg_range info m) else msg_own info (xs @ ys))"
    "msg_own info (xs @ ys) = (msg_own info (xs @ m # ys))(msg_hdr m := None)"
    using no by (auto simp: msg_own_append msg_own_Cons fun_eq_iff map_add_def split: option.splits)
qed

section \<open>Permissions and flags\<close>

definition perm_same :: "ipc_perm \<Rightarrow> ipc_perm \<Rightarrow> bool" where
  "perm_same p p' \<longleftrightarrow> (ipc_allocd p' \<longleftrightarrow> ipc_allocd p) \<and> ipc_key p' = ipc_key p \<and> ipc_seq p' = ipc_seq p"

lemma perm_same_refl [simp]: "perm_same p p"
  by (simp add: perm_same_def)

lemma ipc_allocd_bit: "ipc_allocd p \<longleftrightarrow> bit (ipc_mode p) 15"
proof -
  have "IPC_ALLOC = 2 ^ 15" by (simp add: IPC_ALLOC_def)
  then show ?thesis using mask_and_iff [of 15 "ipc_mode p"] by (simp add: ipc_allocd_def and.commute)
qed

lemma flag_perm_same [simp]:
  "perm_same (msg_perm qp) (msg_perm (set_flag MSG_RWAIT qp))" "perm_same (msg_perm qp) (msg_perm (set_flag MSG_WWAIT qp))"
  "perm_same (msg_perm qp) (msg_perm (clear_flag MSG_RWAIT qp))" "perm_same (msg_perm qp) (msg_perm (clear_flag MSG_WWAIT qp))"
  by (simp_all add: perm_same_def ipc_allocd_bit set_flag_def clear_flag_def MSG_RWAIT_def MSG_WWAIT_def
      bit_or_iff bit_and_iff bit_not_iff bit_numeral_rec)

lemma flag_fields [simp]:
  "msg_q (set_flag f qp) = msg_q qp" "msg_qnum (set_flag f qp) = msg_qnum qp" "msg_cbytes (set_flag f qp) = msg_cbytes qp"
  "msg_q (clear_flag f qp) = msg_q qp" "msg_qnum (clear_flag f qp) = msg_qnum qp" "msg_cbytes (clear_flag f qp) = msg_cbytes qp"
  "msg_qbytes (set_flag f qp) = msg_qbytes qp" "msg_qbytes (clear_flag f qp) = msg_qbytes qp"
  by (simp_all add: set_flag_def clear_flag_def)

lemma perm_same_trans: "perm_same p q \<Longrightarrow> perm_same q r \<Longrightarrow> perm_same p r"
  by (simp add: perm_same_def)

lemma keys_distinct_perm_same:
  assumes "keys_distinct (msg_perms st)" "i < length (msgque st)" "perm_same (msg_perm (msgque st ! i)) (msg_perm qp)"
    "msgque st' = (msgque st)[i := qp]"
  shows "keys_distinct (msg_perms st')"
  using keys_distinct_same [OF assms(1), of i "msg_perm qp"] assms(2-4)
  by (simp add: msg_perms_def map_update perm_same_def)

lemma upd_q_fields [simp]:
  "msgmap (upd_q i f st) = msgmap st" "msgfp (upd_q i f st) = msgfp st" "msg_txt (upd_q i f st) = msg_txt st"
  "msgque (upd_q i f st) = (msgque st)[i := f (msgque st ! i)]"
  by (simp_all add: upd_q_def)

lemma wake_fields [simp]:
  "msgmap (wake w st) = msgmap st" "msgfp (wake w st) = msgfp st" "msg_txt (wake w st) = msg_txt st"
  "msgque (wake w st) = msgque st"
  by (simp_all add: wake_def)

lemma hdr_free_fields [simp]:
  "msgmap (msg_hdr_free h st) = msgmap st" "msgfp (msg_hdr_free h st) = h # msgfp st"
  "msg_txt (msg_hdr_free h st) = msg_txt st" "msgque (msg_hdr_free h st) = msgque st"
  by (simp_all add: msg_hdr_free_def Let_def)

lemma del_nth_eq: "k < length q \<Longrightarrow> q = take k q @ q ! k # drop (Suc k) q" "del_nth k q = take k q @ drop (Suc k) q"
  by (simp_all add: id_take_nth_drop del_nth_def)

section \<open>Freeing a message\<close>

lemma pool_ok_release:
  assumes pool: "pool_ok info st" and d: "distinct (map msg_hdr (xs @ m # ys))" and all: "all_msgs st = xs @ m # ys"
    and ok: "msg_ok m" and seg: "msgseg info < 2 ^ 15"
    and st': "all_msgs st' = xs @ ys" "msg_txt st' = msg_txt st"
      "msgmap st' = (if msg_ts m = 0 then msgmap st
                     else case rmfree (msgmap st) (btoq info (msg_ts m)) (nat ((msg_spot m + 1) mod 2 ^ 32)) of Inr (_, mp) \<Rightarrow> mp | Inl f \<Rightarrow> undefined)"
  shows "pool_ok info st'" "msg_ts m \<noteq> 0 \<Longrightarrow> \<exists>r. rmfree (msgmap st) (btoq info (msg_ts m)) (nat ((msg_spot m + 1) mod 2 ^ 32)) = Inr r"
proof -
  note own = msg_own_middle [OF d, of info]
  have p: "rmap_wf (msgmap st)" "owned_ok (rm_space (msgmap st)) (msg_own info (xs @ m # ys))"
    "rm_space (msgmap st) \<subseteq> {1 .. msgseg info}"
    "\<forall>h a n. msg_own info (xs @ m # ys) h = Some (a, n) \<longrightarrow> a + n \<le> msgseg info + 1"
    using pool all by (simp_all add: pool_ok_def)
  have less: "\<forall>h a n. msg_own info (xs @ ys) h = Some (a, n) \<longrightarrow> a + n \<le> msgseg info + 1"
    using p(4) own(2) by (auto split: if_splits)
  have "pool_ok info st' \<and> (msg_ts m \<noteq> 0 \<longrightarrow> (\<exists>r. rmfree (msgmap st) (btoq info (msg_ts m)) (nat ((msg_spot m + 1) mod 2 ^ 32)) = Inr r))"
  proof (cases "msg_ts m = 0")
    case True
    then show ?thesis using pool st' own(1) all by (simp add: pool_ok_def)
  next
    case False
    have o: "msg_own info (xs @ m # ys) (msg_hdr m) = Some (nat (msg_spot m) + 1, btoq info (msg_ts m))"
      using False own(1) by (simp add: msg_range_def)
    note b = owned_okD [OF p(2) o]
    have lim: "nat (msg_spot m) + 1 + btoq info (msg_ts m) \<le> msgseg info + 1" using p(4) o by blast
    have "nat ((msg_spot m + 1) mod 2 ^ 32) = nat (msg_spot m) + 1"
      using ok False lim seg b(2) by (simp add: msg_ok_def nat_add_distrib)
    moreover obtain mp where mp: "rm_release (msgmap st) (btoq info (msg_ts m)) (nat (msg_spot m) + 1) = Some mp" "rmap_wf mp"
      "owned_ok (rm_space mp) ((msg_own info (xs @ m # ys))(msg_hdr m := None))"
      using rm.release_owned [OF p(1,2) o] by blast
    moreover have "rm_space mp \<subseteq> rm_space (msgmap st) \<union> {nat (msg_spot m) + 1 ..< nat (msg_spot m) + 1 + btoq info (msg_ts m)}"
      using rm.release_ok [OF p(1) b] mp(1) by auto
    then have "rm_space mp \<subseteq> {1 .. msgseg info}" using p(3) lim by fastforce
    ultimately show ?thesis
      using False st' own(2) pool less by (auto simp: pool_ok_def rm_release_def split: sum.splits)
  qed
  then show "pool_ok info st'" "msg_ts m \<noteq> 0 \<Longrightarrow> \<exists>r. rmfree (msgmap st) (btoq info (msg_ts m)) (nat ((msg_spot m + 1) mod 2 ^ 32)) = Inr r"
    by blast+
qed

lemma msgfree_ok:
  assumes i: "i < length (msgque st)" and k: "k < length (msg_q (msgque st ! i))"
    and d: "distinct (map msg_hdr (all_msgs st))" and ok: "\<forall>m \<in> set (all_msgs st). msg_ok m"
    and pool: "pool_ok info st" and seg: "msgseg info < 2 ^ 15"
  obtains st' qp where "msgfree info i k st = Inr st'" "msgque st' = (msgque st)[i := qp]"
    "msg_q qp = del_nth k (msg_q (msgque st ! i))" "msg_qnum qp = usub (msg_qnum (msgque st ! i)) 1"
    "msg_cbytes qp = msg_cbytes (msgque st ! i)" "perm_same (msg_perm (msgque st ! i)) (msg_perm qp)"
    "msgfp st' = msg_hdr (msg_q (msgque st ! i) ! k) # msgfp st" "msg_txt st' = msg_txt st" "pool_ok info st'"
proof -
  let ?q = "msg_q (msgque st ! i)"
  define m where "m = ?q ! k"
  define q1 where "q1 = (msgque st ! i)\<lparr>msg_q := del_nth k ?q, msg_qnum := usub (msg_qnum (msgque st ! i)) 1\<rparr>"
  define qp where "qp = (if wwaiting (msg_perm (msgque st ! i)) then clear_flag MSG_WWAIT q1 else q1)"
  obtain pre post where sp: "all_msgs st = pre @ ?q @ post"
    "\<And>st' qp. msgque st' = (msgque st)[i := qp] \<Longrightarrow> all_msgs st' = pre @ msg_q qp @ post"
    using all_msgs_split [OF i] by blast
  have all: "all_msgs st = (pre @ take k ?q) @ m # (drop (Suc k) ?q @ post)"
    using sp(1) del_nth_eq(1) [OF k] by (simp add: m_def)
  define st2 where "st2 = (let st1 = upd_q i (\<lambda>qp. qp\<lparr>msg_q := del_nth k (msg_q qp), msg_qnum := usub (msg_qnum qp) 1\<rparr>) st
      in if wwaiting (msg_perm (msgque st1 ! i)) then wake (WakeWriters i) (upd_q i (clear_flag MSG_WWAIT) st1) else st1)"
  have f2: "msgque st2 = (msgque st)[i := qp]" "msgmap st2 = msgmap st" "msgfp st2 = msgfp st" "msg_txt st2 = msg_txt st"
    using i by (simp_all add: st2_def Let_def qp_def q1_def)
  define st' where "st' = msg_hdr_free (msg_hdr m) (st2\<lparr>msgmap := (if msg_ts m = 0 then msgmap st
      else case rmfree (msgmap st) (btoq info (msg_ts m)) (nat ((msg_spot m + 1) mod 2 ^ 32)) of Inr (_, mp) \<Rightarrow> mp | Inl f \<Rightarrow> undefined)\<rparr>)"
  have q: "msg_q qp = del_nth k ?q" by (simp add: qp_def q1_def)
  have que: "msgque st' = (msgque st)[i := qp]" by (simp add: st'_def f2)
  have all': "all_msgs st' = (pre @ take k ?q) @ (drop (Suc k) ?q @ post)"
    using sp(2) [OF que] q by (simp add: del_nth_def)
  have mok: "msg_ok m" using ok all by simp
  note r = pool_ok_release [OF pool d [unfolded all] all mok seg all']
  have map': "msgmap st' = (if msg_ts m = 0 then msgmap st
      else case rmfree (msgmap st) (btoq info (msg_ts m)) (nat ((msg_spot m + 1) mod 2 ^ 32)) of Inr (_, mp) \<Rightarrow> mp | Inl f \<Rightarrow> undefined)"
    "msg_txt st' = msg_txt st" by (simp_all add: st'_def f2)
  have unf: "msgfree info i k st = (if msg_ts m \<noteq> 0 then
      (case rmfree (msgmap st2) (btoq info (msg_ts m)) (nat ((msg_spot m + 1) mod 2 ^ 32)) of
         Inl f \<Rightarrow> Inl f | Inr (_, mp) \<Rightarrow> Inr (msg_hdr_free (msg_hdr m) (st2\<lparr>msgmap := mp\<rparr>)))
      else Inr (msg_hdr_free (msg_hdr m) st2))"
    unfolding msgfree_def m_def st2_def Let_def ..
  have same: "st2\<lparr>msgmap := msgmap st\<rparr> = st2" unfolding f2(2) [symmetric] by simp
  have call: "msgfree info i k st = Inr st'"
    using r(2) map' by (cases "msg_ts m = 0") (auto simp: unf st'_def f2(2) same)
  show thesis
  proof (rule that [OF call que q])
    show "msg_qnum qp = usub (msg_qnum (msgque st ! i)) 1" "msg_cbytes qp = msg_cbytes (msgque st ! i)"
      by (simp_all add: qp_def q1_def)
    show "perm_same (msg_perm (msgque st ! i)) (msg_perm qp)"
    proof -
      have "perm_same (msg_perm q1) (msg_perm qp)" by (simp add: qp_def)
      moreover have "msg_perm q1 = msg_perm (msgque st ! i)" by (simp add: q1_def)
      ultimately show ?thesis by simp
    qed
    show "msgfp st' = msg_hdr (msg_q (msgque st ! i) ! k) # msgfp st" by (simp add: st'_def f2 m_def)
    show "msg_txt st' = msg_txt st" "pool_ok info st'" using r(1) map' by blast+
  qed
qed

section \<open>The invariant through the operations\<close>

lemma distinct_append_swap: "distinct (xs @ x # ys @ zs) \<Longrightarrow> distinct ((xs @ ys) @ x # zs)"
  by auto

lemma del_nth_length: "k < length q \<Longrightarrow> length q = length (del_nth k q) + 1"
  by (simp add: del_nth_def)

lemma del_nth_sum:
  fixes f :: "'a \<Rightarrow> nat"
  assumes "k < length q"
  shows "sum_list (map f q) = sum_list (map f (del_nth k q)) + f (q ! k)"
  by (subst del_nth_eq(1) [OF assms]) (simp add: del_nth_def)

text \<open>What one changed queue does to the invariant.\<close>

lemma nth_update_all:
  "\<forall>j < length xs. P j (xs ! j) \<Longrightarrow> P i x \<Longrightarrow> j < length xs \<Longrightarrow> P j (xs[i := x] ! j)"
  by (cases "i = j") simp_all

lemma queues_update:
  assumes "\<forall>j < length (msgque st). queue_ok info j (msgque st ! j)" "msgque st' = (msgque st)[i := qp]" "queue_ok info i qp"
  shows "\<forall>j < length (msgque st'). queue_ok info j (msgque st' ! j)"
  using nth_update_all [OF assms(1,3)] assms(2) by simp

lemma msg_wf0_replace:
  assumes wf: "msg_wf0 info st" and i: "i < length (msgque st)" and que: "msgque st' = (msgque st)[i := qp]"
    and same: "msgmap st' = msgmap st" "msgfp st' = msgfp st" "msg_txt st' = msg_txt st" "msg_q qp = msg_q (msgque st ! i)"
    and new: "queue_ok info i qp" "keys_distinct ((msg_perms st)[i := msg_perm qp])"
  shows "msg_wf0 info st'"
proof -
  have all: "all_msgs st' = all_msgs st" using all_msgs_split [OF i] que same(4) by metis
  have "\<forall>j < length (msgque st'). queue_ok info j (msgque st' ! j)"
    using queues_update [OF _ que new(1)] msg_wf0D(7) [OF wf] by blast
  moreover have "keys_distinct (msg_perms st')" using new(2) que by (simp add: msg_perms_def map_update)
  ultimately show ?thesis using wf all same que unfolding msg_wf0_def pool_ok_def by simp
qed

lemma msg_wf0_upd:
  assumes wf: "msg_wf0 info st" and i: "i < length (msgque st)" and que: "msgque st' = (msgque st)[i := qp]"
    and same: "msgmap st' = msgmap st" "msgfp st' = msgfp st" "msg_txt st' = msg_txt st"
      "msg_q qp = msg_q (msgque st ! i)" "msg_qnum qp = msg_qnum (msgque st ! i)"
      "perm_same (msg_perm (msgque st ! i)) (msg_perm qp)"
  shows "msg_wf0 info st'"
proof (rule msg_wf0_replace [OF wf i que same(1-4)])
  show "queue_ok info i qp" using msg_wf0D(7) [OF wf i] same(4-6) by (simp add: queue_ok_def perm_same_def)
  show "keys_distinct ((msg_perms st)[i := msg_perm qp])"
    using keys_distinct_perm_same [OF msg_wf0D(8) [OF wf] i same(6) que] que by (simp add: msg_perms_def map_update)
qed

lemma msg_wf_upd:
  assumes wf: "msg_wf info st" and i: "i < length (msgque st)" and que: "msgque st' = (msgque st)[i := qp]"
    and same: "msgmap st' = msgmap st" "msgfp st' = msgfp st" "msg_txt st' = msg_txt st"
      "msg_q qp = msg_q (msgque st ! i)" "msg_qnum qp = msg_qnum (msgque st ! i)"
      "perm_same (msg_perm (msgque st ! i)) (msg_perm qp)" "msg_cbytes qp = msg_cbytes (msgque st ! i)"
  shows "msg_wf info st'"
proof -
  have "bytes_ok qp" using wf i same(4,7) by (simp add: msg_wf_def bytes_ok_def)
  then show ?thesis
    using wf msg_wf0_upd [OF _ i que same(1-6)] nth_update_all [of "msgque st" "\<lambda>_. bytes_ok"] que
    by (simp add: msg_wf_def)
qed

lemma msg_wf_upd_q:
  assumes "msg_wf info st" "i < length (msgque st)" "msg_q (f (msgque st ! i)) = msg_q (msgque st ! i)"
    "msg_qnum (f (msgque st ! i)) = msg_qnum (msgque st ! i)" "msg_cbytes (f (msgque st ! i)) = msg_cbytes (msgque st ! i)"
    "perm_same (msg_perm (msgque st ! i)) (msg_perm (f (msgque st ! i)))"
  shows "msg_wf info (upd_q i f st)"
  by (rule msg_wf_upd [OF assms(1,2), of _ "f (msgque st ! i)"]) (simp_all add: assms)

lemma msgfree_wf0:
  assumes wf: "msg_wf0 info st" and info: "msginfo_ok info" and i: "i < length (msgque st)"
    and k: "k < length (msg_q (msgque st ! i))"
  obtains st' qp where "msgfree info i k st = Inr st'" "msgque st' = (msgque st)[i := qp]"
    "msg_q qp = del_nth k (msg_q (msgque st ! i))" "msg_cbytes qp = msg_cbytes (msgque st ! i)"
    "perm_same (msg_perm (msgque st ! i)) (msg_perm qp)"
    "msgfp st' = msg_hdr (msg_q (msgque st ! i) ! k) # msgfp st" "msg_txt st' = msg_txt st" "msg_wf0 info st'"
proof -
  let ?q = "msg_q (msgque st ! i)"
  have seg: "msgseg info < 2 ^ 15" using info by (simp add: msginfo_ok_def)
  obtain st' qp where f: "msgfree info i k st = Inr st'" "msgque st' = (msgque st)[i := qp]"
    "msg_q qp = del_nth k ?q" "msg_qnum qp = usub (msg_qnum (msgque st ! i)) 1"
    "msg_cbytes qp = msg_cbytes (msgque st ! i)" "perm_same (msg_perm (msgque st ! i)) (msg_perm qp)"
    "msgfp st' = msg_hdr (?q ! k) # msgfp st" "msg_txt st' = msg_txt st" "pool_ok info st'"
    using msgfree_ok [OF i k msg_wf0D(2,5,6) [OF wf] seg] by metis
  obtain pre post where sp: "all_msgs st = pre @ ?q @ post" "all_msgs st' = pre @ del_nth k ?q @ post"
    using all_msgs_split [OF i] f(2,3) by metis
  have q: "?q = take k ?q @ ?q ! k # drop (Suc k) ?q" by (rule del_nth_eq(1) [OF k])
  have "map msg_hdr (all_msgs st) @ msgfp st
      = map msg_hdr (pre @ take k ?q) @ msg_hdr (?q ! k) # map msg_hdr (drop (Suc k) ?q @ post) @ msgfp st"
    using sp(1) q by (metis append.assoc append_Cons list.simps(9) map_append)
  moreover have "map msg_hdr (all_msgs st') @ msgfp st'
      = (map msg_hdr (pre @ take k ?q) @ map msg_hdr (drop (Suc k) ?q @ post)) @ msg_hdr (?q ! k) # msgfp st"
    using sp(2) f(7) by (simp add: del_nth_def)
  ultimately have d: "distinct (map msg_hdr (all_msgs st') @ msgfp st')"
    using wf unfolding msg_wf0_def by (metis distinct_append_swap)
  have "set (del_nth k ?q) \<subseteq> set ?q" by (auto simp: del_nth_def dest: in_set_takeD in_set_dropD)
  then have m: "\<forall>m \<in> set (all_msgs st'). msg_ok m" using msg_wf0D(5) [OF wf] sp by auto
  have "queue_ok info i qp"
    using msg_wf0D(7) [OF wf i] f(3,4,6) k del_nth_length [OF k] usub_u32 [of 1 "length (del_nth k ?q)"]
    by (auto simp: queue_ok_def perm_same_def)
  then have "\<forall>j < length (msgque st'). queue_ok info j (msgque st' ! j)"
    using queues_update [OF _ f(2)] msg_wf0D(7) [OF wf] by blast
  then have "msg_wf0 info st'"
    using d m f(2,9) msg_wf0D(1) [OF wf] keys_distinct_perm_same [OF msg_wf0D(8) [OF wf] i f(6,2)] by (simp add: msg_wf0_def)
  then show thesis using that f by blast
qed

lemma msg_drain_ok:
  assumes "msg_wf0 info st" "msginfo_ok info" "i < length (msgque st)"
  shows "\<exists>st' qp. msg_drain (length (msg_q (msgque st ! i))) info i st = Inr st' \<and> msgque st' = (msgque st)[i := qp]
    \<and> msg_q qp = [] \<and> perm_same (msg_perm (msgque st ! i)) (msg_perm qp)
    \<and> msgfp st' = rev (map msg_hdr (msg_q (msgque st ! i))) @ msgfp st \<and> msg_txt st' = msg_txt st \<and> msg_wf0 info st'"
  using assms
proof (induction "msg_q (msgque st ! i)" arbitrary: st)
  case Nil
  then show ?case by (intro exI [of _ st] exI [of _ "msgque st ! i"]) (simp add: Nil.hyps [symmetric])
next
  case (Cons m q)
  have k: "0 < length (msg_q (msgque st ! i))" using Cons.hyps(2) by (metis length_greater_0_conv list.distinct(1))
  obtain st1 qp where f: "msgfree info i 0 st = Inr st1" "msgque st1 = (msgque st)[i := qp]"
    "msg_q qp = del_nth 0 (msg_q (msgque st ! i))" "perm_same (msg_perm (msgque st ! i)) (msg_perm qp)"
    "msgfp st1 = msg_hdr (msg_q (msgque st ! i) ! 0) # msgfp st" "msg_txt st1 = msg_txt st" "msg_wf0 info st1"
    using msgfree_wf0 [OF Cons.prems k] by metis
  have q: "msgque st1 ! i = qp" "msg_q qp = q" using f(2,3) Cons.prems(3) Cons.hyps(2) [symmetric] by (simp_all add: del_nth_def)
  obtain st' qp' where r: "msg_drain (length q) info i st1 = Inr st'" "msgque st' = (msgque st1)[i := qp']"
    "msg_q qp' = []" "perm_same (msg_perm qp) (msg_perm qp')" "msgfp st' = rev (map msg_hdr q) @ msgfp st1"
    "msg_txt st' = msg_txt st1" "msg_wf0 info st'"
    using Cons.hyps(1) [of st1] q f(2,7) Cons.prems(2,3) by auto
  have "length (msg_q (msgque st ! i)) = Suc (length q)" using Cons.hyps(2) [symmetric] by simp
  then have "msg_drain (length (msg_q (msgque st ! i))) info i st = Inr st'" using f(1) r(1) by simp
  moreover have "msgfp st' = rev (map msg_hdr (msg_q (msgque st ! i))) @ msgfp st"
    using r(5) f(5) Cons.hyps(2) [symmetric] by simp
  moreover have "msgque st' = (msgque st)[i := qp']" using r(2) f(2) by simp
  ultimately show ?case using r(3,6,7) f(6) perm_same_trans [OF f(4) r(4)] by auto
qed

lemma msg_wf_lift:
  assumes "msg_wf info st" "msgque st' = (msgque st)[i := qp]" "bytes_ok qp" "msg_wf0 info st'"
  shows "msg_wf info st'"
  using assms(1,2,4) nth_update_all [of "msgque st" "\<lambda>_. bytes_ok" i qp] assms(3) by (simp add: msg_wf_def)

lemma msgctl_rmid_ok:
  assumes wf: "msg_wf info st" and info: "msginfo_ok info" and cv: "msgconv info msgid st = Inr i"
  shows "\<exists>res asu' st'. msgctl_rmid info msgid i cr asu st = Inr (res, asu', st') \<and> msg_wf info st'
    \<and> (if fst (msg_owner (msg_perm (msgque st ! i)) cr asu)
       then res = Inr MsgZero \<and> msgfp st' = rev (map msg_hdr (msg_q (msgque st ! i))) @ msgfp st \<and> msg_txt st' = msg_txt st
         \<and> (\<exists>qp. msgque st' = (msgque st)[i := qp] \<and> msg_q qp = [] \<and> \<not> ipc_allocd (msg_perm qp)
               \<and> ipc_seq (msg_perm qp) = msg_next_seq (msgmni info) msgid (ipc_seq (msg_perm (msgque st ! i))))
       else res = Inl EPERM \<and> st' = st)"
proof (cases "fst (msg_owner (msg_perm (msgque st ! i)) cr asu)")
  case False
  then show ?thesis using wf by (auto simp: msgctl_rmid_def Let_def split: prod.splits)
next
  case True
  have wf0: "msg_wf0 info st" using wf by (simp add: msg_wf_def)
  have i: "i < length (msgque st)"
    using msgconv_Inr [OF cv] msg_wf0D(1) [OF wf0] info by (simp add: msg_index_def nat_less_iff msginfo_ok_def)
  obtain st1 qp1 where d: "msg_drain (length (msg_q (msgque st ! i))) info i st = Inr st1" "msgque st1 = (msgque st)[i := qp1]"
    "msg_q qp1 = []" "perm_same (msg_perm (msgque st ! i)) (msg_perm qp1)"
    "msgfp st1 = rev (map msg_hdr (msg_q (msgque st ! i))) @ msgfp st" "msg_txt st1 = msg_txt st" "msg_wf0 info st1"
    using msg_drain_ok [OF wf0 info i] by blast
  define qp where "qp = qp1\<lparr>msg_cbytes := 0, msg_perm := (msg_perm qp1)\<lparr>ipc_seq := msg_next_seq (msgmni info) msgid (ipc_seq (msg_perm qp1)), ipc_mode := 0\<rparr>\<rparr>"
  obtain asu' where ow: "msg_owner (msg_perm (msgque st ! i)) cr asu = (True, asu')" using True by (metis prod.collapse)
  have "\<exists>st'. msgctl_rmid info msgid i cr asu st = Inr (Inr MsgZero, asu', st') \<and> msgque st' = (msgque st1)[i := qp]
      \<and> msgmap st' = msgmap st1 \<and> msgfp st' = msgfp st1 \<and> msg_txt st' = msg_txt st1"
    using i by (simp add: msgctl_rmid_def ow d(1,2) Let_def qp_def)
  then obtain st' where call: "msgctl_rmid info msgid i cr asu st = Inr (Inr MsgZero, asu', st')"
    "msgque st' = (msgque st1)[i := qp]" "msgmap st' = msgmap st1" "msgfp st' = msgfp st1" "msg_txt st' = msg_txt st1"
    by blast
  have seq: "ipc_seq (msg_perm qp1) = ipc_seq (msg_perm (msgque st ! i))" using d(4) by (simp add: perm_same_def)
  have idn: "msgid = msg_mkid (msgmni info) (ipc_seq (msg_perm qp1)) i"
    using msgconv_mkid [OF cv] seq msg_wf0D(7) [OF wf0 i] info by (simp add: msg_mkid_eq queue_ok_def msginfo_ok_def)
  have i1: "i < length (msgque st1)" "msgque st1 ! i = qp1" using i d(2) by simp_all
  have "msg_wf0 info st'"
  proof (rule msg_wf0_replace [OF d(7) i1(1) call(2-5)])
    show "msg_q qp = msg_q (msgque st1 ! i)" by (simp add: i1 qp_def)
    have ok: "queue_ok info i qp1" using msg_wf0D(7) [OF d(7) i1(1)] i1(2) by simp
    then show "queue_ok info i qp"
      using msg_ids.next_ok [of "msgmni info" "ipc_seq (msg_perm qp1)" i] d(3) idn by (simp add: queue_ok_def qp_def)
    show "keys_distinct ((msg_perms st1)[i := msg_perm qp])"
      by (rule keys_distinct_free [OF msg_wf0D(8) [OF d(7)]]) (simp add: qp_def ipc_allocd_def)
  qed
  moreover have que: "msgque st' = (msgque st)[i := qp]" using call(2) d(2) by simp
  moreover have "bytes_ok qp" using d(3) by (simp add: bytes_ok_def qp_def)
  ultimately have "msg_wf info st'" using msg_wf_lift [OF wf que] by blast
  moreover have "msg_q qp = []" "\<not> ipc_allocd (msg_perm qp)"
    "ipc_seq (msg_perm qp) = msg_next_seq (msgmni info) msgid (ipc_seq (msg_perm (msgque st ! i)))"
    using d(3) seq by (simp_all add: qp_def ipc_allocd_def)
  ultimately show ?thesis using True call(1,4,5) que d(5,6) by auto
qed

lemma msg_set_perm_wf:
  assumes "msg_wf info st" "i < length (msgque st)"
  shows "msg_wf info (msg_set_perm i uid gid mode qbytes now st)"
proof -
  have "bit mode777 15 = False" by (simp add: mode777_def)
  then have "perm_same p (p\<lparr>ipc_uid := uid, ipc_gid := gid, ipc_mode := (ipc_mode p AND NOT mode777) OR (mode AND mode777)\<rparr>)" for p
    by (simp add: perm_same_def ipc_allocd_bit bit_or_iff bit_and_iff bit_not_iff)
  then show ?thesis unfolding msg_set_perm_def by (intro msg_wf_upd_q [OF assms]) simp_all
qed

lemma msgconv_index:
  assumes "msg_wf info st" "msginfo_ok info" "msgconv info idn st = Inr i"
  shows "i < length (msgque st)"
  using assms msgconv_Inr(1,2) [OF assms(3)] msg_wf0D(1) [of info st]
  by (simp add: msg_wf_def msg_index_def nat_less_iff msginfo_ok_def)

lemma msgctl_wf:
  assumes "msg_wf info st" "msginfo_ok info"
  shows "\<exists>res asu' st'. msgctl info now cr asu msgid cmd st = Inr (res, asu', st') \<and> msg_wf info st'"
proof (cases "msgconv info msgid st")
  case (Inl e)
  then show ?thesis using assms(1) by (simp add: msgctl_def)
next
  case (Inr i)
  note i = msgconv_index [OF assms Inr]
  show ?thesis
  proof (cases cmd)
    case MsgRMID
    then show ?thesis using Inr msgctl_rmid_ok [OF assms Inr, of cr asu] by (auto simp: msgctl_def)
  next
    case (MsgOSET arg)
    then show ?thesis using Inr assms(1) msg_set_perm_wf [OF assms(1) i]
      by (auto simp: msgctl_def msgctl_oset_def Let_def split: prod.splits option.splits)
  next
    case (MsgSET arg)
    then show ?thesis using Inr assms(1) msg_set_perm_wf [OF assms(1) i]
      by (auto simp: msgctl_def msgctl_set_def Let_def split: prod.splits option.splits)
  next
    case (MsgOSTAT ok)
    then show ?thesis using Inr assms(1) by (auto simp: msgctl_def msgctl_ostat_def Let_def split: option.splits)
  next
    case (MsgSTAT ok)
    then show ?thesis using Inr assms(1) by (auto simp: msgctl_def msgctl_stat_def split: option.splits)
  next
    case MsgBADCMD
    then show ?thesis using Inr assms(1) by (simp add: msgctl_def)
  qed
qed

lemma msgget_wf:
  assumes wf: "msg_wf info st" and call: "msgget info now cr key flg st = (res, st')"
  shows "msg_wf info st'"
proof (cases "\<exists>i p. ipcget key flg cr (msg_perms st) = Inr (True, i, p)")
  case False
  then have "st' = st" using call by (auto simp: msgget_def split: sum.splits if_splits)
  then show ?thesis using wf by simp
next
  case True
  then obtain i p where new: "ipcget key flg cr (msg_perms st) = Inr (True, i, p)" by blast
  note g = ipcget_new [OF new]
  have wf0: "msg_wf0 info st" using wf by (simp add: msg_wf_def)
  have i: "i < length (msgque st)" "\<not> ipc_allocd (msg_perm (msgque st ! i))" using g(1,2) by (simp_all add: msg_perms_def)
  have p: "ipc_seq p = ipc_seq (msg_perm (msgque st ! i))" "ipc_allocd p" "ipc_key p = key"
    using g(3) i(1) by (simp_all add: ipcget_init_def msg_perms_def) (metis ipc_allocd_init ipcget_init_def)
  define qp where "qp = (msgque st ! i)\<lparr>msg_perm := p, msg_q := [], msg_qnum := 0, msg_qbytes := msgmnb info,
                              msg_lspid := 0, msg_lrpid := 0, msg_stime := 0, msg_rtime := 0, msg_ctime := now\<rparr>"
  have st': "st' = st\<lparr>msgque := (msgque st)[i := qp]\<rparr>"
    using call new by (simp add: msgget_def qp_def upd_q_def)
  have old: "msg_q (msgque st ! i) = []" "msg_id_ok (msgmni info) (ipc_seq (msg_perm (msgque st ! i))) i"
    using msg_wf0D(7) [OF wf0 i(1)] i(2) by (simp_all add: queue_ok_def)
  have "msg_wf0 info st'"
  proof (rule msg_wf0_replace [OF wf0 i(1)])
    show "queue_ok info i qp" using p old by (simp add: queue_ok_def qp_def)
    show "keys_distinct ((msg_perms st)[i := msg_perm qp])"
      using keys_distinct_init [OF msg_wf0D(8) [OF wf0] g(1,4) p(3)] by (simp add: qp_def)
  qed (simp_all add: st' old qp_def)
  moreover have "bytes_ok qp" using wf i(1) old(1) by (simp add: msg_wf_def bytes_ok_def qp_def)
  ultimately show ?thesis using msg_wf_lift [OF wf, of st' i qp] st' by simp
qed

section \<open>Texts\<close>

definition msg_text :: "msginfo \<Rightarrow> msg_sys \<Rightarrow> msg \<Rightarrow> 8 word list" where
  "msg_text info st m = pool_read info st (msg_spot m) (msg_ts m)"

text \<open>A queue as its users see it: types and texts.\<close>

definition msg_view :: "msginfo \<Rightarrow> msg_sys \<Rightarrow> nat \<Rightarrow> (int \<times> 8 word list) list" where
  "msg_view info st i = map (\<lambda>m. (msg_type m, msg_text info st m)) (msg_q (msgque st ! i))"

lemma msg_view_same:
  "msg_txt st' = msg_txt st \<Longrightarrow> msg_q (msgque st' ! i) = msg_q (msgque st ! i) \<Longrightarrow> msg_view info st' i = msg_view info st i"
  by (simp add: msg_view_def msg_text_def pool_read_def)

lemma msg_view_other:
  "msg_txt st' = msg_txt st \<Longrightarrow> msgque st' = (msgque st)[i := qp] \<Longrightarrow> j \<noteq> i \<Longrightarrow> msg_view info st' j = msg_view info st j"
  by (rule msg_view_same) simp_all

lemma msg_view_upd:
  assumes "msg_txt st' = msg_txt st" "msgque st' = (msgque st)[i := qp]" "msg_q qp = msg_q (msgque st ! i)"
  shows "msg_view info st' j = msg_view info st j"
proof (rule msg_view_same [OF assms(1)])
  show "msg_q (msgque st' ! j) = msg_q (msgque st ! j)"
    using assms(2,3) by (cases "i = j"; cases "i < length (msgque st)") (simp_all add: list_update_beyond)
qed

lemma btoq_bounds:
  assumes "0 < msgssz info"
  shows "n \<le> msgssz info * btoq info n" "0 < n \<Longrightarrow> 0 < btoq info n" "btoq info n \<le> n"
proof -
  let ?s = "msgssz info"
  have e: "n + ?s - 1 = ?s * btoq info n + (n + ?s - 1) mod ?s" by (simp add: btoq_def)
  moreover have "(n + ?s - 1) mod ?s < ?s" using assms by simp
  ultimately show "n \<le> ?s * btoq info n" by linarith
  show "0 < btoq info n" if "0 < n" using that assms by (simp add: btoq_def div_greater_zero_iff)
  have "n + ?s - 1 \<le> n * ?s + (?s - 1)" using assms by (cases ?s) simp_all
  then have "btoq info n \<le> (n * ?s + (?s - 1)) div ?s" unfolding btoq_def by (rule div_le_mono)
  also have "\<dots> = n" using assms by (intro div_nat_eqI) (auto simp: mult.commute)
  finally show "btoq info n \<le> n" .
qed

lemma pool_read_write_same:
  assumes "msgssz info * spot + length bs \<le> length (msg_txt st)"
  shows "pool_read info (pool_write info st spot bs) (int spot) (length bs) = bs"
  using assms by (simp add: pool_read_def pool_write_def)

lemma window_left: "y + n \<le> length u \<Longrightarrow> take n (drop y (u @ r)) = take n (drop y u)"
  by simp

lemma pool_read_write_other:
  assumes apart: "msgssz info * nat a + n \<le> msgssz info * spot \<or> msgssz info * spot + length bs \<le> msgssz info * nat a"
    and fits: "msgssz info * spot + length bs \<le> length (msg_txt st)"
  shows "pool_read info (pool_write info st spot bs) a n = pool_read info st a n"
proof -
  define x y t where "x = msgssz info * spot" and "y = msgssz info * nat a" and "t = msg_txt st"
  have u: "length (take x t) = x" "t = take x t @ drop x t" using fits by (simp_all add: x_def t_def)
  have "take n (drop y (take x t @ bs @ drop (x + length bs) t)) = take n (drop y t)"
  proof (cases "y + n \<le> x")
    case True
    then have "y + n \<le> length (take x t)" using u(1) by simp
    then show ?thesis by (metis u(2) window_left)
  next
    case False
    then have "x + length bs \<le> y" using apart by (simp add: x_def y_def)
    then have "drop y ((take x t @ bs) @ drop (x + length bs) t) = drop (y - (x + length bs)) (drop (x + length bs) t)"
      unfolding drop_append using u(1) by simp
    then show ?thesis using \<open>x + length bs \<le> y\<close> by simp
  qed
  then show ?thesis by (simp add: pool_read_def pool_write_def x_def y_def t_def)
qed

section \<open>Selecting a message\<close>

text \<open>
  What the manual promises for a message type argument: the first message for 0, the first of
  the type asked for, and for a negative argument the first of the lowest type not above its
  absolute value.
\<close>

definition wanted :: "int \<Rightarrow> int \<Rightarrow> bool" where
  "wanted typ t \<longleftrightarrow> typ = 0 \<or> 0 < typ \<and> t = typ \<or> typ < 0 \<and> t \<le> - typ"

definition selects :: "int \<Rightarrow> int list \<Rightarrow> nat \<Rightarrow> bool" where
  "selects typ ts k \<longleftrightarrow> k < length ts \<and> wanted typ (ts ! k)
     \<and> (\<forall>j < length ts. wanted typ (ts ! j) \<longrightarrow> typ < 0 \<and> ts ! k < ts ! j \<or> (typ < 0 \<longrightarrow> ts ! k = ts ! j) \<and> k \<le> j)"

lemma selects_unique: "selects typ ts k \<Longrightarrow> selects typ ts l \<Longrightarrow> k = l"
  unfolding selects_def by (metis le_antisym less_asym less_irrefl)

definition best_ok :: "int \<Rightarrow> int list \<Rightarrow> (nat \<times> int) option \<Rightarrow> bool" where
  "best_ok typ ts b \<longleftrightarrow> (case b of None \<Rightarrow> \<forall>t \<in> set ts. \<not> wanted typ t | Some (k, t) \<Rightarrow> selects typ ts k \<and> ts ! k = t)"

lemma best_ok_snoc:
  assumes "best_ok typ ts b" "typ < 0"
  shows "best_ok typ (ts @ [t])
    (if t \<le> - typ then (if (case b of Some (_, u) \<Rightarrow> u \<le> t | None \<Rightarrow> False) then b else Some (length ts, t)) else b)"
proof (cases b)
  case None
  then have "\<not> wanted typ (ts ! j)" if "j < length ts" for j using assms(1) that by (simp add: best_ok_def)
  then show ?thesis using None assms
    by (auto simp: best_ok_def selects_def wanted_def nth_append less_Suc_eq)
next
  case (Some p)
  obtain k u where p: "p = (k, u)" by fastforce
  have s: "k < length ts" "wanted typ u" "ts ! k = u"
    "j < length ts \<Longrightarrow> wanted typ (ts ! j) \<Longrightarrow> u < ts ! j \<or> u = ts ! j \<and> k \<le> j" for j
    using assms Some p by (auto simp: best_ok_def selects_def)
  have "j < length ts \<Longrightarrow> wanted typ (ts ! j) \<Longrightarrow> t < u \<Longrightarrow> t < ts ! j" for j using s(4) [of j] by auto
  then show ?thesis using Some p s assms(2)
    by (auto simp: best_ok_def selects_def nth_append less_Suc_eq) (auto simp: wanted_def)
qed

lemma msg_find_low_ok:
  assumes "typ < 0" "- (2 ^ 31) < typ"
  shows "best_ok typ (map msg_type pre) b \<Longrightarrow> best_ok typ (map msg_type (pre @ q)) (msg_find_low typ b (length pre) q)"
proof (induction q arbitrary: pre b)
  case (Cons m q)
  have "s32 (- typ) = - typ" using assms by simp
  then have step: "msg_find_low typ b (length pre) (m # q) = msg_find_low typ
    (if msg_type m \<le> - typ then (if (case b of Some (_, u) \<Rightarrow> u \<le> msg_type m | None \<Rightarrow> False) then b
      else Some (length (map msg_type pre), msg_type m)) else b) (length (pre @ [m])) q"
    by simp
  show ?case unfolding step
    using Cons.IH [of "pre @ [m]"] best_ok_snoc [OF Cons.prems assms(1), of "msg_type m"] by simp
qed simp

lemma msg_find_type_ok:
  "msg_find_type typ k0 q = Some k \<Longrightarrow>
     k0 \<le> k \<and> k - k0 < length q \<and> msg_type (q ! (k - k0)) = typ \<and> (\<forall>j < k - k0. msg_type (q ! j) \<noteq> typ)"
proof (induction q arbitrary: k0)
  case (Cons m q)
  show ?case
  proof (cases "msg_type m = typ")
    case True
    then show ?thesis using Cons.prems by simp
  next
    case False
    then have f: "msg_find_type typ (Suc k0) q = Some k" using Cons.prems by (simp split: if_splits)
    then obtain d where d: "k = Suc k0 + d" using Cons.IH le_Suc_ex by blast
    show ?thesis using Cons.IH [OF f] False unfolding d by (simp add: All_less_Suc2)
  qed
qed simp

lemma msg_find_type_None: "msg_find_type typ k0 q = None \<longleftrightarrow> (\<forall>m \<in> set q. msg_type m \<noteq> typ)"
  by (induction q arbitrary: k0) auto

lemma msg_find_Some:
  assumes "- (2 ^ 31) < typ"
  shows "msg_find typ q = Some k \<Longrightarrow> selects typ (map msg_type q) k"
proof -
  assume f: "msg_find typ q = Some k"
  consider "typ = 0" | "0 < typ" | "typ < 0" by linarith
  then show ?thesis
  proof cases
    case 1
    then show ?thesis using f by (auto simp: msg_find_def selects_def wanted_def split: if_splits)
  next
    case 2
    then have "k < length q" "msg_type (q ! k) = typ" "\<forall>j < k. msg_type (q ! j) \<noteq> typ"
      using f msg_find_type_ok [of "typ" 0 q k] by (auto simp: msg_find_def)
    then show ?thesis using 2 by (auto simp: selects_def wanted_def) (meson not_le)
  next
    case 3
    then show ?thesis using f msg_find_low_ok [OF 3 assms, of "[]" None q] by (auto simp: msg_find_def best_ok_def)
  qed
qed

lemma msg_find_None:
  assumes "- (2 ^ 31) < typ"
  shows "msg_find typ q = None \<Longrightarrow> m \<in> set q \<Longrightarrow> \<not> wanted typ (msg_type m)"
proof -
  assume f: "msg_find typ q = None" "m \<in> set q"
  consider "typ = 0" | "0 < typ" | "typ < 0" by linarith
  then show ?thesis
  proof cases
    case 1
    then show ?thesis using f by (auto simp: msg_find_def split: if_splits)
  next
    case 2
    then show ?thesis using f by (auto simp: msg_find_def msg_find_type_None wanted_def)
  next
    case 3
    then show ?thesis using f msg_find_low_ok [OF 3 assms, of "[]" None q] by (auto simp: msg_find_def best_ok_def)
  qed
qed

text \<open>The most negative type has no absolute value: nothing is found for it.\<close>

lemma msg_find_min:
  assumes "\<forall>m \<in> set q. 1 \<le> msg_type m"
  shows "msg_find (- (2 ^ 31)) q = None"
proof -
  have "msg_find_low (- (2 ^ 31)) None k q = None" for k
    using assms by (induction q arbitrary: k) (auto simp: s32_def)
  then show ?thesis by (simp add: msg_find_def)
qed

lemma msg_find_low_bound:
  "msg_find_low typ b k0 q = Some (k, t) \<Longrightarrow> b = Some (k, t) \<or> k0 \<le> k \<and> k < k0 + length q"
  by (induction q arbitrary: b k0) (fastforce split: if_splits)+

lemma msg_find_bound: "msg_find typ q = Some k \<Longrightarrow> k < length q"
  using msg_find_low_bound [of "typ" None 0 q k] msg_find_type_ok [of "typ" 0 q k]
  by (auto simp: msg_find_def split: if_splits)

end
