(* ===== verification/Msg_Props.thy ===== *)
theory Msg_Props
  imports Msg_Inv
begin

text \<open>
  Receiving, sending and the properties of the message module: what each call does to the queues
  as their users see them (\<open>msg_view\<close>), and that no call of any sequence panics.
\<close>

section \<open>Receiving\<close>

lemma pool_bound:
  assumes "pool_ok info st" "msg_own info (all_msgs st) h = Some (a, btoq info n)" "0 < msgssz info"
  shows "msgssz info * (a - 1) + n \<le> length (msg_txt st)"
proof -
  have "a + btoq info n \<le> msgseg info + 1" "0 < a" "msgseg info * msgssz info \<le> length (msg_txt st)"
    using assms(1,2) owned_okD(1) [of _ _ h] unfolding pool_ok_def by blast+
  then have "(a - 1) + btoq info n \<le> msgseg info" by simp
  then have "msgssz info * (a - 1) + msgssz info * btoq info n \<le> msgssz info * msgseg info"
    by (metis distrib_left mult_le_mono2)
  then show ?thesis
    using btoq_bounds(1) [OF assms(3), of n] \<open>msgseg info * msgssz info \<le> length (msg_txt st)\<close> by (simp add: mult.commute)
qed

lemma free_bound:
  assumes "pool_ok info st" "{a ..< a + btoq info n} \<subseteq> rm_space (msgmap st)" "0 < a" "0 < msgssz info" "0 < n"
  shows "a + btoq info n \<le> msgseg info + 1" "msgssz info * (a - 1) + n \<le> length (msg_txt st)"
proof -
  have p: "rm_space (msgmap st) \<subseteq> {1 .. msgseg info}" "msgseg info * msgssz info \<le> length (msg_txt st)"
    using assms(1) by (simp_all add: pool_ok_def)
  have "a + btoq info n - 1 \<in> {a ..< a + btoq info n}" using btoq_bounds(2) [OF assms(4,5)] by simp
  then have "a + btoq info n - 1 \<le> msgseg info" using assms(2) p(1) by fastforce
  then show "a + btoq info n \<le> msgseg info + 1" by simp
  then have "(a - 1) + btoq info n \<le> msgseg info" using assms(3) by simp
  then have "msgssz info * (a - 1) + msgssz info * btoq info n \<le> msgssz info * msgseg info"
    by (metis distrib_left mult_le_mono2)
  then show "msgssz info * (a - 1) + n \<le> length (msg_txt st)"
    using btoq_bounds(1) [OF assms(4), of n] p(2) by (simp add: mult.commute)
qed

lemma intervals_apart:
  "S \<inter> {b ..< b + k} = {} \<Longrightarrow> 0 < k \<Longrightarrow> 0 < n \<Longrightarrow> {a ..< a + n} \<subseteq> S \<Longrightarrow> b + k \<le> a \<or> a + n \<le> (b :: nat)"
proof (rule ccontr)
  assume h: "S \<inter> {b ..< b + k} = {}" "0 < k" "0 < n" "{a ..< a + n} \<subseteq> S" "\<not> (b + k \<le> a \<or> a + n \<le> b)"
  then have "max a b \<in> {a ..< a + n}" "max a b \<in> {b ..< b + k}" by auto
  then show False using h by blast
qed

lemma msg_text_length:
  assumes wf: "msg_wf0 info st" and info: "msginfo_ok info" and m: "m \<in> set (all_msgs st)"
  shows "length (msg_text info st m) = msg_ts m"
proof (cases "msg_ts m = 0")
  case False
  then have "msg_own info (all_msgs st) (msg_hdr m) = Some (nat (msg_spot m) + 1, btoq info (msg_ts m))"
    using msg_own_in [OF msg_wf0D(2) [OF wf] m, of info] by (simp add: msg_range_def)
  from pool_bound [OF msg_wf0D(6) [OF wf] this] info show ?thesis
    by (simp add: msg_text_def pool_read_def msginfo_ok_def)
qed (simp add: msg_text_def pool_read_def)

lemma all_msgs_in:
  assumes "i < length (msgque st)" "k < length (msg_q (msgque st ! i))"
  shows "msg_q (msgque st ! i) ! k \<in> set (all_msgs st)"
  using assms by (auto simp: all_msgs_def in_set_conv_nth) (metis nth_mem)

lemma del_nth_map: "map f (del_nth k xs) = del_nth k (map f xs)"
  by (simp add: del_nth_def take_map drop_map)

lemma msgrcv_take_ok:
  assumes wf: "msg_wf info st" and info: "msginfo_ok info" and i: "i < length (msgque st)" and sz: "0 \<le> msgsz"
  shows "\<exists>out st'. msgrcv_take info pid now i msgsz msgtyp msgflg type_ok text_ok st = Inr (out, st') \<and> msg_wf info st'
    \<and> (\<forall>j. j \<noteq> i \<longrightarrow> msg_view info st' j = msg_view info st j)
    \<and> (case out of
         RcvMsg t bs \<Rightarrow> \<exists>k full. msg_find msgtyp (msg_q (msgque st ! i)) = Some k \<and> msg_view info st i ! k = (t, full)
           \<and> bs = take (nat msgsz) full \<and> (int (length full) \<le> msgsz \<or> msg_noerror msgflg)
           \<and> msg_view info st' i = del_nth k (msg_view info st i)
       | RcvErr e \<Rightarrow> st' = st \<and> (e = ENOMSG \<longrightarrow> msg_find msgtyp (msg_q (msgque st ! i)) = None \<and> msg_nowait msgflg)
           \<and> (e = ENOMSG \<or> e = E2BIG \<and> \<not> msg_noerror msgflg \<or> e = EFAULT \<and> \<not> (type_ok \<and> text_ok))
       | RcvWait \<Rightarrow> msg_find msgtyp (msg_q (msgque st ! i)) = None \<and> \<not> msg_nowait msgflg
           \<and> msg_view info st' i = msg_view info st i \<and> msgque st' = (msgque st)[i := set_flag MSG_RWAIT (msgque st ! i)])"
proof (cases "msg_find msgtyp (msg_q (msgque st ! i))")
  case None
  show ?thesis
  proof (cases "msg_nowait msgflg")
    case True
    then show ?thesis using None wf by (simp add: msgrcv_take_def)
  next
    case False
    have "msg_wf info (upd_q i (set_flag MSG_RWAIT) st)" by (rule msg_wf_upd_q [OF wf i]) simp_all
    moreover have "msg_view info (upd_q i (set_flag MSG_RWAIT) st) j = msg_view info st j" for j
      by (rule msg_view_upd [of _ _ i "set_flag MSG_RWAIT (msgque st ! i)"]) simp_all
    ultimately show ?thesis using None False by (simp add: msgrcv_take_def)
  qed
next
  case (Some k)
  let ?q = "msg_q (msgque st ! i)"
  define m where "m = ?q ! k"
  define n where "n = (if msgsz < int (msg_ts m) then nat msgsz else msg_ts m)"
  have k: "k < length ?q" using msg_find_bound [OF Some] .
  consider "msgsz < int (msg_ts m)" "\<not> msg_noerror msgflg" | "\<not> (msgsz < int (msg_ts m) \<and> \<not> msg_noerror msgflg)" "\<not> type_ok"
    | "\<not> (msgsz < int (msg_ts m) \<and> \<not> msg_noerror msgflg)" "type_ok" "n \<noteq> 0" "\<not> text_ok"
    | "\<not> (msgsz < int (msg_ts m) \<and> \<not> msg_noerror msgflg)" "type_ok" "n = 0 \<or> text_ok"
    by fast
  then show ?thesis
  proof cases
    case 4
    define st1 where "st1 = upd_q i (\<lambda>qp. qp\<lparr>msg_cbytes := usub (msg_cbytes qp) (msg_ts m), msg_lrpid := pid, msg_rtime := now\<rparr>) st"
    define q1 where "q1 = (msgque st ! i)\<lparr>msg_cbytes := usub (msg_cbytes (msgque st ! i)) (msg_ts m), msg_lrpid := pid, msg_rtime := now\<rparr>"
    have wf0: "msg_wf0 info st" using wf by (simp add: msg_wf_def)
    have que1: "msgque st1 = (msgque st)[i := q1]" by (simp add: st1_def q1_def)
    then have at: "i < length (msgque st1)" "msgque st1 ! i = q1" "msg_q q1 = ?q" using i by (simp_all add: q1_def)
    have wf1: "msg_wf0 info st1" by (rule msg_wf0_upd [OF wf0 i que1]) (simp_all add: st1_def q1_def)
    have "k < length (msg_q (msgque st1 ! i))" using at k by simp
    then obtain st' qp where f: "msgfree info i k st1 = Inr st'" "msgque st' = (msgque st1)[i := qp]"
      "msg_q qp = del_nth k ?q" "msg_cbytes qp = msg_cbytes q1" "msg_txt st' = msg_txt st1" "msg_wf0 info st'"
      using msgfree_wf0 [OF wf1 info at(1)] at by metis
    have que: "msgque st' = (msgque st)[i := qp]" using f(2) que1 by simp
    have tx: "msg_txt st' = msg_txt st" using f(5) by (simp add: st1_def)
    have in_m: "m \<in> set (all_msgs st)" using all_msgs_in [OF i k] by (simp add: m_def)
    have "msg_ts m < 2 ^ 32" using msg_wf0D(5) [OF wf0] in_m by (auto simp: msg_ok_def)
    then have "bytes_ok qp"
      using wf i f(3,4) usub_u32 [of "msg_ts m" "sum_list (map msg_ts (del_nth k ?q))"] del_nth_sum [OF k, of msg_ts]
      by (simp add: msg_wf_def bytes_ok_def q1_def m_def)
    then have wf': "msg_wf info st'" using msg_wf_lift [OF wf que _ f(6)] by simp
    have len: "length (msg_text info st m) = msg_ts m" by (rule msg_text_length [OF wf0 info in_m])
    have vk: "msg_view info st i ! k = (msg_type m, msg_text info st m)" using k by (simp add: msg_view_def m_def)
    have vi: "msg_view info st' i = del_nth k (msg_view info st i)"
      using que i f(3) tx by (simp add: msg_view_def del_nth_map [symmetric] msg_text_def pool_read_def)
    define bs where "bs = pool_read info st (msg_spot m) n"
    have bs: "bs = take (nat msgsz) (msg_text info st m)"
    proof -
      have "n = min (nat msgsz) (msg_ts m)" using sz by (simp add: n_def min_def nat_less_iff) linarith
      then show ?thesis by (simp add: bs_def msg_text_def pool_read_def)
    qed
    have "msgrcv_take info pid now i msgsz msgtyp msgflg type_ok text_ok st = Inr (RcvMsg (msg_type m) bs, st')"
      using 4 Some f(1) unfolding msgrcv_take_def st1_def m_def bs_def n_def by (simp add: Let_def)
    then show ?thesis
      using Some wf' vk vi bs len 4(1) msg_view_other [OF tx que, of _ info] by auto
  qed (use Some wf in \<open>simp_all add: msgrcv_take_def m_def [symmetric] n_def Let_def\<close>)
qed

section \<open>Sending\<close>

definition snd_text :: "nat \<Rightarrow> 8 word list option \<Rightarrow> 8 word list" where
  "snd_text cnt bs = (if cnt = 0 then [] else case bs of Some b \<Rightarrow> b | None \<Rightarrow> [])"

text \<open>Writing into free segments leaves the texts on the queues alone.\<close>

lemma pool_write_kept:
  assumes wf: "msg_wf0 info st" and info: "msginfo_ok info" and a: "{a ..< a + btoq info (length bs)} \<subseteq> rm_space (msgmap st)" "0 < a"
    and bs: "0 < length bs" and m: "m \<in> set (all_msgs st)" and same: "msg_txt st1 = msg_txt st"
  shows "msg_text info (pool_write info st1 (a - 1) bs) m = msg_text info st m"
proof (cases "msg_ts m = 0")
  case False
  let ?s = "msgssz info" and ?b = "nat (msg_spot m) + 1"
  have s: "0 < ?s" using info by (simp add: msginfo_ok_def)
  have pool: "pool_ok info st" by (rule msg_wf0D(6) [OF wf])
  have own: "msg_own info (all_msgs st) (msg_hdr m) = Some (?b, btoq info (msg_ts m))"
    using msg_own_in [OF msg_wf0D(2) [OF wf] m False, of info] by (simp add: msg_range_def)
  have "owned_ok (rm_space (msgmap st)) (msg_own info (all_msgs st))" using pool by (simp add: pool_ok_def)
  note owned_okD(2,5) [OF this own]
  moreover have "0 < btoq info (length bs)" by (rule btoq_bounds(2) [OF s bs])
  ultimately have "?b + btoq info (msg_ts m) \<le> a \<or> a + btoq info (length bs) \<le> ?b"
    using a(1) by (rule_tac intervals_apart) auto
  then have "nat (msg_spot m) + btoq info (msg_ts m) \<le> a - 1 \<or> (a - 1) + btoq info (length bs) \<le> nat (msg_spot m)"
    using a(2) by auto
  then have "?s * nat (msg_spot m) + ?s * btoq info (msg_ts m) \<le> ?s * (a - 1)
      \<or> ?s * (a - 1) + ?s * btoq info (length bs) \<le> ?s * nat (msg_spot m)"
    by (metis distrib_left mult_le_mono2)
  then have "?s * nat (msg_spot m) + msg_ts m \<le> ?s * (a - 1) \<or> ?s * (a - 1) + length bs \<le> ?s * nat (msg_spot m)"
    using btoq_bounds(1) [OF s, of "msg_ts m"] btoq_bounds(1) [OF s, of "length bs"] by linarith
  moreover have "?s * (a - 1) + length bs \<le> length (msg_txt st)"
    by (rule free_bound(2) [OF pool a s bs])
  ultimately have "pool_read info (pool_write info st1 (a - 1) bs) (msg_spot m) (msg_ts m) = pool_read info st1 (msg_spot m) (msg_ts m)"
    using same by (intro pool_read_write_other) simp_all
  then show ?thesis using same by (simp add: msg_text_def pool_read_def)
qed (simp add: msg_text_def pool_read_def)

text \<open>Putting a message with the header just taken and segments just allocated on a queue.\<close>

lemma msg_enqueue_fields:
  assumes "i < length (msgque st)"
  shows "\<exists>qp. msgque (msg_enqueue pid now i m cnt st) = (msgque st)[i := qp] \<and> msg_q qp = msg_q (msgque st ! i) @ [m]
      \<and> msg_qnum qp = uadd (msg_qnum (msgque st ! i)) 1 \<and> msg_cbytes qp = uadd (msg_cbytes (msgque st ! i)) cnt
      \<and> perm_same (msg_perm (msgque st ! i)) (msg_perm qp)"
    "msgmap (msg_enqueue pid now i m cnt st) = msgmap st" "msgfp (msg_enqueue pid now i m cnt st) = msgfp st"
    "msg_txt (msg_enqueue pid now i m cnt st) = msg_txt st"
proof -
  define q1 where "q1 = (msgque st ! i)\<lparr>msg_qnum := uadd (msg_qnum (msgque st ! i)) 1, msg_cbytes := uadd (msg_cbytes (msgque st ! i)) cnt,
                                 msg_lspid := pid, msg_stime := now, msg_q := msg_q (msgque st ! i) @ [m]\<rparr>"
  define qp where "qp = (if rwaiting (msg_perm q1) then clear_flag MSG_RWAIT q1 else q1)"
  have "perm_same (msg_perm q1) (msg_perm qp)" "msg_perm q1 = msg_perm (msgque st ! i)" by (simp_all add: qp_def) (simp add: q1_def)
  moreover have "msgque (msg_enqueue pid now i m cnt st) = (msgque st)[i := qp]"
    using assms by (simp add: msg_enqueue_def Let_def qp_def q1_def)
  moreover have "msg_q qp = msg_q q1" "msg_qnum qp = msg_qnum q1" "msg_cbytes qp = msg_cbytes q1" by (simp_all add: qp_def)
  ultimately show "\<exists>qp. msgque (msg_enqueue pid now i m cnt st) = (msgque st)[i := qp] \<and> msg_q qp = msg_q (msgque st ! i) @ [m]
      \<and> msg_qnum qp = uadd (msg_qnum (msgque st ! i)) 1 \<and> msg_cbytes qp = uadd (msg_cbytes (msgque st ! i)) cnt
      \<and> perm_same (msg_perm (msgque st ! i)) (msg_perm qp)"
    by (intro exI [of _ qp]) (simp add: q1_def)
qed (simp_all add: msg_enqueue_def Let_def)

lemma msg_enqueue_wf:
  assumes wf: "msg_wf info st" and i: "i < length (msgque st)" "ipc_allocd (msg_perm (msgque st ! i))"
    and st1: "msgque st1 = msgque st" "msgfp st = msg_hdr m # msgfp st1" "length (msg_txt st1) = length (msg_txt st)"
    and m: "msg_ok m" "msg_ts m \<noteq> 0 \<Longrightarrow> nat (msg_spot m) + 1 + btoq info (msg_ts m) \<le> msgseg info + 1"
    and mp: "rmap_wf (msgmap st1)" "rm_space (msgmap st1) \<subseteq> rm_space (msgmap st)"
      "owned_ok (rm_space (msgmap st1)) (if msg_ts m \<noteq> 0 then (msg_own info (all_msgs st))(msg_hdr m \<mapsto> msg_range info m)
         else msg_own info (all_msgs st))"
  shows "msg_wf info (msg_enqueue pid now i m (msg_ts m) st1)"
proof -
  have wf0: "msg_wf0 info st" using wf by (simp add: msg_wf_def)
  define st' where "st' = msg_enqueue pid now i m (msg_ts m) st1"
  note e = msg_enqueue_fields [of i st1 pid now m "msg_ts m", folded st'_def, unfolded st1(1), OF i(1)]
  obtain qp where qp: "msgque st' = (msgque st)[i := qp]" "msg_q qp = msg_q (msgque st ! i) @ [m]"
    "msg_qnum qp = uadd (msg_qnum (msgque st ! i)) 1" "msg_cbytes qp = uadd (msg_cbytes (msgque st ! i)) (msg_ts m)"
    "perm_same (msg_perm (msgque st ! i)) (msg_perm qp)" using e(1) by blast
  obtain xs ys where all: "all_msgs st = xs @ ys" "all_msgs st' = xs @ m # ys"
    using all_msgs_split [OF i(1)] qp(1,2) by (metis append.assoc append_Cons append_Nil)
  have d: "distinct (map msg_hdr (all_msgs st') @ msgfp st')"
    using wf0 all st1(2) e(3) by (auto simp: msg_wf0_def)
  then have own: "msg_own info (all_msgs st') = (if msg_ts m \<noteq> 0 then (msg_own info (all_msgs st))(msg_hdr m \<mapsto> msg_range info m)
      else msg_own info (all_msgs st))"
    unfolding all by (intro msg_own_middle(1)) auto
  have old: "pool_ok info st" by (rule msg_wf0D(6) [OF wf0])
  then have "\<forall>h a n. msg_own info (all_msgs st') h = Some (a, n) \<longrightarrow> a + n \<le> msgseg info + 1"
    using m(2) unfolding own pool_ok_def by (auto simp: msg_range_def)
  then have pool: "pool_ok info st'"
    using mp old own e(2,4) st1(3) by (auto simp: pool_ok_def)
  have qok: "queue_ok info i qp"
    using msg_wf0D(7) [OF wf0 i(1)] qp(2,3,5) i(2) by (simp add: queue_ok_def perm_same_def uadd_u32)
  have "msg_wf0 info st'"
    unfolding msg_wf0_def
  proof (intro conjI)
    show "\<forall>j < length (msgque st'). queue_ok info j (msgque st' ! j)"
      using queues_update [OF _ qp(1) qok] msg_wf0D(7) [OF wf0] by blast
    show "keys_distinct (msg_perms st')" by (rule keys_distinct_perm_same [OF msg_wf0D(8) [OF wf0] i(1) qp(5,1)])
    show "\<forall>m \<in> set (all_msgs st'). msg_ok m" using msg_wf0D(5) [OF wf0] m(1) all by auto
  qed (use d pool qp(1) msg_wf0D(1) [OF wf0] in simp_all)
  moreover have "bytes_ok qp" using wf i(1) qp(2,4) by (simp add: msg_wf_def bytes_ok_def uadd_u32)
  ultimately show ?thesis using msg_wf_lift [OF wf qp(1)] by (simp add: st'_def)
qed

lemma rm_release_Some: "rm_release mp n a = Some mp' \<longleftrightarrow> (\<exists>w. rmfree mp n a = Inr (w, mp'))"
  by (auto simp: rm_release_def split: sum.splits)

text \<open>Changes of the pool's map that give nothing away.\<close>

lemma msg_wf_map:
  assumes wf: "msg_wf info st" and st': "msgque st' = msgque st" "msgfp st' = msgfp st" "msg_txt st' = msg_txt st"
    and mp: "rmap_wf (msgmap st')" "rm_space (msgmap st') \<subseteq> rm_space (msgmap st)"
      "owned_ok (rm_space (msgmap st')) (msg_own info (all_msgs st))"
  shows "msg_wf info st'"
proof -
  have "all_msgs st' = all_msgs st" "msg_perms st' = msg_perms st" by (simp_all add: all_msgs_def msg_perms_def st')
  then show ?thesis using wf mp st' by (auto simp: msg_wf_def msg_wf0_def pool_ok_def)
qed

lemma msg_hdr_free_back: "msgfp st = h # fs \<Longrightarrow> msgfp (msg_hdr_free h (st\<lparr>msgfp := fs\<rparr>)) = msgfp st"
  by simp

lemma msg_enqueue_view:
  assumes i: "i < length (msgque st)" "msgque st1 = msgque st"
    and kept: "\<And>m'. m' \<in> set (all_msgs st) \<Longrightarrow> msg_text info st1 m' = msg_text info st m'"
  shows "msg_view info (msg_enqueue pid now i m cnt st1) i = msg_view info st i @ [(msg_type m, msg_text info st1 m)]"
    "j < length (msgque st) \<Longrightarrow> j \<noteq> i \<Longrightarrow> msg_view info (msg_enqueue pid now i m cnt st1) j = msg_view info st j"
proof -
  note e = msg_enqueue_fields [of i st1 pid now m cnt, unfolded i(2), OF i(1)]
  have t: "msg_text info (msg_enqueue pid now i m cnt st1) = msg_text info st1"
    using e(4) by (simp add: fun_eq_iff msg_text_def pool_read_def)
  have q: "msg_text info st1 m' = msg_text info st m'" if "m' \<in> set (msg_q (msgque st ! j))" "j < length (msgque st)" for m' j
    using kept that all_msgs_in by (metis in_set_conv_nth)
  show "msg_view info (msg_enqueue pid now i m cnt st1) i = msg_view info st i @ [(msg_type m, msg_text info st1 m)]"
    using e(1) i(1) q by (auto simp: msg_view_def t)
  show "msg_view info (msg_enqueue pid now i m cnt st1) j = msg_view info st j" if "j < length (msgque st)" "j \<noteq> i"
    using e(1) that q by (auto simp: msg_view_def t)
qed

definition snd_result :: "msginfo \<Rightarrow> nat \<Rightarrow> int \<Rightarrow> nat \<Rightarrow> 32 word \<Rightarrow> 8 word list option \<Rightarrow> msg_sys \<Rightarrow> snd_outcome \<Rightarrow> msg_sys \<Rightarrow> bool" where
  "snd_result info i typ cnt msgflg tx st out st' \<longleftrightarrow>
     (\<forall>j < length (msgque st). j \<noteq> i \<longrightarrow> msg_view info st' j = msg_view info st j)
   \<and> (if out = SndDone
      then msg_view info st' i = msg_view info st i @ [(typ, snd_text cnt tx)] \<and> (cnt = 0 \<or> tx \<noteq> None)
        \<and> msgfp st = hd (msgfp st) # msgfp st'
      else msg_view info st' i = msg_view info st i \<and> msgfp st' = msgfp st
        \<and> (out = SndErr EAGAIN \<and> msg_nowait msgflg \<or> out = SndErr EFAULT \<and> cnt \<noteq> 0 \<and> tx = None
           \<or> out \<in> {SndWaitQ, SndWaitH, SndWaitM} \<and> \<not> msg_nowait msgflg))"

lemma snd_result_same:
  assumes "msgque st' = msgque st" "msgfp st' = msgfp st" "msg_txt st' = msg_txt st"
    "out = SndErr EAGAIN \<and> msg_nowait msgflg \<or> out = SndErr EFAULT \<and> cnt \<noteq> 0 \<and> tx = None
     \<or> out \<in> {SndWaitQ, SndWaitH, SndWaitM} \<and> \<not> msg_nowait msgflg"
  shows "snd_result info i typ cnt msgflg tx st out st'"
  using assms msg_view_same [of st' st _ info] by (auto simp: snd_result_def)

lemma msgsnd_hdr_empty:
  assumes wf: "msg_wf info st" and i: "i < length (msgque st)" "ipc_allocd (msg_perm (msgque st ! i))" and h: "msgfp st = h # fs"
    and t: "1 \<le> typ"
  shows "\<exists>st'. msgsnd_hdr info pid now i typ 0 msgflg tx h (st\<lparr>msgfp := fs\<rparr>) = Inr (SndDone, st') \<and> msg_wf info st'
    \<and> snd_result info i typ 0 msgflg tx st SndDone st'"
proof -
  define st1 where "st1 = st\<lparr>msgfp := fs\<rparr>"
  have f1: "msgque st1 = msgque st" "msgfp st = h # msgfp st1" "msg_txt st1 = msg_txt st" "msgmap st1 = msgmap st" "msgfp st1 = fs"
    using h by (simp_all add: st1_def)
  define m where "m = \<lparr>msg_hdr = h, msg_type = typ, msg_ts = 0, msg_spot = - 1\<rparr>"
  have mp: "rmap_wf (msgmap st)" "owned_ok (rm_space (msgmap st)) (msg_own info (all_msgs st))"
    using wf by (simp_all add: msg_wf_def msg_wf0_def pool_ok_def)
  have "msg_wf info (msg_enqueue pid now i m (msg_ts m) st1)"
    using mp by (intro msg_enqueue_wf [OF wf i]) (simp_all add: f1 m_def msg_ok_def h t)
  moreover have "msg_text info st1 m = []" by (simp add: m_def msg_text_def pool_read_def)
  moreover have "msg_text info st1 m' = msg_text info st m'" for m' using f1(3) by (simp add: msg_text_def pool_read_def)
  ultimately show ?thesis
    using msg_enqueue_view [OF i(1) f1(1), where info = info and pid = pid and now = now and m = m and cnt = 0]
      msg_enqueue_fields(3) [of i st1 pid now m 0] i(1) f1
    by (simp add: msgsnd_hdr_def m_def snd_text_def snd_result_def st1_def)
qed

lemma msgsnd_hdr_nospace:
  assumes wf: "msg_wf info st" and h: "msgfp st = h # fs" and cnt: "cnt \<noteq> 0"
    and a: "fst (rmalloc (msgmap st) (btoq info cnt)) = 0"
  shows "\<exists>out st'. msgsnd_hdr info pid now i typ cnt msgflg tx h (st\<lparr>msgfp := fs\<rparr>) = Inr (out, st') \<and> msg_wf info st'
    \<and> snd_result info i typ cnt msgflg tx st out st' \<and> out \<noteq> SndDone"
proof -
  let ?st1 = "st\<lparr>msgfp := fs\<rparr>"
  let ?w = "msg_hdr_free h (?st1\<lparr>msgmap := (msgmap st)\<lparr>mh_want := mh_want (msgmap st) + 1\<rparr>\<rparr>)"
  have mp: "rmap_wf (msgmap st)" "owned_ok (rm_space (msgmap st)) (msg_own info (all_msgs st))"
    using wf by (simp_all add: msg_wf_def msg_wf0_def pool_ok_def)
  have r: "rmalloc_locked (msgmap st) (btoq info cnt) = (0, snd (rmalloc (msgmap st) (btoq info cnt)))"
    using a by (metis prod.collapse rmalloc_def)
  have "msg_wf info (msg_hdr_free h ?st1)" "msg_wf info ?w"
    using mp h by (auto intro!: msg_wf_map [OF wf] simp: rmap_wf_def rmap_inv_def rm_space_def)
  then show ?thesis
    using cnt r h by (cases "msg_nowait msgflg") (auto simp: msgsnd_hdr_def intro!: snd_result_same)
qed

lemma msgsnd_hdr_fault:
  assumes wf: "msg_wf info st" and info: "msginfo_ok info" and h: "msgfp st = h # fs" and cnt: "cnt \<noteq> 0" "cnt \<le> msgmax info"
    and a: "rmalloc (msgmap st) (btoq info cnt) = (a, mp')" "a \<noteq> 0"
  shows "\<exists>st'. msgsnd_hdr info pid now i typ cnt msgflg None h (st\<lparr>msgfp := fs\<rparr>) = Inr (SndErr EFAULT, st') \<and> msg_wf info st'
    \<and> snd_result info i typ cnt msgflg None st (SndErr EFAULT) st'"
proof -
  have ssz: "0 < msgssz info" "msgmax info < 2 ^ 16" using info by (simp_all add: msginfo_ok_def)
  have n: "0 < btoq info cnt" "btoq info cnt < 2 ^ 31" using btoq_bounds(2,3) [OF ssz(1), of cnt] cnt ssz(2) by simp_all
  have mp: "rmap_wf (msgmap st)" "owned_ok (rm_space (msgmap st)) (msg_own info (all_msgs st))"
    using wf by (simp_all add: msg_wf_def msg_wf0_def pool_ok_def)
  obtain m2 w where r: "rmfree mp' (btoq info cnt) a = Inr (w, m2)" "rmap_wf m2"
    "owned_ok (rm_space m2) (msg_own info (all_msgs st))" "rm_space m2 \<subseteq> rm_space (msgmap st)"
    using rm.alloc_release_owned [OF mp n a] by (auto simp: rm_release_Some)
  let ?st' = "msg_hdr_free h (st\<lparr>msgfp := fs, msgmap := m2\<rparr>)"
  have "msg_wf info ?st'" using r h by (intro msg_wf_map [OF wf]) simp_all
  moreover have "msgsnd_hdr info pid now i typ cnt msgflg None h (st\<lparr>msgfp := fs\<rparr>) = Inr (SndErr EFAULT, ?st')"
    using cnt a r(1) by (simp add: msgsnd_hdr_def rmalloc_def)
  ultimately show ?thesis using h cnt by (auto intro!: snd_result_same)
qed

lemma msgsnd_hdr_done:
  assumes wf: "msg_wf info st" and info: "msginfo_ok info" and i: "i < length (msgque st)" "ipc_allocd (msg_perm (msgque st ! i))"
    and h: "msgfp st = h # fs" and cnt: "cnt \<noteq> 0" "cnt \<le> msgmax info" "length bs = cnt"
    and t: "1 \<le> typ" and a: "rmalloc (msgmap st) (btoq info cnt) = (a, mp')" "a \<noteq> 0"
  shows "\<exists>st'. msgsnd_hdr info pid now i typ cnt msgflg (Some bs) h (st\<lparr>msgfp := fs\<rparr>) = Inr (SndDone, st') \<and> msg_wf info st'
    \<and> snd_result info i typ cnt msgflg (Some bs) st SndDone st'"
proof -
  have ssz: "0 < msgssz info" "msgmax info < 2 ^ 16" "msgseg info < 2 ^ 15" using info by (simp_all add: msginfo_ok_def)
  have n: "0 < btoq info cnt" "btoq info cnt < 2 ^ 31" using btoq_bounds(2,3) [OF ssz(1), of cnt] cnt ssz(2) by simp_all
  have wf0: "msg_wf0 info st" using wf by (simp add: msg_wf_def)
  have pool: "pool_ok info st" by (rule msg_wf0D(6) [OF wf0])
  then have mp: "rmap_wf (msgmap st)" "owned_ok (rm_space (msgmap st)) (msg_own info (all_msgs st))"
    by (simp_all add: pool_ok_def)
  have al: "{a ..< a + btoq info cnt} \<subseteq> rm_space (msgmap st)" "rm_space mp' \<subseteq> rm_space (msgmap st)"
    using rm.alloc_some [OF mp(1) n(1) a] by auto
  have b: "a + btoq info cnt \<le> msgseg info + 1" "msgssz info * (a - 1) + length bs \<le> length (msg_txt st)"
    using free_bound [OF pool al(1) _ ssz(1)] a(2) cnt by simp_all
  define m where "m = \<lparr>msg_hdr = h, msg_type = typ, msg_ts = cnt, msg_spot = int (a - 1)\<rparr>"
  define st1 where "st1 = pool_write info (st\<lparr>msgfp := fs, msgmap := mp'\<rparr>) (a - 1) bs"
  have f1: "msgque st1 = msgque st" "msgfp st = h # msgfp st1" "msgmap st1 = mp'" "length (msg_txt st1) = length (msg_txt st)"
    using h b(2) by (simp_all add: st1_def pool_write_def)
  have range: "msg_range info m = (a, btoq info cnt)" using a(2) by (simp add: m_def msg_range_def)
  have "msg_wf info (msg_enqueue pid now i m (msg_ts m) st1)"
  proof (rule msg_enqueue_wf [OF wf i f1(1)])
    show "msg_ok m" using cnt ssz(2) t by (simp add: m_def msg_ok_def)
    show "owned_ok (rm_space (msgmap st1)) (if msg_ts m \<noteq> 0 then (msg_own info (all_msgs st))(msg_hdr m \<mapsto> msg_range info m)
         else msg_own info (all_msgs st))"
      using rm.alloc_owned [OF mp n a, of h] cnt(1) by (simp add: range f1(3)) (simp add: m_def)
  qed (use rm.alloc_some [OF mp(1) n(1) a] f1 al b a(2) in \<open>simp_all add: m_def\<close>)
  moreover have tx: "msg_text info st1 m = bs"
    using pool_read_write_same [of info "a - 1" bs "st\<lparr>msgfp := fs, msgmap := mp'\<rparr>"] b(2) cnt(3)
    by (simp add: m_def msg_text_def st1_def)
  moreover have "msg_text info st1 m' = msg_text info st m'" if "m' \<in> set (all_msgs st)" for m'
    unfolding st1_def using cnt al a(2) by (intro pool_write_kept [OF wf0 info _ _ _ that]) simp_all
  note msg_enqueue_view [OF i(1) f1(1) this, where pid = pid and now = now and m = m and cnt = cnt]
  moreover have "u16 (int cnt) = cnt" "s16 (int (a - 1)) = int (a - 1)" using cnt(2) ssz b(1) n(1) by simp_all
  then have "msgsnd_hdr info pid now i typ cnt msgflg (Some bs) h (st\<lparr>msgfp := fs\<rparr>) = Inr (SndDone, msg_enqueue pid now i m cnt st1)"
    using cnt(1) a by (simp add: msgsnd_hdr_def rmalloc_def m_def st1_def)
  ultimately show ?thesis
    using msg_enqueue_fields(3) [of i st1 pid now m cnt] i(1) f1 cnt(1) by (simp add: m_def snd_text_def snd_result_def)
qed

lemma msgsnd_put_ok:
  assumes wf: "msg_wf info st" and info: "msginfo_ok info" and i: "i < length (msgque st)" "ipc_allocd (msg_perm (msgque st ! i))"
    and t: "1 \<le> typ" and cnt: "cnt \<le> msgmax info" and bs: "\<And>b. tx = Some b \<Longrightarrow> length b = cnt"
  shows "\<exists>out st'. msgsnd_put info pid now i typ cnt msgflg tx st = Inr (out, st') \<and> msg_wf info st'
    \<and> snd_result info i typ cnt msgflg tx st out st'"
proof -
  consider (full) "uadd cnt (msg_cbytes (msgque st ! i)) > u32 (msg_qbytes (msgque st ! i))"
    | (none) "\<not> uadd cnt (msg_cbytes (msgque st ! i)) > u32 (msg_qbytes (msgque st ! i))" "msgfp st = []"
    | (hdr) h fs where "\<not> uadd cnt (msg_cbytes (msgque st ! i)) > u32 (msg_qbytes (msgque st ! i))" "msgfp st = h # fs"
    by (cases "msgfp st") auto
  then show ?thesis
  proof cases
    case full
    have "msg_wf info (upd_q i (set_flag MSG_WWAIT) st)" by (rule msg_wf_upd_q [OF wf i(1)]) simp_all
    moreover have "msg_view info (upd_q i (set_flag MSG_WWAIT) st) j = msg_view info st j" for j
      by (rule msg_view_upd [of _ _ i "set_flag MSG_WWAIT (msgque st ! i)"]) simp_all
    ultimately show ?thesis using full wf by (simp add: msgsnd_put_def Let_def snd_result_def)
  next
    case none
    then show ?thesis using wf by (simp add: msgsnd_put_def Let_def snd_result_def)
  next
    case hdr
    obtain a mp' where a: "rmalloc (msgmap st) (btoq info cnt) = (a, mp')" by fastforce
    have put: "msgsnd_put info pid now i typ cnt msgflg tx st = msgsnd_hdr info pid now i typ cnt msgflg tx h (st\<lparr>msgfp := fs\<rparr>)"
      using hdr by (simp add: msgsnd_put_def Let_def)
    show ?thesis
    proof (cases "cnt = 0 \<or> a = 0")
      case True
      then show ?thesis
        using put msgsnd_hdr_empty [OF wf i hdr(2) t] msgsnd_hdr_nospace [OF wf hdr(2)] a by (metis fst_conv)
    next
      case False
      then show ?thesis
        using put msgsnd_hdr_fault [OF wf info hdr(2) _ cnt a] msgsnd_hdr_done [OF wf info i hdr(2) _ cnt bs t a]
        by (cases tx) (metis (no_types))+
    qed
  qed
qed

section \<open>The module as a transition system\<close>

text \<open>
  The abstract queue. A successful \<open>msgsnd\<close> appends the type and the text of the call, a successful
  \<open>msgrcv\<close> takes out the message its type argument selects and returns it, a successful
  \<open>IPC_RMID\<close> empties the queue.
\<close>

inductive q_step :: "msg_call \<Rightarrow> (errno + msg_out) option \<Rightarrow> (int \<times> 8 word list) list \<Rightarrow> (int \<times> 8 word list) list \<Rightarrow> bool" where
  send: "1 \<le> t \<Longrightarrow> q_step (MSGSND msqid msgsz flg (Some t) tx) (Some (Inr (MOutInt 0))) v (v @ [(t, snd_text (nat msgsz) tx)])"
| recv: "selects msgtyp (map fst v) k \<Longrightarrow> v ! k = (t, full) \<Longrightarrow> int (length full) \<le> msgsz \<or> msg_noerror flg \<Longrightarrow>
    q_step (MSGRCV msqid msgsz msgtyp flg type_ok text_ok) (Some (Inr (MOutMsg t (take (nat msgsz) full)))) v (del_nth k v)"
| clear: "q_step (MSGCTL msqid MsgRMID) (Some (Inr (MOutCtl MsgZero))) v []"

text \<open>The identifier of the queue that a call with this result has changed: only the three above change one.\<close>

fun q_target :: "msg_call \<Rightarrow> (errno + msg_out) option \<Rightarrow> int option" where
  "q_target (MSGSND msqid msgsz flg ty tx) (Some (Inr out)) = Some msqid"
| "q_target (MSGRCV msqid msgsz msgtyp flg type_ok text_ok) (Some (Inr out)) = Some msqid"
| "q_target (MSGCTL msqid MsgRMID) (Some (Inr out)) = Some msqid"
| "q_target call res = None"

definition views_step :: "msginfo \<Rightarrow> msg_call \<Rightarrow> (errno + msg_out) option \<Rightarrow> msg_sys \<Rightarrow> msg_sys \<Rightarrow> bool" where
  "views_step info call res st st' \<longleftrightarrow>
     (case q_target call res of
        None \<Rightarrow> \<forall>j < msgmni info. msg_view info st' j = msg_view info st j
      | Some msqid \<Rightarrow> \<exists>i. msgconv info msqid st = Inr i \<and> q_step call res (msg_view info st i) (msg_view info st' i)
          \<and> (\<forall>j < msgmni info. j \<noteq> i \<longrightarrow> msg_view info st' j = msg_view info st j))"

lemma views_step_same:
  "q_target call res = None \<Longrightarrow> (\<And>j. msg_view info st' j = msg_view info st j) \<Longrightarrow> views_step info call res st st'"
  by (simp add: views_step_def)

text \<open>The results of \<open>msgrcv\<close> and \<open>msgsnd\<close> as the system call entry returns them.\<close>

definition rcv_res :: "msg_ret \<Rightarrow> (errno + msg_out) option" where
  "rcv_res ret = (case ret of MsgRet res \<Rightarrow> Some (map_sum id (\<lambda>(t, bs). MOutMsg t bs) res) | MsgAsleep \<Rightarrow> None)"

definition snd_res :: "msg_ret \<Rightarrow> (errno + msg_out) option" where
  "snd_res ret = (case ret of MsgRet res \<Rightarrow> Some (map_sum id (\<lambda>_. MOutInt 0) res) | MsgAsleep \<Rightarrow> None)"

lemmas msg_res_defs = rcv_res_def snd_res_def

text \<open>The arguments are C values of their types, and a text copied from the user has the size asked for.\<close>

fun msg_call_ok :: "msg_call \<Rightarrow> bool" where
  "msg_call_ok (MSGRCV msqid msgsz msgtyp flg type_ok text_ok) \<longleftrightarrow> - (2 ^ 31) \<le> msgtyp"
| "msg_call_ok (MSGSND msqid msgsz flg typ tx) \<longleftrightarrow> (\<forall>b. tx = Some b \<longrightarrow> int (length b) = msgsz)"
| "msg_call_ok _ \<longleftrightarrow> True"

text \<open>
  A step is one system call up to its return or first sleep, the next pass of a sleeping
  \<open>msgrcv\<close> or \<open>msgsnd\<close> whose queue still exists, or the end of a wait of \<open>msgsnd\<close> for room by a signal.
  The other ends of a sleep change nothing.
\<close>

inductive msg_step :: "msginfo \<Rightarrow> msg_call \<Rightarrow> (errno + msg_out) option \<Rightarrow> msg_sys \<Rightarrow> msg_sys \<Rightarrow> bool" for info where
  call: "msg_call_ok call \<Longrightarrow> msgsys info pid now cr asu [] call st = Inr (res, asu', st') \<Longrightarrow> msg_step info call res st st'"
| rcv_wake: "msgconv info msqid st = Inr i \<Longrightarrow> 0 \<le> msgsz \<Longrightarrow> - (2 ^ 31) \<le> msgtyp \<Longrightarrow>
    msgrcv_loop info pid now msqid i msgsz msgtyp flg type_ok text_ok [] st = Inr (ret, st') \<Longrightarrow>
    msg_step info (MSGRCV msqid msgsz msgtyp flg type_ok text_ok) (rcv_res ret) st st'"
| snd_wake: "msgconv info msqid st = Inr i \<Longrightarrow> cnt \<le> msgmax info \<Longrightarrow> 1 \<le> t \<Longrightarrow> (\<forall>b. tx = Some b \<longrightarrow> length b = cnt) \<Longrightarrow>
    msgsnd_loop info pid now msqid i t cnt flg tx [] st = Inr (ret, st') \<Longrightarrow>
    msg_step info (MSGSND msqid (int cnt) flg (Some t) tx) (snd_res ret) st st'"
| snd_intr: "i < length (msgque st) \<Longrightarrow> msgsnd_intr info msqid i st = Inr st' \<Longrightarrow>
    msg_step info (MSGSND msqid msgsz flg ty tx) (Some (Inl EINTR)) st st'"

inductive msg_reach :: "msginfo \<Rightarrow> msg_sys \<Rightarrow> bool" where
  load: "msg_init info maxavail None = Inr (Inr st) \<Longrightarrow> msginfo_ok info \<Longrightarrow> 2 + MAP_OVERHEAD \<le> msgmap_ents info \<Longrightarrow> msg_reach info st"
| step: "msg_reach info st \<Longrightarrow> msg_step info call res st st' \<Longrightarrow> msg_reach info st'"

lemma queue_types:
  "msg_wf info st \<Longrightarrow> i < length (msgque st) \<Longrightarrow> \<forall>m \<in> set (msg_q (msgque st ! i)). 1 \<le> msg_type m"
  unfolding msg_wf_def msg_wf0_def msg_ok_def all_msgs_def by auto

lemma view_types: "map fst (msg_view info st i) = map msg_type (msg_q (msgque st ! i))"
  by (simp add: msg_view_def comp_def)

lemma msg_find_selects:
  assumes "msg_wf info st" "i < length (msgque st)" "- (2 ^ 31) \<le> typ" "msg_find typ (msg_q (msgque st ! i)) = Some k"
  shows "selects typ (map fst (msg_view info st i)) k"
proof -
  have "typ \<noteq> - (2 ^ 31)" using assms(4) msg_find_min [OF queue_types [OF assms(1,2)]] by auto
  then show ?thesis using msg_find_Some [OF _ assms(4)] assms(3) by (simp add: view_types)
qed

lemma msgrcv_pass:
  assumes wf: "msg_wf info st" and info: "msginfo_ok info" and conv: "msgconv info msqid st = Inr i"
    and sz: "0 \<le> msgsz" and ty: "- (2 ^ 31) \<le> msgtyp"
  shows "\<exists>ret st'. msgrcv_loop info pid now msqid i msgsz msgtyp flg type_ok text_ok [] st = Inr (ret, st')
    \<and> msg_wf info st' \<and> views_step info (MSGRCV msqid msgsz msgtyp flg type_ok text_ok) (rcv_res ret) st st'"
proof -
  note i = msgconv_index [OF wf info conv]
  obtain out st' where t: "msgrcv_take info pid now i msgsz msgtyp flg type_ok text_ok st = Inr (out, st')" "msg_wf info st'"
    "\<And>j. j \<noteq> i \<Longrightarrow> msg_view info st' j = msg_view info st j"
    "case out of RcvMsg t bs \<Rightarrow> \<exists>k full. msg_find msgtyp (msg_q (msgque st ! i)) = Some k \<and> msg_view info st i ! k = (t, full)
           \<and> bs = take (nat msgsz) full \<and> (int (length full) \<le> msgsz \<or> msg_noerror flg)
           \<and> msg_view info st' i = del_nth k (msg_view info st i)
       | RcvErr e \<Rightarrow> st' = st | RcvWait \<Rightarrow> msg_view info st' i = msg_view info st i"
    using msgrcv_take_ok [OF wf info i sz, of pid now msgtyp flg type_ok text_ok]
    by (elim exE conjE) (simp split: rcv_outcome.splits)
  have all: "msg_view info st' j = msg_view info st j" if "out = RcvWait" for j
    using t(3) [of j] t(4) that by (cases "j = i") simp_all
  show ?thesis
  proof (cases out)
    case (RcvMsg t bs)
    then obtain k full where k: "msg_find msgtyp (msg_q (msgque st ! i)) = Some k" "msg_view info st i ! k = (t, full)"
      "bs = take (nat msgsz) full" "int (length full) \<le> msgsz \<or> msg_noerror flg"
      "msg_view info st' i = del_nth k (msg_view info st i)" using t(4) by auto
    show ?thesis
      using RcvMsg t(1,2,3) conv k(3,5) q_step.recv [OF msg_find_selects [OF wf i ty k(1)] k(2,4)]
      by (simp add: msgrcv_loop.simps views_step_def msg_res_defs)
  qed (use t all in \<open>auto simp: msgrcv_loop.simps views_step_def msg_res_defs\<close>)
qed

lemma msgsnd_pass:
  assumes wf: "msg_wf info st" and info: "msginfo_ok info" and conv: "msgconv info msqid st = Inr i"
    and t: "1 \<le> t" and cnt: "cnt \<le> msgmax info" "\<And>b. tx = Some b \<Longrightarrow> length b = cnt"
  shows "\<exists>ret st'. msgsnd_loop info pid now msqid i t cnt flg tx [] st = Inr (ret, st')
    \<and> msg_wf info st' \<and> views_step info (MSGSND msqid (int cnt) flg (Some t) tx) (snd_res ret) st st'"
proof -
  obtain out st' where p: "msgsnd_put info pid now i t cnt flg tx st = Inr (out, st')" "msg_wf info st'"
    "snd_result info i t cnt flg tx st out st'"
    using msgsnd_put_ok [OF wf info msgconv_index [OF wf info conv] msgconv_Inr(3) [OF conv] t cnt,
        where pid = pid and now = now and msgflg = flg] by blast
  have len: "length (msgque st) = msgmni info" using wf by (simp add: msg_wf_def msg_wf0_def)
  have others: "j < msgmni info \<Longrightarrow> j \<noteq> i \<Longrightarrow> msg_view info st' j = msg_view info st j" for j
    using p(3) len by (simp add: snd_result_def)
  show ?thesis
  proof (cases "out = SndDone")
    case True
    then have "msg_view info st' i = msg_view info st i @ [(t, snd_text cnt tx)]" using p(3) by (simp add: snd_result_def)
    then show ?thesis using True p(1,2) conv others q_step.send [OF t, of msqid "int cnt" flg tx "msg_view info st i"]
      by (simp add: msgsnd_loop.simps views_step_def msg_res_defs)
  next
    case False
    then have "msg_view info st' i = msg_view info st i" using p(3) by (simp add: snd_result_def)
    then have "msg_view info st' j = msg_view info st j" if "j < msgmni info" for j using others that by (cases "j = i") simp_all
    then show ?thesis using False p(1,2) by (cases out) (simp_all add: msgsnd_loop.simps views_step_def msg_res_defs)
  qed
qed

lemma msg_view_upd_q:
  "msg_q (f (msgque st ! i)) = msg_q (msgque st ! i) \<Longrightarrow> msg_view info (upd_q i f st) j = msg_view info st j"
  by (rule msg_view_upd [of _ _ i "f (msgque st ! i)"]) simp_all

lemma msgget_views:
  assumes wf: "msg_wf info st" and call: "msgget info now cr key flg st = (res, st')"
  shows "msg_view info st' j = msg_view info st j"
proof (cases "\<exists>i p. ipcget key flg cr (msg_perms st) = Inr (True, i, p)")
  case False
  then have "st' = st" using call by (auto simp: msgget_def split: sum.splits if_splits)
  then show ?thesis by simp
next
  case True
  then obtain i p where new: "ipcget key flg cr (msg_perms st) = Inr (True, i, p)" by blast
  then have "msg_q (msgque st ! i) = []"
    using ipcget_new(1,2) [OF new] wf by (auto simp: msg_perms_def msg_wf_def msg_wf0_def queue_ok_def)
  then show ?thesis using call new by (auto simp: msgget_def msg_view_upd_q)
qed

lemma msgctl_views:
  assumes wf: "msg_wf info st" and info: "msginfo_ok info" and call: "msgctl info now cr asu msgid cmd st = Inr (res, asu', st')"
  shows "views_step info (MSGCTL msgid cmd) (Some (map_sum id MOutCtl res)) st st'"
proof (cases "cmd = MsgRMID \<and> (\<exists>i. msgconv info msgid st = Inr i)")
  case True
  then obtain i where i: "msgconv info msgid st = Inr i" "cmd = MsgRMID" by blast
  note lt = msgconv_index [OF wf info i(1)]
  show ?thesis
  proof (cases "fst (msg_owner (msg_perm (msgque st ! i)) cr asu)")
    case True
    then obtain qp where r: "msg_txt st' = msg_txt st" "msgque st' = (msgque st)[i := qp]" "msg_q qp = []" "res = Inr MsgZero"
      using msgctl_rmid_ok [OF wf info i(1), of cr asu] call i by (auto simp: msgctl_def)
    then have "msg_view info st' i = []" using lt by (simp add: msg_view_def)
    then show ?thesis using i r(4) msg_view_other [OF r(1,2)] q_step.clear [of msgid "msg_view info st i"]
      by (simp add: views_step_def)
  next
    case False
    then have "st' = st \<and> (\<exists>e. res = Inl e)" using msgctl_rmid_ok [OF wf info i(1), of cr asu] call i by (auto simp: msgctl_def)
    then show ?thesis by (auto simp: views_step_def)
  qed
next
  case False
  have set: "msg_view info (msg_set_perm i uid gid mode qb now st) j = msg_view info st j" for i uid gid mode qb j
    by (simp add: msg_set_perm_def msg_view_upd_q)
  have "msg_view info st' j = msg_view info st j" for j using call False set
    by (auto simp: msgctl_def msgctl_oset_def msgctl_set_def msgctl_ostat_def msgctl_stat_def Let_def
        split: sum.splits msg_cmd.splits option.splits prod.splits if_splits)
  moreover have "q_target (MSGCTL msgid cmd) (Some (map_sum id MOutCtl res)) = None"
    using False call by (cases cmd; cases res) (auto simp: msgctl_def split: sum.splits)
  ultimately show ?thesis by (simp add: views_step_same)
qed

text \<open>
  \<open>msgsnd\<close> enters its loop after the checks, and otherwise returns an error and changes nothing.
\<close>

lemma msgsnd_enters:
  assumes "msg_call_ok (MSGSND msqid msgsz flg ty tx)"
  obtains (loop) i t where "msgconv info msqid st = Inr i" "1 \<le> t" "nat msgsz \<le> msgmax info" "msgsz = int (nat msgsz)" "ty = Some t"
      "\<And>b. tx = Some b \<Longrightarrow> length b = nat msgsz"
      "\<And>sleeps. msgsnd info pid now cr msqid msgsz flg ty tx sleeps st = msgsnd_loop info pid now msqid i t (nat msgsz) flg tx sleeps st"
    | (err) e where "\<And>sleeps. msgsnd info pid now cr msqid msgsz flg ty tx sleeps st = Inr (MsgRet (Inl e), st)"
proof (cases "\<exists>i t. msgconv info msqid st = Inr i \<and> ipcaccess (msg_perm (msgque st ! i)) MSG_W cr = None
      \<and> 0 \<le> msgsz \<and> msgsz \<le> int (msgmax info) \<and> ty = Some t \<and> 1 \<le> t")
  case True
  then obtain i t where "msgconv info msqid st = Inr i" "ipcaccess (msg_perm (msgque st ! i)) MSG_W cr = None"
      "0 \<le> msgsz" "msgsz \<le> int (msgmax info)" "ty = Some t" "1 \<le> t" by blast
  then show ?thesis using assms by (intro loop) (auto simp: msgsnd_def)
next
  case False
  then have "\<exists>e. \<forall>sleeps. msgsnd info pid now cr msqid msgsz flg ty tx sleeps st = Inr (MsgRet (Inl e), st)"
  proof (cases "msgconv info msqid st")
    case (Inr i)
    then show ?thesis using False
      by (cases "ipcaccess (msg_perm (msgque st ! i)) MSG_W cr"; cases ty) (auto simp: msgsnd_def)
  qed (simp add: msgsnd_def)
  then show ?thesis using err by blast
qed

lemma msgrcv_enters:
  obtains (loop) i where "msgconv info msqid st = Inr i" "0 \<le> msgsz"
      "\<And>sleeps. msgrcv info pid now cr msqid msgsz msgtyp flg type_ok text_ok sleeps st
         = msgrcv_loop info pid now msqid i msgsz msgtyp flg type_ok text_ok sleeps st"
    | (err) e where "\<And>sleeps. msgrcv info pid now cr msqid msgsz msgtyp flg type_ok text_ok sleeps st = Inr (MsgRet (Inl e), st)"
proof (cases "\<exists>i. msgconv info msqid st = Inr i \<and> ipcaccess (msg_perm (msgque st ! i)) MSG_R cr = None \<and> 0 \<le> msgsz")
  case True
  then obtain i where "msgconv info msqid st = Inr i" "ipcaccess (msg_perm (msgque st ! i)) MSG_R cr = None" "0 \<le> msgsz" by blast
  then show ?thesis by (intro loop) (auto simp: msgrcv_def)
next
  case False
  then have "\<exists>e. \<forall>sleeps. msgrcv info pid now cr msqid msgsz msgtyp flg type_ok text_ok sleeps st = Inr (MsgRet (Inl e), st)"
  proof (cases "msgconv info msqid st")
    case (Inr i)
    then show ?thesis using False
      by (cases "ipcaccess (msg_perm (msgque st ! i)) MSG_R cr") (auto simp: msgrcv_def)
  qed (simp add: msgrcv_def)
  then show ?thesis using err by blast
qed

lemma msgsys_rcv:
  "msgsys info pid now cr asu sleeps (MSGRCV msqid msgsz msgtyp flg type_ok text_ok) st =
     map_sum id (\<lambda>(ret, st'). (rcv_res ret, asu, st')) (msgrcv info pid now cr msqid msgsz msgtyp flg type_ok text_ok sleeps st)"
  by (auto simp: msgsys_def msg_res_defs split: sum.split msg_ret.split)

lemma msgsys_snd:
  "msgsys info pid now cr asu sleeps (MSGSND msqid msgsz flg ty tx) st =
     map_sum id (\<lambda>(ret, st'). (snd_res ret, asu, st')) (msgsnd info pid now cr msqid msgsz flg ty tx sleeps st)"
  by (auto simp: msgsys_def msg_res_defs split: sum.split msg_ret.split)

lemma msgsys_ok:
  assumes wf: "msg_wf info st" and info: "msginfo_ok info" and call: "msg_call_ok call"
  shows "\<exists>res asu' st'. msgsys info pid now cr asu [] call st = Inr (res, asu', st') \<and> msg_wf info st' \<and> views_step info call res st st'"
proof (cases call)
  case (MSGGET key flg)
  obtain res st' where g: "msgget info now cr key flg st = (res, st')" by fastforce
  then show ?thesis
    using MSGGET msgget_wf [OF wf g] views_step_same [OF _ msgget_views [OF wf g]] by (simp add: msgsys_def)
next
  case (MSGCTL msgid cmd)
  obtain res asu' st' where "msgctl info now cr asu msgid cmd st = Inr (res, asu', st')" "msg_wf info st'"
    using msgctl_wf [OF wf info] by blast
  then show ?thesis using MSGCTL msgctl_views [OF wf info] by (auto simp: msgsys_def)
next
  case (MSGRCV msqid msgsz msgtyp flg type_ok text_ok)
  show ?thesis unfolding MSGRCV msgsys_rcv
  proof (cases rule: msgrcv_enters [of info msqid st msgsz pid now cr msgtyp flg type_ok text_ok])
    case (loop i)
    then show "\<exists>res asu' st'. map_sum id (\<lambda>(ret, st'). (rcv_res ret, asu, st'))
        (msgrcv info pid now cr msqid msgsz msgtyp flg type_ok text_ok [] st) = Inr (res, asu', st') \<and> msg_wf info st'
        \<and> views_step info (MSGRCV msqid msgsz msgtyp flg type_ok text_ok) res st st'"
      using msgrcv_pass [OF wf info loop(1,2), of msgtyp pid now flg type_ok text_ok] call MSGRCV by auto
  qed (use wf in \<open>auto simp: views_step_def msg_res_defs\<close>)
next
  case (MSGSND msqid msgsz flg ty tx)
  show ?thesis unfolding MSGSND msgsys_snd
    using call [unfolded MSGSND]
  proof (cases rule: msgsnd_enters [where info = info and st = st and pid = pid and now = now and cr = cr])
    case (loop i t)
    then show "\<exists>res asu' st'. map_sum id (\<lambda>(ret, st'). (snd_res ret, asu, st'))
        (msgsnd info pid now cr msqid msgsz flg ty tx [] st) = Inr (res, asu', st') \<and> msg_wf info st'
        \<and> views_step info (MSGSND msqid msgsz flg ty tx) res st st'"
      using msgsnd_pass [OF wf info loop(1,2,3,6), where pid = pid and now = now and flg = flg and tx = tx] by auto
  qed (use wf in \<open>auto simp: views_step_def msg_res_defs\<close>)
qed (use wf in \<open>simp add: msgsys_def views_step_def\<close>)

lemma msgsnd_intr_ok:
  assumes wf: "msg_wf info st" and i: "i < length (msgque st)" and intr: "msgsnd_intr info msqid i st = Inr st'"
  shows "msg_wf info st'" "msg_view info st' j = msg_view info st j"
proof -
  have st': "st' = wake (WakeWriters i) (upd_q i (clear_flag MSG_WWAIT) st)"
    using intr by (simp add: msgsnd_intr_def split: sum.splits)
  show "msg_wf info st'" unfolding st'
    by (rule msg_wf_upd [OF wf i, of _ "clear_flag MSG_WWAIT (msgque st ! i)"]) simp_all
  show "msg_view info st' j = msg_view info st j" unfolding st'
    by (rule msg_view_upd [of _ _ i "clear_flag MSG_WWAIT (msgque st ! i)"]) simp_all
qed

lemma msg_step_ok:
  assumes "msg_step info call res st st'" "msg_wf info st" "msginfo_ok info"
  shows "msg_wf info st' \<and> views_step info call res st st'"
  using assms(1)
proof (cases rule: msg_step.cases)
  case (call pid now cr asu asu')
  then show ?thesis using msgsys_ok [OF assms(2,3) call(1), of pid now cr asu] by simp
next
  case (rcv_wake msqid i msgsz msgtyp pid now flg type_ok text_ok ret)
  then show ?thesis
    using msgrcv_pass [OF assms(2,3) rcv_wake(3,4,5), of pid now flg type_ok text_ok] by simp
next
  case (snd_wake msqid i cnt t tx pid now flg ret)
  then show ?thesis
    using msgsnd_pass [OF assms(2,3) snd_wake(3) snd_wake(5,4), where pid = pid and now = now and flg = flg and tx = tx] by simp
next
  case (snd_intr i msqid msgsz flg ty tx)
  then show ?thesis using msgsnd_intr_ok [OF assms(2) snd_intr(3,4)] by (simp add: views_step_def)
qed

lemma msg_init_wf:
  assumes init: "msg_init info maxavail None = Inr (Inr st)" and info: "msginfo_ok info" "2 + MAP_OVERHEAD \<le> msgmap_ents info"
  shows "msg_wf info st"
proof -
  define mp where "mp = \<lparr>mh_free = (if msgseg info \<noteq> 0 then msgmap_ents info - MAP_OVERHEAD - 1 else msgmap_ents info - MAP_OVERHEAD),
     mh_want = 0, mh_nam = ''msgmap'', mh_size = msgmap_ents info - MAP_OVERHEAD,
     mh_map = (if msgseg info \<noteq> 0 then [\<lparr>m_size = msgseg info, m_addr = 1\<rparr>] else [])\<rparr>"
  have st: "st = \<lparr>msgque = replicate (msgmni info) msqid_zero, msgmap = mp, msgfp = [0 ..< msgtql info],
      msg_txt = replicate (int_rnd (msgseg info * msgssz info)) 0, msg_wakes = []\<rparr>"
    using init info(2) by (auto simp: msg_init_def mapinit_def mp_def Let_def split: if_splits)
  have "rmap_wf mp" "rm_space mp \<subseteq> {1 .. msgseg info}"
    using info by (auto simp: mp_def rmap_wf_def rmap_inv_def rm_space_def segs_space_def ent_space_def ent_end_def msginfo_ok_def)
  moreover have e: "msg_q msqid_zero = []" "\<not> ipc_allocd (msg_perm msqid_zero)" "ipc_seq (msg_perm msqid_zero) = 0"
    "msg_qnum msqid_zero = 0" "msg_cbytes msqid_zero = 0"
    by (simp_all add: msqid_zero_def ipc_allocd_def)
  moreover have all: "all_msgs st = []" by (simp add: all_msgs_def st e)
  moreover have "n \<le> int_rnd n" for n by (simp add: int_rnd_def)
  moreover have "keys_distinct (msg_perms st)" using e by (simp add: keys_distinct_def msg_perms_def st)
  moreover have "i < msgmni info \<Longrightarrow> msg_id_ok (msgmni info) 0 i" for i using info(1) by (simp add: msg_id_ok_def msginfo_ok_def)
  ultimately show ?thesis
    by (simp add: msg_wf_def msg_wf0_def pool_ok_def queue_ok_def bytes_ok_def st msg_own_def)
qed

lemma msg_reach_wf: "msg_reach info st \<Longrightarrow> msg_wf info st \<and> msginfo_ok info"
  by (induction rule: msg_reach.induct) (use msg_init_wf msg_step_ok in blast)+

section \<open>Calls that sleep\<close>

text \<open>
  What the other processes do during a sleep: anything that keeps the invariant, such as any
  sequence of steps. After it the sleeper may find its queue removed.
\<close>

definition msg_others :: "msginfo \<Rightarrow> (bool \<times> (msg_sys \<Rightarrow> msg_sys)) list \<Rightarrow> bool" where
  "msg_others info sleeps \<longleftrightarrow> (\<forall>(intr, env) \<in> set sleeps. \<forall>st. msg_wf info st \<longrightarrow> msg_wf info (env st))"

lemma msg_others_Cons [simp]:
  "msg_others info ((intr, env) # sleeps) \<longleftrightarrow> (\<forall>st. msg_wf info st \<longrightarrow> msg_wf info (env st)) \<and> msg_others info sleeps"
  by (simp add: msg_others_def)

lemma not_gone_conv:
  "msgconv info msqid st = Inr i \<Longrightarrow> \<not> msg_gone info msqid i st' \<Longrightarrow> msgconv info msqid st' = Inr i"
  by (auto simp: msgconv_def msg_gone_def Let_def split: if_splits)

lemma msgrcv_loop_safe:
  assumes "msg_wf info st" "msginfo_ok info" "msgconv info msqid st = Inr i" "0 \<le> msgsz" "msg_others info sleeps"
  shows "\<exists>ret st'. msgrcv_loop info pid now msqid i msgsz msgtyp flg type_ok text_ok sleeps st = Inr (ret, st') \<and> msg_wf info st'"
  using assms
proof (induction sleeps arbitrary: st)
  case Nil
  obtain out st1 where "msgrcv_take info pid now i msgsz msgtyp flg type_ok text_ok st = Inr (out, st1)" "msg_wf info st1"
    using msgrcv_take_ok [OF Nil(1,2) msgconv_index [OF Nil(1,2,3)] Nil(4), of pid now msgtyp flg type_ok text_ok] by blast
  then show ?case by (cases out) (simp_all add: msgrcv_loop.simps)
next
  case (Cons s sleeps)
  obtain intr env where s: "s = (intr, env)" by fastforce
  obtain out st1 where t: "msgrcv_take info pid now i msgsz msgtyp flg type_ok text_ok st = Inr (out, st1)" "msg_wf info st1"
    using msgrcv_take_ok [OF Cons(2,3) msgconv_index [OF Cons(2,3,4)] Cons(5), of pid now msgtyp flg type_ok text_ok] by blast
  have "msg_wf info (env st1)" "msg_others info sleeps" using Cons(6) s t(2) by simp_all
  then show ?case using t Cons.IH [of "env st1"] not_gone_conv [OF Cons(4)] Cons(3,5) s
    by (subst msgrcv_loop.simps, cases out) simp_all
qed

text \<open>
  A faulting \<open>msgsnd\<close> was waiting for room on its queue when a signal came and the queue was gone.
\<close>

definition intr_on_removed :: "msginfo \<Rightarrow> int \<Rightarrow> (bool \<times> (msg_sys \<Rightarrow> msg_sys)) list \<Rightarrow> bool" where
  "intr_on_removed info msqid sleeps \<longleftrightarrow>
     (\<exists>env st e. (True, env) \<in> set sleeps \<and> msg_wf info st \<and> msgconv info msqid (env st) = Inl e)"

lemma intr_on_removed_mono: "intr_on_removed info msqid sleeps \<Longrightarrow> intr_on_removed info msqid (s # sleeps)"
  by (auto simp: intr_on_removed_def)

lemma msgsnd_loop_safe:
  assumes "msg_wf info st" "msginfo_ok info" "msgconv info msqid st = Inr i" "1 \<le> t" "cnt \<le> msgmax info"
    "\<And>b. tx = Some b \<Longrightarrow> length b = cnt" "msg_others info sleeps"
  shows "case msgsnd_loop info pid now msqid i t cnt flg tx sleeps st of
      Inr (ret, st') \<Rightarrow> msg_wf info st' | Inl f \<Rightarrow> f = Wild ''qp1'' \<and> intr_on_removed info msqid sleeps"
  using assms
proof (induction sleeps arbitrary: st i)
  case Nil
  show ?case using msgsnd_pass [OF Nil(1-6), where pid = pid and now = now and flg = flg and tx = tx] by auto
next
  case (Cons s sleeps)
  obtain intr env where s: "s = (intr, env)" by fastforce
  obtain out st1 where p: "msgsnd_put info pid now i t cnt flg tx st = Inr (out, st1)" "msg_wf info st1"
    using msgsnd_put_ok [OF Cons(2,3) msgconv_index [OF Cons(2,3,4)] msgconv_Inr(3) [OF Cons(4)] Cons(5,6,7),
        where pid = pid and now = now and msgflg = flg] by blast
  have e: "msg_wf info (env st1)" "msg_others info sleeps" using Cons(8) s p(2) by simp_all
  have again: "case msgsnd_loop info pid now msqid j t cnt flg tx sleeps (env st1) of
      Inr (ret, st') \<Rightarrow> msg_wf info st' | Inl f \<Rightarrow> f = Wild ''qp1'' \<and> intr_on_removed info msqid (s # sleeps)"
    if "msgconv info msqid (env st1) = Inr j" for j
    using Cons.IH [OF e(1) Cons(3) that Cons(5,6) _ e(2)] Cons(7) intr_on_removed_mono [of info msqid sleeps s]
    by (auto split: sum.splits)
  have intr: "case msgsnd_intr info msqid i (env st1) of Inr st3 \<Rightarrow> msg_wf info st3
      | Inl f \<Rightarrow> f = Wild ''qp1'' \<and> intr_on_removed info msqid (s # sleeps)" if intr
  proof (cases "msgsnd_intr info msqid i (env st1)")
    case (Inl f)
    then show ?thesis using s that p(2) by (auto simp: msgsnd_intr_def intr_on_removed_def split: sum.splits)
  next
    case (Inr st3)
    have "i < length (msgque (env st1))"
      using msgconv_index [OF Cons(2,3,4)] e(1) Cons(2) by (simp add: msg_wf_def msg_wf0_def)
    then show ?thesis using msgsnd_intr_ok(1) [OF e(1) _ Inr] Inr by simp
  qed
  show ?case
    using p e(1) again intr not_gone_conv [OF Cons(4)] s
    by (subst msgsnd_loop.simps) (auto simp: Let_def split: snd_outcome.splits sum.splits)
qed

lemma msgsys_safe:
  assumes wf: "msg_wf info st" and info: "msginfo_ok info" and call: "msg_call_ok call" and sleeps: "msg_others info sleeps"
  shows "case msgsys info pid now cr asu sleeps call st of
      Inr (res, asu', st') \<Rightarrow> msg_wf info st'
    | Inl f \<Rightarrow> f = Wild ''qp1'' \<and> (\<exists>msqid msgsz flg ty tx. call = MSGSND msqid msgsz flg ty tx \<and> intr_on_removed info msqid sleeps)"
proof (cases call)
  case (MSGRCV msqid msgsz msgtyp flg type_ok text_ok)
  show ?thesis unfolding MSGRCV msgsys_rcv
    by (cases rule: msgrcv_enters [of info msqid st msgsz pid now cr msgtyp flg type_ok text_ok])
      (use wf msgrcv_loop_safe [OF wf info _ _ sleeps, of msqid _ msgsz pid now msgtyp flg type_ok text_ok] in fastforce)+
next
  case (MSGSND msqid msgsz flg ty tx)
  show ?thesis unfolding MSGSND msgsys_snd
    using call [unfolded MSGSND]
  proof (cases rule: msgsnd_enters [where info = info and st = st and pid = pid and now = now and cr = cr])
    case (loop i t)
    then show "case map_sum id (\<lambda>(ret, st'). (snd_res ret, asu, st')) (msgsnd info pid now cr msqid msgsz flg ty tx sleeps st) of
        Inr (res, asu', st') \<Rightarrow> msg_wf info st'
      | Inl f \<Rightarrow> f = Wild ''qp1'' \<and> (\<exists>msqid' msgsz' flg' ty' tx'.
          MSGSND msqid msgsz flg ty tx = MSGSND msqid' msgsz' flg' ty' tx' \<and> intr_on_removed info msqid' sleeps)"
      using msgsnd_loop_safe [OF wf info loop(1,2,3,6) sleeps, where pid = pid and now = now and flg = flg and tx = tx] by (auto split: sum.splits)
  qed (use wf in simp)
qed (use msgsys_ok [OF wf info call, of pid now cr asu] in \<open>auto simp: msgsys_def split: sum.splits prod.splits\<close>)

text \<open>
  A signal that ends a sleep for room on a queue which has been removed meanwhile: the error
  path unlocks the lock of the queue pointer that the failed conversion did not set.
\<close>

lemma msgsnd_intr_removed:
  assumes "msgsnd_put info pid now i t cnt flg tx st = Inr (SndWaitQ, st1)" "msgconv info msqid (env st1) = Inl e"
  shows "msgsnd_loop info pid now msqid i t cnt flg tx ((True, env) # sleeps) st = Inl (Wild ''qp1'')"
  using assms by (simp add: msgsnd_loop.simps msgsnd_intr_def Let_def)

section \<open>An example\<close>

text \<open>The module just loaded, after \<open>msgget\<close>, and after a message has been sent.\<close>

definition demo_minfo :: msginfo where
  "demo_minfo = \<lparr>msgmap_ents = 8, msgmax = 8, msgmnb = 16, msgmni = 1, msgssz = 4, msgtql = 2, msgseg = 4\<rparr>"

definition demo_mcred :: cred where
  "demo_mcred = crget\<lparr>cr_uid := 7\<rparr>"

definition demo_mperm :: ipc_perm where
  "demo_mperm = \<lparr>ipc_uid = 7, ipc_gid = 0, ipc_cuid = 7, ipc_cgid = 0, ipc_mode = 0x8180, ipc_seq = 0, ipc_key = 42\<rparr>"

definition demo_mboot :: msg_sys where
  "demo_mboot = \<lparr>msgque = [msqid_zero],
     msgmap = \<lparr>mh_free = 1, mh_want = 0, mh_nam = ''msgmap'', mh_size = 2, mh_map = [\<lparr>m_size = 4, m_addr = 1\<rparr>]\<rparr>,
     msgfp = [0, 1], msg_txt = replicate 16 0, msg_wakes = []\<rparr>"

definition demo_mqueue :: msg_sys where
  "demo_mqueue = demo_mboot\<lparr>msgque := [msqid_zero\<lparr>msg_perm := demo_mperm, msg_qbytes := 16, msg_ctime := 100\<rparr>]\<rparr>"

definition demo_msent :: msg_sys where
  "demo_msent = demo_mqueue\<lparr>
     msgque := [msqid_zero\<lparr>msg_perm := demo_mperm, msg_qbytes := 16, msg_ctime := 100, msg_qnum := 1, msg_cbytes := 3,
       msg_lspid := 9, msg_stime := 101, msg_q := [\<lparr>msg_hdr = 0, msg_type = 5, msg_ts = 3, msg_spot = 0\<rparr>]\<rparr>],
     msgmap := \<lparr>mh_free = 1, mh_want = 0, mh_nam = ''msgmap'', mh_size = 2, mh_map = [\<lparr>m_size = 3, m_addr = 2\<rparr>]\<rparr>,
     msgfp := [1], msg_txt := [10, 20, 30] @ replicate 13 0\<rparr>"

lemma demo_minfo_ok: "msginfo_ok demo_minfo"
  by (simp add: demo_minfo_def msginfo_ok_def)

lemma demo_mboot_init: "msg_init demo_minfo 100000 None = Inr (Inr demo_mboot)"
  by (simp add: msg_init_def demo_minfo_def demo_mboot_def msg_memory_def int_rnd_def mapinit_def MAP_OVERHEAD_def upt_rec)

lemma demo_mget: "msgget demo_minfo 100 demo_mcred 42 0x380 demo_mboot = (Inr 0, demo_mqueue)"
  by code_simp

lemma demo_msnd:
  "msgsnd demo_minfo 9 101 demo_mcred 0 3 0 (Some 5) (Some [10, 20, 30]) [] demo_mqueue = Inr (MsgRet (Inr (0, [])), demo_msent)"
  by (simp add: msgsnd_def msgconv_def demo_minfo_def demo_mqueue_def demo_mboot_def demo_msent_def demo_mperm_def demo_mcred_def
      crget_def ipc_allocd_def IPC_ALLOC_def ipcaccess_def MSG_W_def msgsnd_loop.simps msgsnd_put_def msgsnd_hdr_def
      rmalloc_locked_def rmalloc_scan.simps btoq_def pool_write_def msg_enqueue_def rwaiting_def MSG_RWAIT_def upd_q_def msqid_zero_def Let_def)

lemma demo_mreach: "msg_reach demo_minfo demo_mboot" "msg_reach demo_minfo demo_mqueue" "msg_reach demo_minfo demo_msent"
proof -
  show boot: "msg_reach demo_minfo demo_mboot"
    by (rule msg_reach.load [OF demo_mboot_init demo_minfo_ok]) (simp add: demo_minfo_def MAP_OVERHEAD_def)
  have "msgsys demo_minfo 9 100 demo_mcred False [] (MSGGET 42 0x380) demo_mboot = Inr (Some (Inr (MOutInt 0)), False, demo_mqueue)"
    using demo_mget by (simp add: msgsys_def)
  then show queue: "msg_reach demo_minfo demo_mqueue"
    by (rule msg_reach.step [OF boot msg_step.call [rotated]]) simp
  have "msgsys demo_minfo 9 101 demo_mcred False [] (MSGSND 0 3 0 (Some 5) (Some [10, 20, 30])) demo_mqueue
      = Inr (Some (Inr (MOutInt 0)), False, demo_msent)"
    using demo_msnd by (simp add: msgsys_def)
  then show "msg_reach demo_minfo demo_msent"
    by (rule msg_reach.step [OF queue msg_step.call [rotated]]) simp
qed

lemma demo_mviews: "msg_view demo_minfo demo_mqueue 0 = []" "msg_view demo_minfo demo_msent 0 = [(5, [10, 20, 30])]"
  by (simp_all add: msg_view_def msg_text_def pool_read_def demo_minfo_def demo_msent_def demo_mqueue_def msqid_zero_def)

lemma demo_mconv: "msgconv demo_minfo 0 demo_mqueue = Inr 0" "msgconv demo_minfo 0 demo_msent = Inr 0"
  by (simp_all add: msgconv_def demo_minfo_def demo_mqueue_def demo_msent_def demo_mperm_def ipc_allocd_def IPC_ALLOC_def Let_def)

section \<open>Properties\<close>

text \<open>
  C2: In every state the message module can reach from loading with tunables in their ranges, by
  any sequence of steps (a call up to its return or first sleep, a sleeper that goes on, a signal
  that ends a wait for room), its invariant holds: each header is on one queue or on the free
  chain, the texts occupy disjoint ranges apart from the free space of the pool, the counts of
  each queue agree with its messages, keys are unique. And from there no call with arguments
  of their C types panics or uses a wild pointer, whatever happens in its sleeps that keeps the invariant, with one exception: a
  \<open>msgsnd\<close> that a signal wakes after its queue has been removed. A call that returns keeps
  the invariant.
\<close>

theorem msg_reach_safe:
  assumes "msg_reach info st"
  shows "msg_wf info st \<and> (\<forall>pid now cr asu sleeps call. msg_call_ok call \<and> msg_others info sleeps \<longrightarrow>
    (case msgsys info pid now cr asu sleeps call st of
       Inr (res, asu', st') \<Rightarrow> msg_wf info st'
     | Inl f \<Rightarrow> f = Wild ''qp1'' \<and> (\<exists>msqid msgsz flg ty tx. call = MSGSND msqid msgsz flg ty tx \<and> intr_on_removed info msqid sleeps)))"
  using msg_reach_wf [OF assms] msgsys_safe by blast

theorem msg_reach_safe_witness:
  "msg_wf demo_minfo demo_msent \<and> (\<exists>res asu' st'.
     msgsys demo_minfo 1 102 demo_mcred False [(True, \<lambda>st. st)] (MSGRCV 0 8 9 0 True True) demo_msent = Inr (res, asu', st')
     \<and> msg_wf demo_minfo st')"
proof -
  have "msg_call_ok (MSGRCV 0 8 9 0 True True) \<and> msg_others demo_minfo [(True, \<lambda>st. st)]" by (simp add: msg_others_def)
  note r = msg_reach_safe [OF demo_mreach(3), THEN conjunct2, rule_format, OF this, of 1 102 demo_mcred False]
  have "msg_wf demo_minfo demo_msent" using msg_reach_safe [OF demo_mreach(3)] by (rule conjunct1)
  then show ?thesis using r by (auto split: sum.splits)
qed

text \<open>
  C11: The module implements abstract queues. In every step, of a system call or of a sleeper that
  goes on, a successful \<open>msgsnd\<close> appends exactly its type and text to the queue of its identifier; a
  successful \<open>msgrcv\<close> takes from the queue of its identifier the message that its type argument selects
  and returns it; a successful \<open>IPC_RMID\<close> empties the queue of its identifier; the other queues
  keep their types and texts, and every other call and every failure leaves all queues alone.
\<close>

theorem msg_step_refines:
  assumes "msg_reach info st" and "msg_step info call res st st'"
  shows "case q_target call res of
      None \<Rightarrow> \<forall>j < msgmni info. msg_view info st' j = msg_view info st j
    | Some msqid \<Rightarrow> \<exists>i. msgconv info msqid st = Inr i \<and> q_step call res (msg_view info st i) (msg_view info st' i)
        \<and> (\<forall>j < msgmni info. j \<noteq> i \<longrightarrow> msg_view info st' j = msg_view info st j)"
  using msg_reach_wf [OF assms(1)] msg_step_ok [OF assms(2)] unfolding views_step_def by blast

theorem msg_step_refines_witness:
  "q_step (MSGSND 0 3 0 (Some 5) (Some [10, 20, 30])) (Some (Inr (MOutInt 0)))
     (msg_view demo_minfo demo_mqueue 0) (msg_view demo_minfo demo_msent 0)"
proof -
  have "msgsys demo_minfo 9 101 demo_mcred False [] (MSGSND 0 3 0 (Some 5) (Some [10, 20, 30])) demo_mqueue
      = Inr (Some (Inr (MOutInt 0)), False, demo_msent)"
    using demo_msnd by (simp add: msgsys_def)
  then have "msg_step demo_minfo (MSGSND 0 3 0 (Some 5) (Some [10, 20, 30])) (Some (Inr (MOutInt 0))) demo_mqueue demo_msent"
    by (rule msg_step.call [rotated]) simp
  from msg_step_refines [OF demo_mreach(2) this] show ?thesis by (simp add: demo_mconv)
qed

text \<open>
  C20: A \<open>msgrcv\<close> that returns a message returns the one its type argument selects: the first on
  the queue for 0, the first of that type for a positive argument, and the first of the lowest type
  up to its absolute value for a negative one. It returns the type and the text as sent, cut
  to the size asked for only under \<open>MSG_NOERROR\<close>, and exactly this message leaves the queue.
\<close>

theorem msgrcv_selects:
  assumes reach: "msg_reach info st" and ty: "- (2 ^ 31) \<le> msgtyp" and conv: "msgconv info msqid st = Inr i"
    and call: "msgrcv info pid now cr msqid msgsz msgtyp flg type_ok text_ok [] st = Inr (MsgRet (Inr (t, bs)), st')"
  shows "\<exists>k full. selects msgtyp (map fst (msg_view info st i)) k \<and> msg_view info st i ! k = (t, full)
    \<and> bs = take (nat msgsz) full \<and> (int (length full) \<le> msgsz \<or> msg_noerror flg)
    \<and> msg_view info st' i = del_nth k (msg_view info st i)
    \<and> (\<forall>j. j \<noteq> i \<longrightarrow> msg_view info st' j = msg_view info st j)"
proof -
  have wf: "msg_wf info st" "msginfo_ok info" using msg_reach_wf [OF reach] by simp_all
  note i = msgconv_index [OF wf conv]
  have loop: "0 \<le> msgsz" "msgrcv_loop info pid now msqid i msgsz msgtyp flg type_ok text_ok [] st = Inr (MsgRet (Inr (t, bs)), st')"
    using call conv by (auto simp: msgrcv_def split: option.splits if_splits)
  obtain out st1 where r: "msgrcv_take info pid now i msgsz msgtyp flg type_ok text_ok st = Inr (out, st1)"
    "\<forall>j. j \<noteq> i \<longrightarrow> msg_view info st1 j = msg_view info st j"
    "\<And>t bs. out = RcvMsg t bs \<Longrightarrow> \<exists>k full. msg_find msgtyp (msg_q (msgque st ! i)) = Some k \<and> msg_view info st i ! k = (t, full)
           \<and> bs = take (nat msgsz) full \<and> (int (length full) \<le> msgsz \<or> msg_noerror flg)
           \<and> msg_view info st1 i = del_nth k (msg_view info st i)"
    using msgrcv_take_ok [OF wf i loop(1), of pid now msgtyp flg type_ok text_ok] by (elim exE conjE) (simp split: rcv_outcome.splits)
  then have "out = RcvMsg t bs" "st1 = st'" using loop(2) by (auto simp: msgrcv_loop.simps split: rcv_outcome.splits)
  then show ?thesis using r(2,3) msg_find_selects [OF wf(1) i ty] by metis
qed

lemma demo_mrcv:
  "\<exists>st'. msgrcv demo_minfo 9 102 demo_mcred 0 8 (- 7) 0 True True [] demo_msent = Inr (MsgRet (Inr (5, [10, 20, 30])), st')"
  by (simp add: msgrcv_def demo_mconv) (simp add: msgrcv_loop.simps msgrcv_take_def msg_find_def msgfree_def pool_read_def
      demo_minfo_def demo_mqueue_def demo_mboot_def demo_msent_def demo_mperm_def demo_mcred_def
      crget_def ipcaccess_def MSG_R_def upd_q_def msqid_zero_def Let_def wwaiting_def MSG_WWAIT_def btoq_def
      rmfree_def rmfree_among_def ssize_pos_def rmfree_retry.simps)

theorem msgrcv_selects_witness:
  "\<exists>st'. msgrcv demo_minfo 9 102 demo_mcred 0 8 (- 7) 0 True True [] demo_msent = Inr (MsgRet (Inr (5, [10, 20, 30])), st')
     \<and> msg_view demo_minfo st' 0 = []"
proof -
  obtain st' where st': "msgrcv demo_minfo 9 102 demo_mcred 0 8 (- 7) 0 True True [] demo_msent = Inr (MsgRet (Inr (5, [10, 20, 30])), st')"
    using demo_mrcv by blast
  have "- (2 ^ 31) \<le> (- 7 :: int)" by simp
  from msgrcv_selects [OF demo_mreach(3) this demo_mconv(2) st'] show ?thesis
    using st' by (auto simp: demo_mviews selects_def del_nth_def)
qed

text \<open>
  C21: A \<open>msgsnd\<close> that succeeds had a positive type and a size within the limit, and appends exactly
  that type and text to the queue, using up one header. One that fails or goes to sleep has
  changed no queue's contents and holds no header. In both cases the other queues keep their
  contents.
\<close>

theorem msgsnd_outcome:
  assumes reach: "msg_reach info st" and conv: "msgconv info msqid st = Inr i"
    and len: "\<forall>b. tx = Some b \<longrightarrow> int (length b) = msgsz"
    and call: "msgsnd info pid now cr msqid msgsz flg ty tx [] st = Inr (ret, st')"
  shows "(\<forall>j < msgmni info. j \<noteq> i \<longrightarrow> msg_view info st' j = msg_view info st j)
    \<and> (if \<exists>r. ret = MsgRet (Inr r)
       then \<exists>t. ty = Some t \<and> 1 \<le> t \<and> 0 \<le> msgsz \<and> msgsz \<le> int (msgmax info)
         \<and> msg_view info st' i = msg_view info st i @ [(t, snd_text (nat msgsz) tx)] \<and> msgfp st = hd (msgfp st) # msgfp st'
       else msg_view info st' i = msg_view info st i \<and> msgfp st' = msgfp st)"
proof -
  have wf: "msg_wf info st" "msginfo_ok info" using msg_reach_wf [OF reach] by simp_all
  note i = msgconv_index [OF wf conv]
  consider e where "ret = MsgRet (Inl e)" "st' = st"
    | t where "ty = Some t" "1 \<le> t" "0 \<le> msgsz" "msgsz \<le> int (msgmax info)"
        "msgsnd_loop info pid now msqid i t (nat msgsz) flg tx [] st = Inr (ret, st')"
    using call conv by (auto simp: msgsnd_def split: option.splits if_splits)
  then show ?thesis
  proof cases
    case 1
    then show ?thesis by simp
  next
    case 2
    have "nat msgsz \<le> msgmax info" "\<And>b. tx = Some b \<Longrightarrow> length b = nat msgsz" using 2(3,4) len by auto
    then obtain out st1 where p: "msgsnd_put info pid now i t (nat msgsz) flg tx st = Inr (out, st1)"
      "snd_result info i t (nat msgsz) flg tx st out st1"
      using msgsnd_put_ok [OF wf i msgconv_Inr(3) [OF conv] 2(2)] by metis
    moreover have "length (msgque st) = msgmni info" using wf(1) by (simp add: msg_wf_def msg_wf0_def)
    ultimately show ?thesis
      using 2 by (cases out) (auto simp: msgsnd_loop.simps snd_result_def)
  qed
qed

theorem msgsnd_outcome_witness: "msg_view demo_minfo demo_msent 0 = msg_view demo_minfo demo_mqueue 0 @ [(5, [10, 20, 30])]"
  using msgsnd_outcome [OF demo_mreach(2) demo_mconv(1) _ demo_msnd] by (simp add: snd_text_def)



end
