(* ===== verification/Page_Lock.thy ===== *)
theory Page_Lock
  imports Kernel_Prelude
begin

text \<open>
  Page locks, \<^verbatim>\<open>vm/page_lock.c\<close> with the lock macros of \<^verbatim>\<open>vm/page.h\<close>, and \<^verbatim>\<open>page_reclaim\<close> of
  \<^verbatim>\<open>vm/vm_page.c\<close>, which \<open>page_lock\<close> calls for a page on the free list.

  The state is one page, the counter \<open>t_kpri_req\<close> of the thread that runs, the pools that count
  free pages, and two logs: \<open>p_bcast\<close> of broadcasts on the page's condition variable, \<open>p_iosig\<close> of
  signals on its i/o condition variable. The mutexes around the fields are not modelled: each
  operation is one atomic step, except where it waits; what other threads do during a wait is
  an argument. Left out of \<open>page_reclaim\<close> are the unlinking from the list it names, the hardware's
  reference bit and statistics.
\<close>

section \<open>Data\<close>

datatype se_t = SE_SHARED | SE_EXCL

datatype reclaim_t = P_RECLAIM | P_NO_RECLAIM

datatype page_list = PG_FREE_LIST | PG_CACHE_LIST

record pcf =
  pcf_touch :: bool
  pcf_count :: nat
  pcf_wait :: nat

record page =
  p_vnode :: "32 word option"
  p_selock :: int
  p_iolock_state :: "8 word"
  p_state :: "8 word"
  t_kpri_req :: int
  p_bcast :: nat
  p_iosig :: nat
  vm_pcf :: "pcf list"
  freemem :: int
  freemem_wait :: nat
  p_unlinked :: "page_list list"

definition PAGE_IO_INUSE :: "8 word" where "PAGE_IO_INUSE = 0x1"
definition P_FREE :: "8 word" where "P_FREE = 0x80"

definition PP_ISFREE :: "page \<Rightarrow> bool" where
  "PP_ISFREE pp \<longleftrightarrow> p_state pp AND P_FREE \<noteq> 0"

definition PP_ISAGED :: "page \<Rightarrow> bool" where
  "PP_ISAGED pp \<longleftrightarrow> p_state pp AND P_FREE \<noteq> 0 \<and> p_vnode pp = None"

definition PP_CLRFREE :: "page \<Rightarrow> page" where
  "PP_CLRFREE pp = pp\<lparr>p_state := p_state pp AND NOT P_FREE\<rparr>"

definition THREAD_KPRI_REQUEST :: "page \<Rightarrow> page" where
  "THREAD_KPRI_REQUEST pp = pp\<lparr>t_kpri_req := t_kpri_req pp + 1\<rparr>"

definition THREAD_KPRI_RELEASE :: "page \<Rightarrow> page" where
  "THREAD_KPRI_RELEASE pp = pp\<lparr>t_kpri_req := t_kpri_req pp - 1\<rparr>"

definition cv_broadcast :: "page \<Rightarrow> page" where
  "cv_broadcast pp = pp\<lparr>p_bcast := p_bcast pp + 1\<rparr>"

section \<open>The shared/exclusive lock\<close>

definition se_init :: "page \<Rightarrow> page" where
  "se_init pp = pp\<lparr>p_selock := 0\<rparr>"

definition se_trylock :: "se_t \<Rightarrow> page \<Rightarrow> bool \<times> page" where
  "se_trylock se pp =
     (if se = SE_EXCL then
        (if p_selock pp = 0 then (True, (THREAD_KPRI_REQUEST pp)\<lparr>p_selock := - 1\<rparr>) else (False, pp))
      else
        (if p_selock pp \<ge> 0 then (True, pp\<lparr>p_selock := s32 (p_selock pp + 1)\<rparr>) else (False, pp)))"

definition page_trylock :: "se_t \<Rightarrow> page \<Rightarrow> bool \<times> page" where
  "page_trylock se pp = se_trylock se pp"

definition page_try_reclaim_lock :: "se_t \<Rightarrow> page \<Rightarrow> bool \<times> page" where
  "page_try_reclaim_lock se pp = se_trylock (if se = SE_SHARED \<and> PP_ISFREE pp then SE_EXCL else se) pp"

definition page_unlock :: "page \<Rightarrow> page kres" where
  "page_unlock pp =
     (let se = p_selock pp in
      if se = 0 then Inl (Panic ''page_unlock: page is not locked'')
      else if se < 0 then Inr (cv_broadcast ((THREAD_KPRI_RELEASE pp)\<lparr>p_selock := 0\<rparr>))
      else
        let pp' = pp\<lparr>p_selock := se - 1\<rparr> in
        Inr (if p_selock pp' = 0 then cv_broadcast pp' else pp'))"

definition page_tryupgrade :: "page \<Rightarrow> bool \<times> page" where
  "page_tryupgrade pp = (if p_selock pp = 1 then (True, pp\<lparr>p_selock := - 1\<rparr>) else (False, pp))"

definition page_downgrade :: "page \<Rightarrow> page" where
  "page_downgrade pp = cv_broadcast (pp\<lparr>p_selock := 1\<rparr>)"

section \<open>Reclaiming a free page\<close>

definition pcf_acquire_all :: "pcf list \<Rightarrow> pcf list" where
  "pcf_acquire_all ps = map (\<lambda>p. p\<lparr>pcf_touch := True\<rparr>) ps"

text \<open>The search for a pool with a page in it.\<close>

fun pcf_scan :: "pcf list \<Rightarrow> bool \<times> pcf list" where
  "pcf_scan [] = (False, [])"
| "pcf_scan (p # ps) =
     (let p1 = p\<lparr>pcf_touch := True\<rparr> in
      if pcf_count p1 \<ge> 1 then (True, p1\<lparr>pcf_count := pcf_count p1 - 1\<rparr> # ps)
      else let (ok, ps') = pcf_scan ps in (ok, p1 # ps'))"

text \<open>
  \<open>throttled\<close> is the outcome of the test of \<^verbatim>\<open>freemem\<close> against \<^verbatim>\<open>throttlefree\<close> and of
  \<^verbatim>\<open>page_create_throttle\<close>; \<open>k\<close> is the pool of the processor; \<open>env\<close> is what happens while the
  thread waits for memory.
\<close>

definition page_reclaim_nomem :: "(page \<Rightarrow> page) \<Rightarrow> page \<Rightarrow> (bool \<times> page) kres" where
  "page_reclaim_nomem env pp =
     (case page_unlock pp of
        Inl f \<Rightarrow> Inl f
      | Inr pp1 \<Rightarrow>
          let pp2 = env (pp1\<lparr>vm_pcf := map (\<lambda>p. p\<lparr>pcf_wait := pcf_wait p + 1\<rparr>) (vm_pcf pp1),
                            freemem_wait := freemem_wait pp1 + 1\<rparr>)
          in Inr (False, pp2\<lparr>freemem_wait := freemem_wait pp2 - 1\<rparr>))"

definition page_reclaim_take :: "page \<Rightarrow> page" where
  "page_reclaim_take pp =
     PP_CLRFREE (pp\<lparr>freemem := freemem pp - 1,
                    p_unlinked := (if PP_ISAGED pp then PG_FREE_LIST else PG_CACHE_LIST) # p_unlinked pp\<rparr>)"

definition page_reclaim :: "bool \<Rightarrow> nat \<Rightarrow> (page \<Rightarrow> page) \<Rightarrow> page \<Rightarrow> (bool \<times> page) kres" where
  "page_reclaim throttled k env pp =
     (if throttled then page_reclaim_nomem env (pp\<lparr>vm_pcf := pcf_acquire_all (vm_pcf pp)\<rparr>)
      else
        let p = (vm_pcf pp ! k)\<lparr>pcf_touch := True\<rparr> in
        if pcf_count p \<ge> 1 then
          Inr (True, page_reclaim_take (pp\<lparr>vm_pcf := (vm_pcf pp)[k := p\<lparr>pcf_count := pcf_count p - 1\<rparr>]\<rparr>))
        else
          let (enough, ps) = pcf_scan ((vm_pcf pp)[k := p]); pp1 = pp\<lparr>vm_pcf := ps\<rparr> in
          if enough then Inr (True, page_reclaim_take pp1)
          else page_reclaim_nomem env pp1)"

text \<open>
  \<open>page_lock\<close>: \<open>env\<close> is what happens while the thread sleeps for the page, after which the call
  fails. The last component says in which mode it wanted the lock when it had to sleep.
\<close>

definition page_lock ::
  "se_t \<Rightarrow> reclaim_t \<Rightarrow> bool \<Rightarrow> nat \<Rightarrow> (page \<Rightarrow> page) \<Rightarrow> page \<Rightarrow> (bool \<times> se_t option \<times> page) kres"
where
  "page_lock se reclaim throttled k env pp =
     (let reclaim_it = (reclaim = P_RECLAIM \<and> PP_ISFREE pp);
          upgraded = (reclaim_it \<and> se = SE_SHARED);
          se = (if upgraded then SE_EXCL else se);
          (got, pp1) = se_trylock se pp
      in
        if \<not> got then Inr (False, Some se, env pp1)
        else if \<not> reclaim_it then Inr (True, None, pp1)
        else
          case page_reclaim throttled k env pp1 of
            Inl f \<Rightarrow> Inl f
          | Inr (False, pp2) \<Rightarrow> Inr (False, None, pp2)
          | Inr (True, pp2) \<Rightarrow> Inr (True, None, if upgraded then page_downgrade pp2 else pp2))"

section \<open>The i/o lock\<close>

definition page_iolock_init :: "page \<Rightarrow> page" where
  "page_iolock_init pp = pp\<lparr>p_iolock_state := 0\<rparr>"

definition io_inuse :: "page \<Rightarrow> bool" where
  "io_inuse pp \<longleftrightarrow> p_iolock_state pp AND PAGE_IO_INUSE \<noteq> 0"

definition io_take :: "page \<Rightarrow> page" where
  "io_take pp = pp\<lparr>p_iolock_state := p_iolock_state pp OR PAGE_IO_INUSE\<rparr>"

text \<open>Each element of the list is what happens during one wait; the result is whether the lock is held at the end.\<close>

fun page_io_lock :: "(page \<Rightarrow> page) list \<Rightarrow> page \<Rightarrow> bool \<times> page" where
  "page_io_lock waits pp =
     (if io_inuse pp then
        (case waits of [] \<Rightarrow> (False, pp) | env # waits' \<Rightarrow> page_io_lock waits' (env pp))
      else (True, io_take pp))"

declare page_io_lock.simps [simp del]

definition page_io_unlock :: "page \<Rightarrow> page" where
  "page_io_unlock pp = pp\<lparr>p_iosig := p_iosig pp + 1, p_iolock_state := p_iolock_state pp AND NOT PAGE_IO_INUSE\<rparr>"

text \<open>The state is tested once without and once with the mutex; \<open>env\<close> is what happens between.\<close>

definition page_io_trylock :: "(page \<Rightarrow> page) \<Rightarrow> page \<Rightarrow> bool \<times> page" where
  "page_io_trylock env pp =
     (if io_inuse pp then (False, pp)
      else let pp1 = env pp in if io_inuse pp1 then (False, pp1) else (True, io_take pp1))"

definition page_iolock_assert :: "page \<Rightarrow> bool" where
  "page_iolock_assert pp \<longleftrightarrow> p_iolock_state pp AND PAGE_IO_INUSE \<noteq> 0"

section \<open>Which mutex protects what\<close>

text \<open>
  Indices into the arrays of mutexes, computed from addresses. \<open>vps\<close> is \<^verbatim>\<open>VP_SHIFT\<close>, 7 or 9 by
  the number of processors.
\<close>

definition PSE_SHIFT :: nat where "PSE_SHIFT = 6"
definition PSE_TABLE_SIZE :: "32 word" where "PSE_TABLE_SIZE = 32"
definition PIO_SHIFT :: nat where "PIO_SHIFT = PSE_SHIFT"
definition PIO_TABLE_SIZE :: "32 word" where "PIO_TABLE_SIZE = PSE_TABLE_SIZE"

definition VP_SHIFT :: "nat \<Rightarrow> nat" where
  "VP_SHIFT ncpu = (if ncpu < 4 then 7 else 9)"

definition PAGE_SE_MUTEX :: "32 word \<Rightarrow> 32 word" where
  "PAGE_SE_MUTEX pp = drop_bit PSE_SHIFT pp AND (PSE_TABLE_SIZE - 1)"

definition PAGE_IO_MUTEX :: "32 word \<Rightarrow> 32 word" where
  "PAGE_IO_MUTEX pp = drop_bit PIO_SHIFT pp AND (PIO_TABLE_SIZE - 1)"

definition page_se_mutex :: "32 word \<Rightarrow> 32 word" where
  "page_se_mutex pp = drop_bit PSE_SHIFT pp AND (PSE_TABLE_SIZE - 1)"

definition VPH_TABLE_SIZE :: "nat \<Rightarrow> 32 word" where
  "VPH_TABLE_SIZE ncpu = push_bit (VP_SHIFT ncpu) 2"

definition VP_HASH_FUNC :: "nat \<Rightarrow> 32 word \<Rightarrow> 32 word" where
  "VP_HASH_FUNC ncpu vp =
     (drop_bit 6 vp + drop_bit 10 vp + drop_bit 10 vp + drop_bit 12 vp) AND (VPH_TABLE_SIZE ncpu - 1)"

definition page_vnode_mutex :: "nat \<Rightarrow> 32 word \<Rightarrow> 32 word \<Rightarrow> 32 word" where
  "page_vnode_mutex ncpu kvp vp = (if vp = kvp then VPH_TABLE_SIZE ncpu + 0 else VP_HASH_FUNC ncpu vp)"

section \<open>Threads and the lock\<close>

text \<open>
  A page with the threads that hold its lock and those that sleep for it, each with its mode. A
  broadcast wakes every sleeper.
\<close>

type_synonym pl_state = "page \<times> (nat \<times> se_t) list \<times> (nat \<times> se_t) list"

definition woken :: "page \<Rightarrow> page \<Rightarrow> (nat \<times> se_t) list \<Rightarrow> (nat \<times> se_t) list" where
  "woken pp pp' ws = (if p_bcast pp' = p_bcast pp then ws else [])"

inductive pl_step :: "pl_state \<Rightarrow> pl_state \<Rightarrow> bool" where
  lock: "t \<notin> fst ` set hs \<Longrightarrow> length hs + 2 < 2 ^ 31 \<Longrightarrow>
    page_lock se reclaim throttled k id pp = Inr (True, m, pp') \<Longrightarrow>
    pl_step (pp, hs, ws) (pp', (t, se) # hs, woken pp pp' ws)"
| sleep: "page_lock se reclaim throttled k id pp = Inr (False, Some m, pp') \<Longrightarrow>
    pl_step (pp, hs, ws) (pp', hs, (t, m) # ws)"
| nomem: "page_lock se reclaim throttled k id pp = Inr (False, None, pp') \<Longrightarrow>
    pl_step (pp, hs, ws) (pp', hs, woken pp pp' ws)"
| trylock: "t \<notin> fst ` set hs \<Longrightarrow> length hs + 2 < 2 ^ 31 \<Longrightarrow> page_trylock se pp = (True, pp') \<Longrightarrow>
    pl_step (pp, hs, ws) (pp', (t, se) # hs, ws)"
| try_reclaim: "t \<notin> fst ` set hs \<Longrightarrow> length hs + 2 < 2 ^ 31 \<Longrightarrow> page_try_reclaim_lock se pp = (True, pp') \<Longrightarrow>
    pl_step (pp, hs, ws) (pp', (t, if se = SE_SHARED \<and> PP_ISFREE pp then SE_EXCL else se) # hs, ws)"
| unlock: "(t, se) \<in> set hs \<Longrightarrow> page_unlock pp = Inr pp' \<Longrightarrow>
    pl_step (pp, hs, ws) (pp', remove1 (t, se) hs, woken pp pp' ws)"
| upgrade: "(t, SE_SHARED) \<in> set hs \<Longrightarrow> page_tryupgrade pp = (True, pp') \<Longrightarrow>
    pl_step (pp, hs, ws) (pp', (t, SE_EXCL) # remove1 (t, SE_SHARED) hs, ws)"
| downgrade: "(t, SE_EXCL) \<in> set hs \<Longrightarrow>
    pl_step (pp, hs, ws) (page_downgrade pp, (t, SE_SHARED) # remove1 (t, SE_EXCL) hs, woken pp (page_downgrade pp) ws)"
| other: "p_selock pp' = p_selock pp \<Longrightarrow> p_bcast pp' = p_bcast pp \<Longrightarrow> pl_step (pp, hs, ws) (pp', hs, ws)"

inductive pl_reach :: "pl_state \<Rightarrow> bool" where
  init: "pl_reach (se_init pp, [], [])"
| step: "pl_reach s \<Longrightarrow> pl_step s s' \<Longrightarrow> pl_reach s'"

definition held_ok :: "page \<Rightarrow> (nat \<times> se_t) list \<Rightarrow> bool" where
  "held_ok pp hs \<longleftrightarrow> distinct (map fst hs) \<and> length hs + 1 < 2 ^ 31
     \<and> ((\<exists>t. hs = [(t, SE_EXCL)]) \<and> p_selock pp = - 1 \<or> (\<forall>h \<in> set hs. snd h = SE_SHARED) \<and> p_selock pp = int (length hs))"

definition blocked :: "se_t \<Rightarrow> page \<Rightarrow> bool" where
  "blocked se pp \<longleftrightarrow> (if se = SE_EXCL then p_selock pp \<noteq> 0 else p_selock pp < 0)"

definition pl_inv :: "pl_state \<Rightarrow> bool" where
  "pl_inv s = (case s of (pp, hs, ws) \<Rightarrow> held_ok pp hs \<and> (\<forall>w \<in> set ws. blocked (snd w) pp))"

lemma se_trylock_blocked: "fst (se_trylock se pp) \<longleftrightarrow> \<not> blocked se pp"
  by (cases se) (simp_all add: se_trylock_def blocked_def)

text \<open>Taking the lock, by whatever call.\<close>

lemma held_ok_take:
  assumes "held_ok pp hs" "t \<notin> fst ` set hs" "length hs + 2 < 2 ^ 31" "\<not> blocked se pp"
    "p_selock pp' = (if se = SE_EXCL then - 1 else p_selock pp + 1)"
  shows "held_ok pp' ((t, se) # hs)"
  using assms by (cases se) (auto simp: held_ok_def blocked_def)

lemma blocked_take:
  assumes "\<not> blocked se pp" "p_selock pp' = (if se = SE_EXCL then - 1 else p_selock pp + 1)" "blocked m pp"
  shows "blocked m pp'"
  using assms by (cases se; cases m) (auto simp: blocked_def)

lemma se_trylock_selock:
  assumes "se_trylock se pp = (True, pp')" "held_ok pp hs"
  shows "\<not> blocked se pp" "p_selock pp' = (if se = SE_EXCL then - 1 else p_selock pp + 1)" "p_bcast pp' = p_bcast pp"
proof -
  have "p_selock pp + 1 < 2 ^ 31" using assms(2) by (auto simp: held_ok_def)
  then show "\<not> blocked se pp" "p_selock pp' = (if se = SE_EXCL then - 1 else p_selock pp + 1)" "p_bcast pp' = p_bcast pp"
    using assms(1) se_trylock_blocked [of se pp]
    by (auto simp: se_trylock_def THREAD_KPRI_REQUEST_def split: if_splits)
qed

lemma held_ok_drop:
  assumes "held_ok pp hs" "(t, se) \<in> set hs" "page_unlock pp = Inr pp'"
  shows "held_ok pp' (remove1 (t, se) hs)" "p_bcast pp' = p_bcast pp \<Longrightarrow> 1 < p_selock pp \<and> p_selock pp' = p_selock pp - 1"
proof -
  have l: "0 < length hs" using assms(2) by auto
  then have "length hs = Suc (length (remove1 (t, se) hs))" using assms(2) by (simp add: length_remove1)
  then have l2: "int (length (remove1 (t, se) hs)) = int (length hs) - 1" by simp
  have l3: "1 < length hs \<or> length hs = 1" using l by linarith
  have d: "distinct (map fst (remove1 (t, se) hs))" using assms(1) by (auto simp: held_ok_def distinct_map distinct_remove1 inj_on_def dest: notin_set_remove1)
  show "held_ok pp' (remove1 (t, se) hs)"
    using assms l l2 d by (auto simp: held_ok_def page_unlock_def cv_broadcast_def THREAD_KPRI_RELEASE_def Let_def split: if_splits dest: notin_set_remove1)
  show "1 < p_selock pp \<and> p_selock pp' = p_selock pp - 1" if "p_bcast pp' = p_bcast pp"
    using assms that l l3 by (auto simp: held_ok_def page_unlock_def cv_broadcast_def THREAD_KPRI_RELEASE_def Let_def split: if_splits)
qed

lemma page_reclaim_take_fields [simp]:
  "p_selock (page_reclaim_take pp) = p_selock pp" "p_bcast (page_reclaim_take pp) = p_bcast pp"
  "t_kpri_req (page_reclaim_take pp) = t_kpri_req pp" "vm_pcf (page_reclaim_take pp) = vm_pcf pp"
  "freemem (page_reclaim_take pp) = freemem pp - 1"
  by (simp_all add: page_reclaim_take_def PP_CLRFREE_def)

lemma page_reclaim_cases:
  assumes "p_selock pp = - 1" "page_reclaim throttled k env pp = Inr (ok, pp')"
  obtains (taken) ps where "ok" "pp' = page_reclaim_take (pp\<lparr>vm_pcf := ps\<rparr>)"
  | (nomem) ps pp2 where "\<not> ok" "pp2 = env ((cv_broadcast ((THREAD_KPRI_RELEASE pp)\<lparr>p_selock := 0\<rparr>))\<lparr>vm_pcf := ps, freemem_wait := freemem_wait pp + 1\<rparr>)"
      "pp' = pp2\<lparr>freemem_wait := freemem_wait pp2 - 1\<rparr>"
proof -
  have n: "page_reclaim_nomem env (pp\<lparr>vm_pcf := ps\<rparr>) =
      (let pp2 = env ((cv_broadcast ((THREAD_KPRI_RELEASE pp)\<lparr>p_selock := 0\<rparr>))\<lparr>vm_pcf := map (\<lambda>p. p\<lparr>pcf_wait := pcf_wait p + 1\<rparr>) ps,
          freemem_wait := freemem_wait pp + 1\<rparr>) in Inr (False, pp2\<lparr>freemem_wait := freemem_wait pp2 - 1\<rparr>))" for ps
    using assms(1) by (simp add: page_reclaim_nomem_def page_unlock_def cv_broadcast_def THREAD_KPRI_RELEASE_def Let_def)
  show thesis
    using assms(2) taken nomem unfolding page_reclaim_def
    by (auto simp: Let_def n split: if_splits prod.splits)
qed

lemma page_lock_outcome:
  assumes lock: "page_lock se reclaim throttled k id pp = Inr (ok, m, pp')" and held: "held_ok pp hs"
  shows "ok \<Longrightarrow> \<not> blocked se pp \<and> p_selock pp' = (if se = SE_EXCL then - 1 else p_selock pp + 1)"
    "m = Some w \<Longrightarrow> \<not> ok \<and> blocked w pp \<and> pp' = pp"
    "\<not> ok \<Longrightarrow> m = None \<Longrightarrow> p_selock pp' = 0 \<and> p_selock pp = 0 \<and> p_bcast pp' \<noteq> p_bcast pp"
proof -
  define free where "free \<longleftrightarrow> reclaim = P_RECLAIM \<and> PP_ISFREE pp"
  define se' where "se' = (if free \<and> se = SE_SHARED then SE_EXCL else se)"
  obtain got pp1 where tr: "se_trylock se' pp = (got, pp1)" by fastforce
  have l: "page_lock se reclaim throttled k id pp =
     (if \<not> got then Inr (False, Some se', pp1) else if \<not> free then Inr (True, None, pp1)
      else case page_reclaim throttled k id pp1 of Inl f \<Rightarrow> Inl f | Inr (False, pp2) \<Rightarrow> Inr (False, None, pp2)
        | Inr (True, pp2) \<Rightarrow> Inr (True, None, if free \<and> se = SE_SHARED then page_downgrade pp2 else pp2))"
    using tr unfolding page_lock_def free_def se'_def by (simp add: Let_def)
  have "(ok \<longrightarrow> \<not> blocked se pp \<and> p_selock pp' = (if se = SE_EXCL then - 1 else p_selock pp + 1))
      \<and> (m = Some w \<longrightarrow> \<not> ok \<and> blocked w pp \<and> pp' = pp)
      \<and> (\<not> ok \<longrightarrow> m = None \<longrightarrow> p_selock pp' = 0 \<and> p_selock pp = 0 \<and> p_bcast pp' \<noteq> p_bcast pp)"
  proof (cases got)
    case False
    then show ?thesis using lock l tr se_trylock_blocked [of se' pp] by (auto simp: se_trylock_def split: if_splits)
  next
    case True
    then have t: "\<not> blocked se' pp" "p_selock pp1 = (if se' = SE_EXCL then - 1 else p_selock pp + 1)" "p_bcast pp1 = p_bcast pp"
      using se_trylock_selock [of se' pp pp1, OF _ held] tr by simp_all
    show ?thesis
    proof (cases free)
      case False
      then show ?thesis using lock l True t by (auto simp: se'_def)
    next
      case True
      then have ex: "se' = SE_EXCL" "p_selock pp1 = - 1" "p_selock pp = 0" using t by (cases se; simp add: se'_def blocked_def)+
      obtain r pp2 where r: "page_reclaim throttled k id pp1 = Inr (r, pp2)"
        using lock l \<open>got\<close> True by (auto split: sum.splits)
      from ex(2) r show ?thesis
      proof (cases rule: page_reclaim_cases)
        case taken
        then show ?thesis using lock l r True \<open>got\<close> ex by (cases se) (auto simp: blocked_def page_downgrade_def cv_broadcast_def)
      next
        case nomem
        then show ?thesis using lock l r True \<open>got\<close> ex t(3) by (auto simp: cv_broadcast_def THREAD_KPRI_RELEASE_def)
      qed
    qed
  qed
  then show "ok \<Longrightarrow> \<not> blocked se pp \<and> p_selock pp' = (if se = SE_EXCL then - 1 else p_selock pp + 1)"
    "m = Some w \<Longrightarrow> \<not> ok \<and> blocked w pp \<and> pp' = pp"
    "\<not> ok \<Longrightarrow> m = None \<Longrightarrow> p_selock pp' = 0 \<and> p_selock pp = 0 \<and> p_bcast pp' \<noteq> p_bcast pp"
    by blast+
qed

lemma pl_inv_take:
  assumes "pl_inv (pp, hs, ws)" "t \<notin> fst ` set hs" "length hs + 2 < 2 ^ 31" "\<not> blocked se pp"
    "p_selock pp' = (if se = SE_EXCL then - 1 else p_selock pp + 1)" "set ws' \<subseteq> set ws"
  shows "pl_inv (pp', (t, se) # hs, ws')"
  using assms(1,6) held_ok_take [OF _ assms(2-5)] blocked_take [OF assms(4,5)] by (auto simp: pl_inv_def)

lemma pl_inv_step:
  assumes step: "pl_step s s'" and inv: "pl_inv s"
  shows "pl_inv s'"
  using step
proof (cases rule: pl_step.cases)
  case (lock t hs se reclaim throttled k pp m pp' ws)
  have h: "held_ok pp hs" using inv lock(1) by (simp add: pl_inv_def)
  show ?thesis unfolding lock(2)
    using page_lock_outcome(1) [OF lock(5) h] by (intro pl_inv_take [OF inv [unfolded lock(1)] lock(3,4)]) (auto simp: woken_def)
next
  case (sleep se reclaim throttled k pp m pp' hs ws t)
  have h: "held_ok pp hs" using inv sleep(1) by (simp add: pl_inv_def)
  show ?thesis using inv sleep page_lock_outcome(2) [OF sleep(3) h] by (simp add: pl_inv_def)
next
  case (nomem se reclaim throttled k pp pp' hs ws)
  have h: "held_ok pp hs" using inv nomem(1) by (simp add: pl_inv_def)
  show ?thesis using inv nomem page_lock_outcome(3) [OF nomem(3) h] by (simp add: pl_inv_def held_ok_def woken_def)
next
  case (trylock t hs se pp pp' ws)
  have h: "held_ok pp hs" using inv trylock(1) by (simp add: pl_inv_def)
  show ?thesis unfolding trylock(2)
    using se_trylock_selock [OF trylock(5) [unfolded page_trylock_def] h]
    by (intro pl_inv_take [OF inv [unfolded trylock(1)] trylock(3,4)]) simp_all
next
  case (try_reclaim t hs se pp pp' ws)
  have h: "held_ok pp hs" using inv try_reclaim(1) by (simp add: pl_inv_def)
  show ?thesis unfolding try_reclaim(2)
    using se_trylock_selock [OF try_reclaim(5) [unfolded page_try_reclaim_lock_def] h]
    by (intro pl_inv_take [OF inv [unfolded try_reclaim(1)] try_reclaim(3,4)]) simp_all
next
  case (unlock t se hs pp pp' ws)
  have h: "held_ok pp hs" "\<forall>w \<in> set ws. blocked (snd w) pp" using inv unlock(1) by (simp_all add: pl_inv_def)
  note d = held_ok_drop [OF h(1) unlock(3,4)]
  have "blocked m pp'" if "p_bcast pp' = p_bcast pp" "blocked m pp" for m
    using d(2) [OF that(1)] that(2) by (cases m) (auto simp: blocked_def)
  then show ?thesis using unlock d(1) h(2) by (simp add: pl_inv_def woken_def)
next
  case (upgrade t hs pp pp' ws)
  have h: "held_ok pp hs" "\<forall>w \<in> set ws. blocked (snd w) pp" using inv upgrade(1) by (simp_all add: pl_inv_def)
  have one: "p_selock pp = 1" "p_selock pp' = - 1" using upgrade(4) by (auto simp: page_tryupgrade_def split: if_splits)
  then have "length hs = 1" using h(1) by (auto simp: held_ok_def)
  then have "hs = [(t, SE_SHARED)]" using upgrade(3) by (cases hs) auto
  then show ?thesis using upgrade h(2) one by (auto simp: pl_inv_def held_ok_def blocked_def)
next
  case (downgrade t hs pp ws)
  have "held_ok pp hs" using inv downgrade(1) by (simp add: pl_inv_def)
  then have "hs = [(t, SE_EXCL)]" using downgrade(3) by (auto simp: held_ok_def)
  then show ?thesis using downgrade by (simp add: pl_inv_def held_ok_def woken_def page_downgrade_def cv_broadcast_def)
next
  case (other pp' pp hs ws)
  then show ?thesis using inv by (simp add: pl_inv_def held_ok_def blocked_def)
qed

lemma pl_reach_inv: "pl_reach s \<Longrightarrow> pl_inv s"
proof (induction rule: pl_reach.induct)
  case (init pp)
  then show ?case by (simp add: pl_inv_def held_ok_def se_init_def)
qed (rule pl_inv_step)

text \<open>The pools.\<close>

lemma pcf_scan_sum:
  "pcf_scan ps = (ok, ps') \<Longrightarrow> length ps' = length ps
     \<and> (if ok then sum_list (map pcf_count ps) = Suc (sum_list (map pcf_count ps'))
        else sum_list (map pcf_count ps) = 0 \<and> sum_list (map pcf_count ps') = 0)"
proof (induction ps arbitrary: ok ps')
  case (Cons p ps)
  show ?case
  proof (cases "pcf_count p \<ge> 1")
    case True
    then show ?thesis using Cons.prems by (auto simp: Let_def)
  next
    case False
    obtain ok1 ps1 where r: "pcf_scan ps = (ok1, ps1)" by fastforce
    then show ?thesis using Cons.prems Cons.IH [OF r] False by (auto simp: Let_def split: if_splits)
  qed
qed simp

lemma sum_update_pred:
  "k < length ps \<Longrightarrow> 1 \<le> pcf_count (ps ! k) \<Longrightarrow> pcf_count p + 1 = pcf_count (ps ! k) \<Longrightarrow>
   sum_list (map pcf_count ps) = Suc (sum_list (map pcf_count (ps[k := p])))"
  by (induction ps arbitrary: k) (auto simp: nth_Cons split: nat.splits)

lemma sum_update_same:
  "k < length ps \<Longrightarrow> pcf_count p = pcf_count (ps ! k) \<Longrightarrow> sum_list (map pcf_count (ps[k := p])) = sum_list (map pcf_count ps)"
  by (induction ps arbitrary: k) (auto simp: nth_Cons split: nat.splits)

lemma page_reclaim_ok:
  assumes k: "k < length (vm_pcf pp)" and r: "page_reclaim throttled k env pp = Inr (True, pp')" and x: "p_selock pp = - 1"
  shows "\<exists>ps. pp' = page_reclaim_take (pp\<lparr>vm_pcf := ps\<rparr>) \<and> \<not> throttled
    \<and> sum_list (map pcf_count (vm_pcf pp)) = Suc (sum_list (map pcf_count ps))"
proof -
  have no: "page_reclaim_nomem env q \<noteq> Inr (True, pp')" for q by (auto simp: page_reclaim_nomem_def Let_def split: sum.splits)
  define p where "p = (vm_pcf pp ! k)\<lparr>pcf_touch := True\<rparr>"
  have c: "pcf_count p = pcf_count (vm_pcf pp ! k)" by (simp add: p_def)
  show ?thesis
  proof (cases "pcf_count p \<ge> 1")
    case True
    then show ?thesis using r no k sum_update_pred [of k "vm_pcf pp" "p\<lparr>pcf_count := pcf_count p - 1\<rparr>"] c
      unfolding page_reclaim_def p_def [symmetric] by (auto simp: Let_def split: if_splits)
  next
    case False
    obtain ok ps where sc: "pcf_scan ((vm_pcf pp)[k := p]) = (ok, ps)" by fastforce
    then show ?thesis using r no k False pcf_scan_sum [OF sc] sum_update_same [OF k c]
      unfolding page_reclaim_def p_def [symmetric] by (auto simp: Let_def split: if_splits)
  qed
qed

section \<open>Properties\<close>

text \<open>
  C5: The lock excludes. Whatever calls threads make, a thread that holds a page exclusively is
  the only one that holds it, the lock word is -1 exactly then and otherwise the number of threads
  that share the page, and releasing the page by a thread that holds it never panics.
\<close>

theorem page_lock_excludes:
  assumes "pl_reach (pp, hs, ws)"
  shows "((t, SE_EXCL) \<in> set hs \<longrightarrow> hs = [(t, SE_EXCL)])
    \<and> p_selock pp = (if \<exists>t. (t, SE_EXCL) \<in> set hs then - 1 else int (length hs))
    \<and> (hs \<noteq> [] \<longrightarrow> (\<exists>pp'. page_unlock pp = Inr pp'))"
  using pl_reach_inv [OF assms] by (auto simp: pl_inv_def held_ok_def page_unlock_def Let_def)

definition demo_page :: page where
  "demo_page = \<lparr>p_vnode = Some 0x1000, p_selock = 0, p_iolock_state = 0, p_state = 0x80, t_kpri_req = 0, p_bcast = 0, p_iosig = 0,
     vm_pcf = [\<lparr>pcf_touch = False, pcf_count = 0, pcf_wait = 0\<rparr>, \<lparr>pcf_touch = False, pcf_count = 5, pcf_wait = 0\<rparr>],
     freemem = 5, freemem_wait = 0, p_unlinked = []\<rparr>"

definition demo_held :: page where
  "demo_held = demo_page\<lparr>p_selock := - 1, t_kpri_req := 1\<rparr>"

lemma demo_held_reach: "pl_reach (demo_held, [(1, SE_EXCL)], [(2, SE_SHARED)])"
proof -
  have 0: "pl_reach (demo_page, [], [])" using pl_reach.init [of demo_page] by (simp add: se_init_def demo_page_def)
  have "page_trylock SE_EXCL demo_page = (True, demo_held)"
    by (simp add: page_trylock_def se_trylock_def THREAD_KPRI_REQUEST_def demo_page_def demo_held_def)
  then have 1: "pl_reach (demo_held, [(1, SE_EXCL)], [])"
    by (intro pl_reach.step [OF 0] pl_step.trylock) simp_all
  have "page_lock SE_SHARED P_NO_RECLAIM False 0 id demo_held = Inr (False, Some SE_SHARED, demo_held)"
    by (simp add: page_lock_def se_trylock_def demo_held_def)
  then show ?thesis by (rule pl_reach.step [OF 1 pl_step.sleep])
qed

theorem page_lock_excludes_witness: "p_selock demo_held = - 1 \<and> (\<exists>pp'. page_unlock demo_held = Inr pp')"
  using page_lock_excludes [OF demo_held_reach, of 1] by (auto simp: demo_held_def)

text \<open>
  C6: No wakeup is lost. A thread asleep for a page is asleep because the lock could not be had in
  the mode it wants even now; so when nobody holds the page any more, nobody is left asleep for it.
\<close>

theorem page_lock_no_lost_wakeup:
  assumes "pl_reach (pp, hs, ws)"
  shows "((t, se) \<in> set ws \<longrightarrow> \<not> fst (page_trylock se pp)) \<and> (hs = [] \<longrightarrow> ws = [])"
proof -
  have b: "blocked (snd w) pp" if "w \<in> set ws" for w using pl_reach_inv [OF assms] that by (auto simp: pl_inv_def)
  moreover have "\<not> blocked m pp" if "hs = []" for m
    using pl_reach_inv [OF assms] that by (cases m) (auto simp: pl_inv_def held_ok_def blocked_def)
  ultimately have "hs = [] \<Longrightarrow> ws = []" by (cases ws) auto
  then show ?thesis using b [of "(t, se)"] by (auto simp: page_trylock_def se_trylock_blocked)
qed

theorem page_lock_no_lost_wakeup_witness: "\<not> fst (page_trylock SE_SHARED demo_held)"
  using page_lock_no_lost_wakeup [OF demo_held_reach, of 2 SE_SHARED] by simp

text \<open>
  C35: A \<open>page_lock\<close> with \<open>P_RECLAIM\<close> of a free page that succeeds returns the page in the mode asked
  for, no longer free, found it unlocked, and has taken exactly one page out of the pools and
  one off \<open>freemem\<close>.
\<close>

theorem page_lock_reclaims:
  assumes lock: "page_lock se P_RECLAIM throttled k env pp = Inr (True, m, pp')"
    and free: "PP_ISFREE pp" and k: "k < length (vm_pcf pp)"
  shows "p_selock pp = 0 \<and> p_selock pp' = (if se = SE_EXCL then - 1 else 1) \<and> \<not> PP_ISFREE pp'
    \<and> freemem pp' = freemem pp - 1
    \<and> sum_list (map pcf_count (vm_pcf pp)) = Suc (sum_list (map pcf_count (vm_pcf pp')))"
proof -
  define pp1 where "pp1 = (THREAD_KPRI_REQUEST pp)\<lparr>p_selock := - 1\<rparr>"
  have x: "p_selock pp1 = - 1" "vm_pcf pp1 = vm_pcf pp" "freemem pp1 = freemem pp" by (simp_all add: pp1_def THREAD_KPRI_REQUEST_def)
  have z: "p_selock pp = 0" using lock free by (cases se) (auto simp: page_lock_def se_trylock_def split: if_splits)
  then obtain pp2 where r: "page_reclaim throttled k env pp1 = Inr (True, pp2)" "pp' = (if se = SE_SHARED then page_downgrade pp2 else pp2)"
    using lock free unfolding pp1_def by (cases se) (auto simp: page_lock_def se_trylock_def split: sum.splits bool.splits)
  obtain ps where ps: "pp2 = page_reclaim_take (pp1\<lparr>vm_pcf := ps\<rparr>)"
    "sum_list (map pcf_count (vm_pcf pp)) = Suc (sum_list (map pcf_count ps))"
    using page_reclaim_ok [OF _ r(1) x(1)] k x(2) by auto
  have "\<not> PP_ISFREE pp2" by (simp add: ps(1) PP_ISFREE_def page_reclaim_take_def PP_CLRFREE_def P_FREE_def and.assoc)
  then show ?thesis using z r(2) ps x
    by (cases se) (simp_all add: page_downgrade_def cv_broadcast_def PP_ISFREE_def)
qed

lemma demo_reclaim:
  "\<exists>pp'. page_lock SE_SHARED P_RECLAIM False 0 id demo_page = Inr (True, None, pp')"
  by (simp add: page_lock_def PP_ISFREE_def P_FREE_def se_trylock_def THREAD_KPRI_REQUEST_def page_reclaim_def demo_page_def Let_def)

theorem page_lock_reclaims_witness:
  "\<exists>pp'. page_lock SE_SHARED P_RECLAIM False 0 id demo_page = Inr (True, None, pp') \<and> p_selock pp' = 1 \<and> freemem pp' = 4"
proof -
  obtain pp' where r: "page_lock SE_SHARED P_RECLAIM False 0 id demo_page = Inr (True, None, pp')" using demo_reclaim by blast
  have "PP_ISFREE demo_page" "0 < length (vm_pcf demo_page)" by (simp_all add: PP_ISFREE_def P_FREE_def demo_page_def)
  from page_lock_reclaims [OF r this] show ?thesis using r by (simp add: demo_page_def)
qed

text \<open>
  C40: The mutex computed for a page or a vnode is always one of its array, and the kernel's own
  vnode has a mutex that it shares with no other vnode.
\<close>

theorem page_mutex_index:
  "page_se_mutex pp < PSE_TABLE_SIZE \<and> PAGE_SE_MUTEX pp = page_se_mutex pp \<and> PAGE_IO_MUTEX pp < PIO_TABLE_SIZE
   \<and> unat (page_vnode_mutex ncpu kvp vp) < unat (VPH_TABLE_SIZE ncpu) + 2
   \<and> (page_vnode_mutex ncpu kvp vp = page_vnode_mutex ncpu kvp kvp \<longleftrightarrow> vp = kvp)"
proof -
  have m: "x AND (n - 1) < n" if "n \<noteq> 0" for x n :: "32 word"
  proof -
    have "x AND (n - 1) \<le> n - 1" by (rule word_and_le1)
    also have "n - 1 < n" using that by (rule measure_unat [THEN word_less_nat_alt [THEN iffD2]])
    finally show ?thesis .
  qed
  have "VPH_TABLE_SIZE ncpu = 0x100 \<or> VPH_TABLE_SIZE ncpu = 0x400" by (simp add: VPH_TABLE_SIZE_def VP_SHIFT_def push_bit_eq_mult)
  then have "VPH_TABLE_SIZE ncpu \<noteq> 0" by auto
  then have h: "VP_HASH_FUNC ncpu vp < VPH_TABLE_SIZE ncpu" unfolding VP_HASH_FUNC_def by (rule m)
  then have "unat (VP_HASH_FUNC ncpu vp) < unat (VPH_TABLE_SIZE ncpu)" by (simp add: word_less_nat_alt)
  moreover have "PSE_TABLE_SIZE \<noteq> 0" by (simp add: PSE_TABLE_SIZE_def)
  ultimately show ?thesis using m h
    by (auto simp: page_vnode_mutex_def page_se_mutex_def PAGE_SE_MUTEX_def PAGE_IO_MUTEX_def PIO_TABLE_SIZE_def)
qed

section \<open>Unbalanced priority requests\<close>

text \<open>
  An exclusive lock raises the thread's \<open>t_kpri_req\<close> and its release lowers it again, but neither
  \<open>page_tryupgrade\<close> nor \<open>page_downgrade\<close> changes it: a thread that gets its exclusive lock by an
  upgrade and releases it ends one too low, one that downgrades first ends one too high.
\<close>

lemma upgrade_unbalanced:
  assumes "p_selock pp = 0"
  shows "\<exists>pp1 pp2 pp3. page_trylock SE_SHARED pp = (True, pp1) \<and> page_tryupgrade pp1 = (True, pp2)
    \<and> page_unlock pp2 = Inr pp3 \<and> p_selock pp3 = 0 \<and> t_kpri_req pp3 = t_kpri_req pp - 1"
  using assms by (simp add: page_trylock_def se_trylock_def page_tryupgrade_def page_unlock_def cv_broadcast_def THREAD_KPRI_RELEASE_def)

lemma downgrade_unbalanced:
  assumes "p_selock pp = 0"
  shows "\<exists>pp1 pp3. page_trylock SE_EXCL pp = (True, pp1)
    \<and> page_unlock (page_downgrade pp1) = Inr pp3 \<and> p_selock pp3 = 0 \<and> t_kpri_req pp3 = t_kpri_req pp + 1"
  using assms by (simp add: page_trylock_def se_trylock_def page_downgrade_def page_unlock_def cv_broadcast_def THREAD_KPRI_REQUEST_def)

text \<open>The i/o lock: taken only when free, and free after its release.\<close>

lemma io_inuse_bit: "io_inuse pp \<longleftrightarrow> bit (p_iolock_state pp) 0"
  by (simp add: io_inuse_def PAGE_IO_INUSE_def and_one_eq odd_iff_mod_2_eq_one bit_0)

lemma page_io_lock_takes:
  "page_io_lock waits pp = (True, pp') \<Longrightarrow> \<exists>pp0. \<not> io_inuse pp0 \<and> pp' = io_take pp0 \<and> io_inuse pp'"
proof (induction waits arbitrary: pp)
  case Nil
  then show ?case by (subst (asm) page_io_lock.simps) (auto simp: io_inuse_bit io_take_def bit_or_iff PAGE_IO_INUSE_def split: if_splits)
next
  case (Cons env waits)
  then show ?case
    by (subst (asm) (2) page_io_lock.simps) (auto simp: io_inuse_bit io_take_def bit_or_iff PAGE_IO_INUSE_def split: if_splits)
qed

lemma page_io_unlock_frees: "\<not> io_inuse (page_io_unlock pp)"
  by (simp add: io_inuse_bit page_io_unlock_def PAGE_IO_INUSE_def bit_and_iff bit_not_iff)

end
