(* ===== verification/Strq.thy ===== *)
theory Strq
  imports Kernel_Prelude
begin

text \<open>
  STREAMS message queues, the queue routines of \<^verbatim>\<open>io/stream.c\<close>: data and operations.

  A queue is the list of its messages from \<^verbatim>\<open>q_first\<close> to \<^verbatim>\<open>q_last\<close>. A message has an identity \<open>b_id\<close>
  (its address), and the pointers \<^verbatim>\<open>qb_first\<close> and \<^verbatim>\<open>qb_last\<close> of a band are identities. \<open>b_sizes\<close> has
  the number of bytes of each block of the message. Following a null or stale pointer is a fault.
  The list of bands is \<open>q_bandp\<close>, band \<open>b\<close> at position \<open>b - 1\<close>; how many more bands memory can be
  found for is an argument. Calls that leave the queue (putting it on the run list, enabling the
  queue behind it, waking a writer) are logged in \<open>q_events\<close>, most recent first.

  Each operation is a function of the queue. \<open>putq\<close>, \<open>putbq\<close>, \<open>insq\<close>, \<open>canput\<close> and \<open>bcanput\<close> run under the lock
  of the queue throughout. \<open>getq\<close> and \<open>rmvq\<close> drop it between taking the message (\<open>getq_noenab\<close>,
  \<open>rmvq_noenab\<close>) and \<open>qbackenable\<close>; \<open>flushq\<close>, and \<open>flushband\<close> of band 0, drop it after
  taking all messages (\<open>q_empty\<close>), between the calls of \<open>putq\<close> and before the end (\<open>flushq_end\<close>,
  \<open>flushband_end\<close>); \<open>flushband\<close> of another band drops it in \<open>rmvq\<close>, and \<open>strqset\<close> of a packet size
  drops it to take that of the stream head's queue. As functions these are the executions without
  interference; their parts are operations of their own.
\<close>

section \<open>Data\<close>

record mblk =
  b_id :: nat
  b_type :: nat
  b_band :: nat
  b_flag :: "16 word"
  b_sizes :: "nat list"

record qband =
  qb_count :: nat
  qb_first :: "nat option"
  qb_last :: "nat option"
  qb_hiwat :: nat
  qb_lowat :: nat
  qb_flag :: "32 word"

datatype q_event = QRun | BackEnable nat | StrWake

record queue =
  q_list :: "mblk list"
  q_count :: nat
  q_flag :: "32 word"
  q_hiwat :: nat
  q_lowat :: nat
  q_minpsz :: int
  q_maxpsz :: int
  q_struiot :: int
  q_bandp :: "qband list"
  q_nband :: nat
  q_srvp :: bool
  sd_qn_minpsz :: int
  sd_qn_maxpsz :: int
  q_events :: "q_event list"

definition QENAB :: "32 word" where "QENAB = 0x1"
definition QWANTR :: "32 word" where "QWANTR = 0x2"
definition QWANTW :: "32 word" where "QWANTW = 0x4"
definition QFULL :: "32 word" where "QFULL = 0x8"
definition QNOENB :: "32 word" where "QNOENB = 0x40"
definition QINSERVICE :: "32 word" where "QINSERVICE = 0x10000"
definition QWCLOSE :: "32 word" where "QWCLOSE = 0x20000"
definition QWANTWSYNC :: "32 word" where "QWANTWSYNC = 0x80000"
definition QB_FULL :: "32 word" where "QB_FULL = 0x1"
definition QB_WANTW :: "32 word" where "QB_WANTW = 0x2"
definition MSGNOGET :: "16 word" where "MSGNOGET = 0x8"
definition M_DATA :: nat where "M_DATA = 0x00"
definition M_PROTO :: nat where "M_PROTO = 0x01"
definition M_DELAY :: nat where "M_DELAY = 0x0c"
definition M_PCPROTO :: nat where "M_PCPROTO = 0x83"
definition QNORM :: nat where "QNORM = 0x00"
definition QPCTL :: nat where "QPCTL = 0x80"

definition qf :: "queue \<Rightarrow> 32 word \<Rightarrow> bool" where
  "qf q f \<longleftrightarrow> q_flag q AND f \<noteq> 0"

definition q_set :: "32 word \<Rightarrow> queue \<Rightarrow> queue" where
  "q_set f q = q\<lparr>q_flag := q_flag q OR f\<rparr>"

definition q_clr :: "32 word \<Rightarrow> queue \<Rightarrow> queue" where
  "q_clr f q = q\<lparr>q_flag := q_flag q AND NOT f\<rparr>"

definition qbf :: "qband \<Rightarrow> 32 word \<Rightarrow> bool" where
  "qbf qb f \<longleftrightarrow> qb_flag qb AND f \<noteq> 0"

definition upd_band :: "nat \<Rightarrow> (qband \<Rightarrow> qband) \<Rightarrow> queue \<Rightarrow> queue" where
  "upd_band b f q = q\<lparr>q_bandp := (q_bandp q)[b - 1 := f (q_bandp q ! (b - 1))]\<rparr>"

definition q_log :: "q_event \<Rightarrow> queue \<Rightarrow> queue" where
  "q_log e q = q\<lparr>q_events := e # q_events q\<rparr>"

definition queclass :: "mblk \<Rightarrow> nat" where
  "queclass bp = (if b_type bp \<ge> QPCTL then QPCTL else QNORM)"

definition datamsg :: "nat \<Rightarrow> bool" where
  "datamsg t \<longleftrightarrow> t = M_DATA \<or> t = M_PROTO \<or> t = M_PCPROTO \<or> t = M_DELAY"

definition canenable :: "queue \<Rightarrow> bool" where
  "canenable q \<longleftrightarrow> \<not> qf q QNOENB"

text \<open>The loops over the blocks of a message.\<close>

definition count_add :: "nat \<Rightarrow> mblk \<Rightarrow> nat" where
  "count_add n bp = foldl uadd n (b_sizes bp)"

definition count_sub :: "nat \<Rightarrow> mblk \<Rightarrow> nat" where
  "count_sub n bp = foldl usub n (b_sizes bp)"

text \<open>A message by its address: what is before it, the message, what is after it.\<close>

fun split_id :: "nat \<Rightarrow> mblk list \<Rightarrow> (mblk list \<times> mblk \<times> mblk list) option" where
  "split_id i [] = None"
| "split_id i (m # ms) =
     (if b_id m = i then Some ([], m, ms)
      else case split_id i ms of None \<Rightarrow> None | Some (pre, x, post) \<Rightarrow> Some (m # pre, x, post))"

section \<open>Enabling\<close>

definition qenable_locked :: "queue \<Rightarrow> queue" where
  "qenable_locked q =
     (if \<not> q_srvp q then q
      else if qf q (QWCLOSE OR QENAB) then q
      else
        let q1 = q_set QENAB q in
        if qf q1 QINSERVICE then q1 else q_log QRun q1)"

definition noenable :: "queue \<Rightarrow> queue" where
  "noenable q = q_set QNOENB q"

definition enableok :: "queue \<Rightarrow> queue" where
  "enableok q = q_clr QNOENB q"

definition qsize :: "queue \<Rightarrow> nat" where
  "qsize q = length (q_list q)"

section \<open>Taking messages off\<close>

text \<open>The byte counts after a message of a band has left, and the flag that says the band is full.\<close>

definition q_uncount :: "mblk \<Rightarrow> queue \<Rightarrow> queue" where
  "q_uncount mp q =
     (if b_band mp = 0 then
        (let q1 = q\<lparr>q_count := count_sub (q_count q) mp\<rparr> in
         if q_count q1 < q_hiwat q1 then q_clr QFULL q1 else q1)
      else
        upd_band (b_band mp)
          (\<lambda>qb. let qb1 = qb\<lparr>qb_count := count_sub (qb_count qb) mp\<rparr> in
                if qb_count qb1 < qb_hiwat qb1 then qb1\<lparr>qb_flag := qb_flag qb1 AND NOT QB_FULL\<rparr> else qb1) q)"

text \<open>The pointers of a band when the message \<open>mp\<close> leaves, between what is before and what is after it.\<close>

definition rmvq_band :: "mblk list \<Rightarrow> mblk \<Rightarrow> mblk list \<Rightarrow> qband \<Rightarrow> qband" where
  "rmvq_band pre mp post qb =
     (let qb1 = (if qb_first qb = Some (b_id mp)
                 then qb\<lparr>qb_first := (if post \<noteq> [] \<and> b_band mp = b_band (hd post) then Some (b_id (hd post)) else None)\<rparr>
                 else qb)
      in if qb_last qb1 = Some (b_id mp)
         then qb1\<lparr>qb_last := (if pre \<noteq> [] \<and> b_band mp = b_band (last pre) then Some (b_id (last pre)) else None)\<rparr>
         else qb1)"

definition rmvq_noenab :: "nat \<Rightarrow> queue \<Rightarrow> queue kres" where
  "rmvq_noenab i q =
     (case split_id i (q_list q) of
        None \<Rightarrow> Inl (Wild ''rmvq'')
      | Some (pre, mp, post) \<Rightarrow>
          let q1 = (if b_band mp \<noteq> 0 then upd_band (b_band mp) (rmvq_band pre mp post) q else q)
          in Inr (q_uncount mp (q1\<lparr>q_list := pre @ post\<rparr>)))"

text \<open>The pointers of a band when its first message leaves, which is the first of the queue.\<close>

definition getq_band :: "mblk list \<Rightarrow> qband \<Rightarrow> qband" where
  "getq_band rest qb =
     (if qb_first qb = qb_last qb then qb\<lparr>qb_first := None, qb_last := None\<rparr>
      else qb\<lparr>qb_first := (case rest of [] \<Rightarrow> None | m # _ \<Rightarrow> Some (b_id m))\<rparr>)"

definition getq_noenab :: "queue \<Rightarrow> (mblk option \<times> queue) kres" where
  "getq_noenab q =
     (case q_list q of
        [] \<Rightarrow> Inr (None, q_set QWANTR q)
      | bp # rest \<Rightarrow>
          if b_flag bp AND MSGNOGET \<noteq> 0 then
            (case dropWhile (\<lambda>m. b_flag m AND MSGNOGET \<noteq> 0) (q_list q) of
               [] \<Rightarrow> Inr (None, q)
             | m # _ \<Rightarrow> map_sum id (\<lambda>q'. (Some m, q')) (rmvq_noenab (b_id m) q))
          else
            let q1 = q\<lparr>q_list := rest\<rparr>;
                q2 = (if b_band bp = 0 then q1 else upd_band (b_band bp) (getq_band rest) q1)
            in Inr (Some bp, q_clr QWANTR (q_uncount bp q2)))"

text \<open>\<open>qbackenable\<close>: when the band is below its low water mark and a writer waits for it, the writer's queue is enabled.\<close>

definition qbackenable :: "nat \<Rightarrow> queue \<Rightarrow> queue" where
  "qbackenable band q =
     (if band = 0 then
        if q_flag q AND (QWANTW OR QWANTWSYNC) = 0 then q
        else if q_count q < q_lowat q \<or> q_lowat q = 0 then
          (let sync = qf q QWANTWSYNC; want = qf q QWANTW;
               q1 = (if sync then q_clr QWANTWSYNC q else q);
               q2 = (if want then q_clr QWANTW q1 else q1);
               q3 = (if sync then q_log StrWake q2 else q2)
           in if want then q_log (BackEnable 0) q3 else q3)
        else q
      else
        let qb = q_bandp q ! (band - 1) in
        if (qb_count qb < qb_lowat qb \<or> qb_lowat qb = 0) \<and> qbf qb QB_WANTW then
          q_log (BackEnable band) (upd_band band (\<lambda>qb. qb\<lparr>qb_flag := qb_flag qb AND NOT QB_WANTW\<rparr>) q)
        else q)"

definition getq :: "queue \<Rightarrow> (mblk option \<times> queue) kres" where
  "getq q =
     (case getq_noenab q of
        Inl f \<Rightarrow> Inl f
      | Inr (bp, q1) \<Rightarrow>
          let band = (case bp of None \<Rightarrow> 0 | Some m \<Rightarrow> b_band m) in
          if band = 0 \<and> q_flag q1 AND (QWANTW OR QWANTWSYNC) = 0 then Inr (bp, q1)
          else Inr (bp, qbackenable band q1))"

definition rmvq :: "nat \<Rightarrow> queue \<Rightarrow> queue kres" where
  "rmvq i q =
     (case split_id i (q_list q) of
        None \<Rightarrow> Inl (Wild ''rmvq'')
      | Some (_, mp, _) \<Rightarrow> map_sum id (qbackenable (b_band mp)) (rmvq_noenab i q))"

section \<open>Putting messages on\<close>

definition allocband :: "nat \<Rightarrow> nat \<Rightarrow> qband" where
  "allocband hiwat lowat = \<lparr>qb_count = 0, qb_first = None, qb_last = None, qb_hiwat = hiwat, qb_lowat = lowat, qb_flag = 0\<rparr>"

text \<open>The bands up to \<open>band\<close>; \<open>avail\<close> more can be allocated.\<close>

fun alloc_bands :: "nat \<Rightarrow> nat \<Rightarrow> queue \<Rightarrow> bool \<times> queue" where
  "alloc_bands avail band q =
     (if band > q_nband q then
        (case avail of
           0 \<Rightarrow> (False, q)
         | Suc k \<Rightarrow> alloc_bands k band (q\<lparr>q_bandp := q_bandp q @ [allocband (q_hiwat q) (q_lowat q)], q_nband := q_nband q + 1\<rparr>))
      else (True, q))"

declare alloc_bands.simps [simp del]

definition q_count_in :: "mblk \<Rightarrow> queue \<Rightarrow> queue" where
  "q_count_in bp q =
     (if b_band bp \<noteq> 0 then
        upd_band (b_band bp)
          (\<lambda>qb. let qb1 = qb\<lparr>qb_count := count_add (qb_count qb) bp\<rparr> in
                if qb_count qb1 \<ge> qb_hiwat qb1 then qb1\<lparr>qb_flag := qb_flag qb1 OR QB_FULL\<rparr> else qb1) q
      else
        let q1 = q\<lparr>q_count := count_add (q_count q) bp\<rparr> in
        if q_count q1 \<ge> q_hiwat q1 then q_set QFULL q1 else q1)"

definition set_first :: "mblk \<Rightarrow> queue \<Rightarrow> queue" where
  "set_first bp = upd_band (b_band bp) (\<lambda>qb. qb\<lparr>qb_first := Some (b_id bp)\<rparr>)"

definition set_last :: "mblk \<Rightarrow> queue \<Rightarrow> queue" where
  "set_last bp = upd_band (b_band bp) (\<lambda>qb. qb\<lparr>qb_last := Some (b_id bp)\<rparr>)"

text \<open>The two loops that look for the message to insert before; running off the end is a fault.\<close>

definition scan_insert :: "(mblk \<Rightarrow> bool) \<Rightarrow> (mblk \<Rightarrow> bool) \<Rightarrow> mblk \<Rightarrow> mblk list \<Rightarrow> mblk list kres" where
  "scan_insert skip1 skip2 bp ms =
     (let a = takeWhile skip1 ms; ms1 = dropWhile skip1 ms; b = takeWhile skip2 ms1; ms2 = dropWhile skip2 ms1 in
      if ms2 = [] then Inl (Wild ''b_next'') else Inr (a @ b @ bp # ms2))"

definition is_pctl :: "mblk \<Rightarrow> bool" where
  "is_pctl m \<longleftrightarrow> b_type m \<ge> QPCTL"

text \<open>Where \<open>putq\<close> puts the message, with the band's pointers.\<close>

definition putq_place :: "mblk \<Rightarrow> queue \<Rightarrow> queue kres" where
  "putq_place bp q =
     (let mcls = queclass bp; ms = q_list q; banded = (b_band bp \<noteq> 0) in
      if ms = [] then
        Inr (let q1 = q\<lparr>q_list := [bp]\<rparr> in if banded then set_last bp (set_first bp q1) else q1)
      else if \<not> banded then
        (if mcls \<le> queclass (last ms) then Inr (q\<lparr>q_list := ms @ [bp]\<rparr>)
         else map_sum id (\<lambda>ms'. q\<lparr>q_list := ms'\<rparr>) (scan_insert (\<lambda>m. queclass m \<ge> mcls) (\<lambda>_. False) bp ms))
      else
        let qb = q_bandp q ! (b_band bp - 1) in
        case qb_first qb of
          Some _ \<Rightarrow>
            (case qb_last qb of
               None \<Rightarrow> Inl (Wild ''qb_last'')
             | Some l \<Rightarrow>
                 (case split_id l ms of
                    None \<Rightarrow> Inl (Wild ''qb_last'')
                  | Some (pre, m, post) \<Rightarrow> Inr (set_last bp (q\<lparr>q_list := pre @ m # bp # post\<rparr>))))
        | None \<Rightarrow>
            (if mcls < queclass (last ms) \<or> b_band bp \<le> b_band (last ms)
             then Inr (set_last bp (set_first bp (q\<lparr>q_list := ms @ [bp]\<rparr>)))
             else map_sum id (\<lambda>ms'. set_last bp (set_first bp (q\<lparr>q_list := ms'\<rparr>)))
                    (scan_insert is_pctl (\<lambda>m. b_band m \<ge> b_band bp) bp ms)))"

text \<open>The checks at the start of \<open>putq\<close> and \<open>putbq\<close>: a high priority message is in band 0.\<close>

definition put_band :: "mblk \<Rightarrow> mblk" where
  "put_band bp = (if queclass bp = QPCTL then bp\<lparr>b_band := 0\<rparr> else bp)"

definition putq :: "nat \<Rightarrow> mblk \<Rightarrow> queue \<Rightarrow> (bool \<times> queue) kres" where
  "putq avail bp0 q =
     (let bp = put_band bp0; (ok, q1) = alloc_bands avail (b_band bp) q in
      if \<not> ok then Inr (False, q1)
      else
        case putq_place bp q1 of
          Inl f \<Rightarrow> Inl f
        | Inr q2 \<Rightarrow>
            (let q3 = q_count_in bp q2 in
             Inr (True, if queclass bp > QNORM \<or> canenable q3 \<and> (qf q3 QWANTR \<or> b_band bp \<noteq> 0)
                        then qenable_locked q3 else q3)))"

definition putbq_place :: "mblk \<Rightarrow> queue \<Rightarrow> queue kres" where
  "putbq_place bp q =
     (let mcls = queclass bp; ms = q_list q; banded = (b_band bp \<noteq> 0) in
      if ms = [] \<or> mcls = QPCTL then
        Inr (let q1 = q\<lparr>q_list := bp # ms\<rparr> in if banded then set_last bp (set_first bp q1) else q1)
      else if banded then
        (case qb_first (q_bandp q ! (b_band bp - 1)) of
           Some f \<Rightarrow>
             (case split_id f ms of
                None \<Rightarrow> Inl (Wild ''qb_first'')
              | Some (pre, m, post) \<Rightarrow> Inr (set_first bp (q\<lparr>q_list := pre @ bp # m # post\<rparr>)))
         | None \<Rightarrow>
             (if mcls < queclass (last ms) \<or> b_band bp < b_band (last ms)
              then Inr (set_first bp (set_last bp (q\<lparr>q_list := ms @ [bp]\<rparr>)))
              else map_sum id (\<lambda>ms'. set_first bp (set_last bp (q\<lparr>q_list := ms'\<rparr>)))
                     (scan_insert is_pctl (\<lambda>m. b_band m > b_band bp) bp ms)))
      else if mcls < queclass (last ms) \<or> b_band bp < b_band (last ms) then Inr (q\<lparr>q_list := ms @ [bp]\<rparr>)
      else map_sum id (\<lambda>ms'. q\<lparr>q_list := ms'\<rparr>) (scan_insert is_pctl (\<lambda>m. b_band m > b_band bp) bp ms))"

definition putbq :: "nat \<Rightarrow> mblk \<Rightarrow> queue \<Rightarrow> (bool \<times> queue) kres" where
  "putbq avail bp0 q =
     (let bp = put_band bp0; (ok, q1) = alloc_bands avail (b_band bp) q in
      if \<not> ok then Inr (False, q1)
      else
        case putbq_place bp q1 of
          Inl f \<Rightarrow> Inl f
        | Inr q2 \<Rightarrow>
            (let q3 = q_count_in bp q2 in
             Inr (True, if queclass bp > QNORM \<or> canenable q3 \<and> qf q3 QWANTR then qenable_locked q3 else q3)))"

text \<open>\<open>insq\<close> inserts before the message \<open>emp\<close>, or at the end.\<close>

definition insq_bad :: "(mblk list \<times> mblk \<times> mblk list) option \<Rightarrow> mblk \<Rightarrow> mblk list \<Rightarrow> bool" where
  "insq_bad at mp ms \<longleftrightarrow>
     (case at of
        Some (pre, emp, _) \<Rightarrow>
          queclass mp = QPCTL \<and> pre \<noteq> [] \<and> b_type (last pre) < QPCTL
          \<or> queclass mp = QNORM \<and> b_band mp < b_band emp
          \<or> pre \<noteq> [] \<and> b_type (last pre) < QPCTL \<and> b_band (last pre) < b_band mp
      | None \<Rightarrow> ms \<noteq> [] \<and> queclass mp = QNORM \<and> b_band mp > b_band (last ms))"

definition insq_band :: "mblk list \<Rightarrow> mblk \<Rightarrow> mblk list \<Rightarrow> qband \<Rightarrow> qband" where
  "insq_band pre mp post qb =
     (if qb_first qb = None then qb\<lparr>qb_first := Some (b_id mp), qb_last := Some (b_id mp)\<rparr>
      else if pre = [] \<or> b_band (last pre) \<noteq> b_band mp then qb\<lparr>qb_first := Some (b_id mp)\<rparr>
      else if post = [] \<or> b_band (hd post) \<noteq> b_band mp then qb\<lparr>qb_last := Some (b_id mp)\<rparr>
      else qb)"

definition insq :: "nat \<Rightarrow> nat option \<Rightarrow> mblk \<Rightarrow> queue \<Rightarrow> (bool \<times> queue) kres" where
  "insq avail emp mp0 q =
     (let mp = put_band mp0; ms = q_list q; at = (case emp of None \<Rightarrow> None | Some i \<Rightarrow> split_id i ms) in
      if emp \<noteq> None \<and> at = None then Inl (Wild ''insq'')
      else if insq_bad at mp ms then Inr (False, q)
      else
        let (ok, q1) = alloc_bands avail (b_band mp) q in
        if \<not> ok then Inr (False, q1)
        else
          let (pre, post) = (case at of Some (pre, e, post) \<Rightarrow> (pre, e # post) | None \<Rightarrow> (ms, []));
              q2 = q1\<lparr>q_list := pre @ mp # post\<rparr>;
              q3 = (if b_band mp \<noteq> 0 then upd_band (b_band mp) (insq_band pre mp post) q2 else q2);
              q4 = q_count_in mp q3
          in Inr (True, if canenable q4 \<and> qf q4 QWANTR then qenable_locked q4 else q4))"

section \<open>Flow control\<close>

text \<open>The queue argument of these is \<^verbatim>\<open>q_nfsrv\<close>, the next queue with a service procedure.\<close>

definition canput :: "queue \<Rightarrow> bool \<times> queue" where
  "canput q = (if \<not> qf q QFULL then (True, q) else (False, q_set QWANTW q))"

definition bcanput :: "nat \<Rightarrow> queue \<Rightarrow> bool \<times> queue" where
  "bcanput pri q =
     (if pri = 0 then (if qf q QFULL then (False, q_set QWANTW q) else (True, q))
      else if pri > q_nband q then (True, q)
      else if qbf (q_bandp q ! (pri - 1)) QB_FULL
      then (False, upd_band pri (\<lambda>qb. qb\<lparr>qb_flag := qb_flag qb OR QB_WANTW\<rparr>) q)
      else (True, q))"

section \<open>Flushing\<close>

definition q_empty :: "queue \<Rightarrow> queue" where
  "q_empty q =
     q_clr QFULL (q\<lparr>q_list := [], q_count := 0,
       q_bandp := map (\<lambda>qb. qb\<lparr>qb_first := None, qb_last := None, qb_count := 0, qb_flag := qb_flag qb AND NOT QB_FULL\<rparr>) (q_bandp q)\<rparr>)"

text \<open>Putting back the messages that stay. Their bands exist already; the result of \<open>putq\<close> is ignored.\<close>

fun flush_back :: "(mblk \<Rightarrow> bool) \<Rightarrow> mblk list \<Rightarrow> queue \<Rightarrow> queue kres" where
  "flush_back gone [] q = Inr q"
| "flush_back gone (mp # ms) q =
     (if gone mp then flush_back gone ms q
      else case putq 0 mp q of Inl f \<Rightarrow> Inl f | Inr (_, q') \<Rightarrow> flush_back gone ms q')"

definition band_ready :: "qband \<Rightarrow> bool" where
  "band_ready qb \<longleftrightarrow> qbf qb QB_WANTW \<and> (qb_count qb < qb_lowat qb \<or> qb_lowat qb = 0)"

text \<open>The end of \<open>flushq\<close>: the writers that can go on are found and enabled.\<close>

definition flushq_end :: "queue \<Rightarrow> queue" where
  "flushq_end q1 =
     (let wanted = filter (\<lambda>b. band_ready (q_bandp q1 ! (b - 1))) (rev [1 ..< length (q_bandp q1) + 1]);
          q2 = q1\<lparr>q_bandp := map (\<lambda>qb. if band_ready qb then qb\<lparr>qb_flag := qb_flag qb AND NOT QB_WANTW\<rparr> else qb) (q_bandp q1)\<rparr>;
          zero = (qf q2 QWANTW \<and> (q_lowat q2 = 0 \<or> q_count q2 < q_lowat q2));
          q3 = (if zero then q_clr QWANTW q2 else q2);
          q4 = fold (\<lambda>b. q_log (BackEnable b)) wanted q3
      in if zero then q_log (BackEnable 0) q4 else q4)"

definition flushq :: "bool \<Rightarrow> queue \<Rightarrow> queue kres" where
  "flushq flag q =
     (if q_list q = [] then Inr q
      else map_sum id flushq_end (flush_back (\<lambda>mp. flag \<or> datamsg (b_type mp)) (q_list q) (q_empty q)))"

definition flushband_end :: "queue \<Rightarrow> queue" where
  "flushband_end q1 =
     (if qf q1 QWANTW \<and> (q_lowat q1 = 0 \<or> q_count q1 < q_lowat q1)
      then q_log (BackEnable 0) (q_clr QWANTW q1) else q1)"

text \<open>The walk along one band, from its first message to the last or, for a single message, the one after it.\<close>

fun flushband_loop :: "nat \<Rightarrow> bool \<Rightarrow> nat option \<Rightarrow> mblk list \<Rightarrow> queue \<Rightarrow> queue kres" where
  "flushband_loop pri flag lst [] q = (if lst = None then Inr q else Inl (Wild ''b_next''))"
| "flushband_loop pri flag lst (mp # ms) q =
     (let gone = (b_band mp = pri \<and> (flag \<or> datamsg (b_type mp))) in
      if lst = Some (b_id mp) then (if gone then rmvq (b_id mp) q else Inr q)
      else
        case (if gone then rmvq (b_id mp) q else Inr q) of
          Inl f \<Rightarrow> Inl f
        | Inr q' \<Rightarrow> flushband_loop pri flag lst ms q')"

definition flushband :: "nat \<Rightarrow> bool \<Rightarrow> queue \<Rightarrow> queue kres" where
  "flushband pri flag q =
     (if pri > q_nband q then Inr q
      else if pri = 0 then
        map_sum id flushband_end
          (flush_back (\<lambda>mp. b_band mp = 0 \<and> (flag \<or> datamsg (b_type mp))) (q_list q) (q_empty q))
      else
        let qb = q_bandp q ! (pri - 1) in
        case qb_first qb of
          None \<Rightarrow> Inr q
        | Some f \<Rightarrow>
            (case split_id f (q_list q) of
               None \<Rightarrow> Inl (Wild ''qb_first'')
             | Some (_, mp, post) \<Rightarrow>
                 let lst = (if qb_first qb = qb_last qb then (case post of [] \<Rightarrow> None | m # _ \<Rightarrow> Some (b_id m)) else qb_last qb)
                 in flushband_loop pri flag lst (mp # post) q))"

section \<open>Setting and reading queue fields\<close>

datatype qfields = QHIWAT | QLOWAT | QMAXPSZ | QMINPSZ | QCOUNT | QFIRST | QLAST | QFLAG | QSTRUIOT | QBAD

datatype qvalue = VSize nat | VSsize int | VMsg "nat option" | VFlag "32 word" | VShort int

definition size_t :: "int \<Rightarrow> nat" where
  "size_t v = nat (v mod 2 ^ 32)"

text \<open>
  \<open>below\<close> says that the queue is directly below the stream head; \<open>fifo\<close> that the stream is a
  fifo. The packet sizes are then cached in the stream head.
\<close>

definition head_maxpsz :: "int \<Rightarrow> bool \<Rightarrow> int \<Rightarrow> int" where
  "head_maxpsz strmsgsz fifo val =
     (if strmsgsz \<noteq> 0 then (if val = - 1 then strmsgsz else if fifo then min 5120 val else min strmsgsz val) else val)"

definition strqset ::
  "int \<Rightarrow> bool \<Rightarrow> bool \<Rightarrow> nat \<Rightarrow> qfields \<Rightarrow> nat \<Rightarrow> int \<Rightarrow> queue \<Rightarrow> errno option \<times> queue"
where
  "strqset strmsgsz fifo below avail what pri val q =
     (if what = QBAD then (Some EINVAL, q)
      else
        let (ok, q1) = alloc_bands avail pri q in
        if \<not> ok then (Some EAGAIN, q1)
        else
          (case what of
             QHIWAT \<Rightarrow> (None, if pri \<noteq> 0 then upd_band pri (\<lambda>qb. qb\<lparr>qb_hiwat := size_t val\<rparr>) q1 else q1\<lparr>q_hiwat := size_t val\<rparr>)
           | QLOWAT \<Rightarrow> (None, if pri \<noteq> 0 then upd_band pri (\<lambda>qb. qb\<lparr>qb_lowat := size_t val\<rparr>) q1 else q1\<lparr>q_lowat := size_t val\<rparr>)
           | QMAXPSZ \<Rightarrow>
               (let q2 = (if pri \<noteq> 0 then q1 else q1\<lparr>q_maxpsz := val\<rparr>) in
                (if pri \<noteq> 0 then Some EINVAL else None,
                 if below then q2\<lparr>sd_qn_maxpsz := head_maxpsz strmsgsz fifo val\<rparr> else q2))
           | QMINPSZ \<Rightarrow>
               (let q2 = (if pri \<noteq> 0 then q1 else q1\<lparr>q_minpsz := val\<rparr>) in
                (if pri \<noteq> 0 then Some EINVAL else None, if below then q2\<lparr>sd_qn_minpsz := val\<rparr> else q2))
           | QSTRUIOT \<Rightarrow> if pri \<noteq> 0 then (Some EINVAL, q1) else (None, q1\<lparr>q_struiot := s16 (int (u16 val))\<rparr>)
           | _ \<Rightarrow> (Some EPERM, q1)))"

definition strqget :: "nat \<Rightarrow> qfields \<Rightarrow> nat \<Rightarrow> queue \<Rightarrow> (errno + qvalue) \<times> queue" where
  "strqget avail what pri q =
     (if what = QBAD then (Inl EINVAL, q)
      else
        let (ok, q1) = alloc_bands avail pri q; qb = q_bandp q1 ! (pri - 1); ms = q_list q1; band = (pri \<noteq> 0) in
        if \<not> ok then (Inl EAGAIN, q1)
        else
          (case what of
             QHIWAT \<Rightarrow> Inr (VSize (if band then qb_hiwat qb else q_hiwat q1))
           | QLOWAT \<Rightarrow> Inr (VSize (if band then qb_lowat qb else q_lowat q1))
           | QMAXPSZ \<Rightarrow> if band then Inl EINVAL else Inr (VSsize (q_maxpsz q1))
           | QMINPSZ \<Rightarrow> if band then Inl EINVAL else Inr (VSsize (q_minpsz q1))
           | QCOUNT \<Rightarrow> Inr (VSize (if band then qb_count qb else q_count q1))
           | QFIRST \<Rightarrow> Inr (VMsg (if band then qb_first qb else if ms = [] then None else Some (b_id (hd ms))))
           | QLAST \<Rightarrow> Inr (VMsg (if band then qb_last qb else if ms = [] then None else Some (b_id (last ms))))
           | QFLAG \<Rightarrow> Inr (VFlag (if band then qb_flag qb else q_flag q1))
           | QSTRUIOT \<Rightarrow> if band then Inl EINVAL else Inr (VShort (q_struiot q1))
           | QBAD \<Rightarrow> Inl EINVAL, q1))"

end
