(* ===== verification/Strq_Inv.thy ===== *)
theory Strq_Inv
  imports Strq
begin

text \<open>
  The invariant of a STREAMS queue and what each queue operation does to the list of messages:
  \<open>putq\<close> inserts behind all messages of at least the same priority, \<open>putbq\<close> in front of all of at
  most the same priority, \<open>getq\<close> and \<open>rmvq\<close> take one message out. The pointers that the code keeps
  into the list, one pair for each band, are always those of the first and last message of the band.
\<close>

section \<open>The invariant\<close>

text \<open>High priority messages come first, then the bands from the highest down.\<close>

definition prio :: "mblk \<Rightarrow> nat" where
  "prio m = (if is_pctl m then 256 else b_band m)"

definition in_band :: "nat \<Rightarrow> mblk list \<Rightarrow> mblk list" where
  "in_band b ms = filter (\<lambda>m. b_band m = b) ms"

definition first_id :: "mblk list \<Rightarrow> nat option" where
  "first_id ms = (if ms = [] then None else Some (b_id (hd ms)))"

definition last_id :: "mblk list \<Rightarrow> nat option" where
  "last_id ms = (if ms = [] then None else Some (b_id (last ms)))"

definition msg_bytes :: "mblk \<Rightarrow> nat" where
  "msg_bytes m = sum_list (b_sizes m)"

definition band_bytes :: "nat \<Rightarrow> mblk list \<Rightarrow> nat" where
  "band_bytes b ms = sum_list (map msg_bytes (in_band b ms))"

definition msg_fits :: "mblk \<Rightarrow> bool" where
  "msg_fits m \<longleftrightarrow> b_band m < 256 \<and> (is_pctl m \<longrightarrow> b_band m = 0) \<and> (\<forall>n \<in> set (b_sizes m). n < 2 ^ 32)"

definition q_sorted :: "mblk list \<Rightarrow> bool" where
  "q_sorted ms \<longleftrightarrow> sorted_wrt (\<lambda>a b. prio b \<le> prio a) ms"

definition list_ok :: "nat \<Rightarrow> mblk list \<Rightarrow> bool" where
  "list_ok nband ms \<longleftrightarrow> distinct (map b_id ms) \<and> q_sorted ms \<and> (\<forall>m \<in> set ms. msg_fits m \<and> b_band m \<le> nband)"

definition band_ok :: "mblk list \<Rightarrow> nat \<Rightarrow> qband \<Rightarrow> bool" where
  "band_ok ms b qb \<longleftrightarrow> qb_first qb = first_id (in_band b ms) \<and> qb_last qb = last_id (in_band b ms)
     \<and> qb_count qb = u32 (band_bytes b ms)"

definition q_ok :: "queue \<Rightarrow> bool" where
  "q_ok q \<longleftrightarrow> list_ok (q_nband q) (q_list q) \<and> length (q_bandp q) = q_nband q \<and> q_nband q < 256
     \<and> q_count q = u32 (band_bytes 0 (q_list q))
     \<and> (\<forall>b. 0 < b \<longrightarrow> b \<le> q_nband q \<longrightarrow> band_ok (q_list q) b (q_bandp q ! (b - 1)))"

lemmas strq_defs = in_band_def first_id_def last_id_def band_bytes_def

lemma in_band_append [simp]: "in_band b (xs @ ys) = in_band b xs @ in_band b ys"
  by (simp add: in_band_def)

lemma in_band_Cons: "in_band b (m # ms) = (if b_band m = b then m # in_band b ms else in_band b ms)"
  by (simp add: in_band_def)

lemma in_band_Nil [simp]: "in_band b [] = []"
  by (simp add: in_band_def)

lemma band_bytes_append [simp]: "band_bytes b (xs @ ys) = band_bytes b xs + band_bytes b ys"
  by (simp add: band_bytes_def)

lemma band_bytes_Cons [simp]: "band_bytes b (m # ms) = (if b_band m = b then msg_bytes m else 0) + band_bytes b ms"
  by (simp add: band_bytes_def in_band_Cons)

lemma band_bytes_Nil [simp]: "band_bytes b [] = 0"
  by (simp add: band_bytes_def)

lemma q_sorted_append: "q_sorted (xs @ ys) \<longleftrightarrow> q_sorted xs \<and> q_sorted ys \<and> (\<forall>x \<in> set xs. \<forall>y \<in> set ys. prio y \<le> prio x)"
  by (simp add: q_sorted_def sorted_wrt_append)

lemma q_sorted_Cons: "q_sorted (m # ms) \<longleftrightarrow> (\<forall>y \<in> set ms. prio y \<le> prio m) \<and> q_sorted ms"
  by (simp add: q_sorted_def)

lemma q_sorted_Nil [simp]: "q_sorted []"
  by (simp add: q_sorted_def)

text \<open>A sorted queue around a priority.\<close>

lemma q_sorted_split:
  "q_sorted ms \<Longrightarrow> ms = takeWhile (\<lambda>m. prio m > p) ms @ filter (\<lambda>m. prio m = p) ms @ dropWhile (\<lambda>m. prio m \<ge> p) ms"
proof (induction ms)
  case (Cons m ms)
  consider "prio m > p" | "prio m = p" | "prio m < p" by linarith
  then show ?case
  proof cases
    case 1
    then show ?thesis using Cons by (simp add: q_sorted_Cons)
  next
    case 2
    then have "takeWhile (\<lambda>m. prio m > p) ms = []" using Cons.prems by (cases ms) (auto simp: q_sorted_Cons)
    then show ?thesis using Cons 2 by (simp add: q_sorted_Cons)
  next
    case 3
    then have "filter (\<lambda>m. prio m = p) ms = []" using Cons.prems by (auto simp: q_sorted_Cons filter_empty_conv)
    then show ?thesis using 3 by simp
  qed
qed simp

lemma takeWhile_ge:
  "q_sorted ms \<Longrightarrow> takeWhile (\<lambda>m. prio m \<ge> p) ms = takeWhile (\<lambda>m. prio m > p) ms @ filter (\<lambda>m. prio m = p) ms"
  using q_sorted_split [of ms p] takeWhile_dropWhile_id [of "\<lambda>m. prio m \<ge> p" ms]
  by (metis append_assoc append_same_eq)

lemma dropWhile_gt:
  "q_sorted ms \<Longrightarrow> dropWhile (\<lambda>m. prio m > p) ms = filter (\<lambda>m. prio m = p) ms @ dropWhile (\<lambda>m. prio m \<ge> p) ms"
  using q_sorted_split [of ms p] takeWhile_dropWhile_id [of "\<lambda>m. prio m > p" ms]
  by (metis same_append_eq)

lemma in_band_prio:
  "\<forall>m \<in> set ms. msg_fits m \<Longrightarrow> 0 < b \<Longrightarrow> b < 256 \<Longrightarrow> in_band b ms = filter (\<lambda>m. prio m = b) ms"
  unfolding in_band_def by (rule filter_cong) (auto simp: prio_def msg_fits_def)

lemma split_id_found:
  "distinct (map b_id (pre @ m # post)) \<Longrightarrow> split_id (b_id m) (pre @ m # post) = Some (pre, m, post)"
  by (induction pre) auto

lemma split_id_Some: "split_id i ms = Some (pre, m, post) \<Longrightarrow> ms = pre @ m # post \<and> b_id m = i"
  by (induction ms arbitrary: pre) (auto split: if_splits option.splits)

lemma split_id_None: "split_id i ms = None \<longleftrightarrow> i \<notin> b_id ` set ms"
  by (induction ms) (auto split: option.splits)

section \<open>Where messages go\<close>

definition ins_after :: "mblk \<Rightarrow> mblk list \<Rightarrow> mblk list" where
  "ins_after bp ms = takeWhile (\<lambda>m. prio m \<ge> prio bp) ms @ bp # dropWhile (\<lambda>m. prio m \<ge> prio bp) ms"

definition ins_before :: "mblk \<Rightarrow> mblk list \<Rightarrow> mblk list" where
  "ins_before bp ms = takeWhile (\<lambda>m. prio m > prio bp) ms @ bp # dropWhile (\<lambda>m. prio m > prio bp) ms"

text \<open>A queue with another list, the pointers of one band adjusted to it.\<close>

definition place :: "mblk \<Rightarrow> mblk list \<Rightarrow> queue \<Rightarrow> queue" where
  "place bp ms q =
     (if b_band bp \<noteq> 0
      then upd_band (b_band bp) (\<lambda>qb. qb\<lparr>qb_first := first_id (in_band (b_band bp) ms), qb_last := last_id (in_band (b_band bp) ms)\<rparr>)
             (q\<lparr>q_list := ms\<rparr>)
      else q\<lparr>q_list := ms\<rparr>)"

lemma is_pctl_queclass: "queclass m = (if is_pctl m then 128 else 0)"
  by (simp add: queclass_def is_pctl_def QPCTL_def QNORM_def)

lemma last_prio:
  assumes "q_sorted ms" "ms \<noteq> []" "m \<in> set ms"
  shows "prio (last ms) \<le> prio m"
  using assms by (induction ms) (auto simp: q_sorted_Cons)

lemma two_scans:
  assumes R: "\<And>m. \<not> is_pctl m \<Longrightarrow> R m \<longleftrightarrow> Q m" "\<And>m. is_pctl m \<Longrightarrow> R m"
  shows "\<forall>m \<in> set ms. msg_fits m \<Longrightarrow> q_sorted ms \<Longrightarrow>
    takeWhile is_pctl ms @ takeWhile Q (dropWhile is_pctl ms) = takeWhile R ms
    \<and> dropWhile Q (dropWhile is_pctl ms) = dropWhile R ms"
proof (induction ms)
  case (Cons m ms)
  show ?case
  proof (cases "is_pctl m")
    case True
    then show ?thesis using Cons R(2) by (simp add: q_sorted_Cons)
  next
    case False
    then have "\<forall>x \<in> set (m # ms). \<not> is_pctl x"
      using Cons.prems by (auto simp: q_sorted_Cons prio_def msg_fits_def split: if_splits)
    then have "takeWhile Q (m # ms) = takeWhile R (m # ms)" "dropWhile Q (m # ms) = dropWhile R (m # ms)"
      using R(1) by (auto intro!: takeWhile_cong dropWhile_cong)
    then show ?thesis using False by simp
  qed
qed simp

text \<open>The scans of the code, when they stop in front of the last message.\<close>

lemma scan_insert_pctl:
  assumes ok: "\<forall>m \<in> set ms. msg_fits m" "q_sorted ms" and ne: "ms \<noteq> []" "\<not> R (last ms)"
    and R: "\<And>m. \<not> is_pctl m \<Longrightarrow> R m \<longleftrightarrow> Q m" "\<And>m. is_pctl m \<Longrightarrow> R m"
  shows "scan_insert is_pctl Q bp ms = Inr (takeWhile R ms @ bp # dropWhile R ms)"
proof -
  obtain y ys where d: "dropWhile R ms = y # ys" using ne by (cases "dropWhile R ms") auto
  have t: "takeWhile is_pctl ms @ takeWhile Q (dropWhile is_pctl ms) = takeWhile R ms" "dropWhile Q (dropWhile is_pctl ms) = y # ys"
    using two_scans [of R Q, OF R ok] d by simp_all
  show ?thesis unfolding scan_insert_def Let_def t(2) d by (simp add: t(1) [symmetric])
qed

lemma all_ge: "q_sorted ms \<Longrightarrow> ms \<noteq> [] \<Longrightarrow> p \<le> prio (last ms) \<Longrightarrow> takeWhile (\<lambda>m. prio m \<ge> p) ms = ms \<and> dropWhile (\<lambda>m. prio m \<ge> p) ms = []"
  using last_prio [of ms] by (auto simp: takeWhile_eq_all_conv dropWhile_eq_Nil_conv intro: order_trans)

lemma all_gt: "q_sorted ms \<Longrightarrow> ms \<noteq> [] \<Longrightarrow> p < prio (last ms) \<Longrightarrow> takeWhile (\<lambda>m. prio m > p) ms = ms \<and> dropWhile (\<lambda>m. prio m > p) ms = []"
  using last_prio [of ms] by (auto simp: takeWhile_eq_all_conv dropWhile_eq_Nil_conv intro: less_le_trans)

lemma upd_band_upd_band: "b - 1 < length (q_bandp q) \<Longrightarrow> upd_band b f (upd_band b g q) = upd_band b (\<lambda>x. f (g x)) q"
  by (simp add: upd_band_def)

lemma hd_ids: "first_id (xs @ ys) = (if xs = [] then first_id ys else first_id xs)" "last_id (xs @ ys) = (if ys = [] then last_id xs else last_id ys)"
  "first_id (x # xs) = Some (b_id x)" "first_id [] = None" "last_id [] = None" "last_id [x] = Some (b_id x)"
  by (auto simp: first_id_def last_id_def)

lemma list_okD:
  assumes "list_ok nb ms"
  shows "distinct (map b_id ms)" "q_sorted ms" "\<forall>m \<in> set ms. msg_fits m"
  using assms by (auto simp: list_ok_def)

lemma band_split:
  assumes "list_ok nb ms" "0 < b" "b < 256"
  shows "ms = takeWhile (\<lambda>m. prio m > b) ms @ in_band b ms @ dropWhile (\<lambda>m. prio m \<ge> b) ms"
    "takeWhile (\<lambda>m. prio m \<ge> b) ms = takeWhile (\<lambda>m. prio m > b) ms @ in_band b ms"
    "dropWhile (\<lambda>m. prio m > b) ms = in_band b ms @ dropWhile (\<lambda>m. prio m \<ge> b) ms"
    "in_band b (takeWhile (\<lambda>m. prio m > b) ms) = []" "in_band b (dropWhile (\<lambda>m. prio m \<ge> b) ms) = []"
proof -
  note f = list_okD [OF assms(1)]
  have i: "in_band b ms = filter (\<lambda>m. prio m = b) ms" by (rule in_band_prio [OF f(3) assms(2,3)])
  show s: "ms = takeWhile (\<lambda>m. prio m > b) ms @ in_band b ms @ dropWhile (\<lambda>m. prio m \<ge> b) ms"
    unfolding i by (rule q_sorted_split [OF f(2)])
  show "takeWhile (\<lambda>m. prio m \<ge> b) ms = takeWhile (\<lambda>m. prio m > b) ms @ in_band b ms"
    unfolding i by (rule takeWhile_ge [OF f(2)])
  show "dropWhile (\<lambda>m. prio m > b) ms = in_band b ms @ dropWhile (\<lambda>m. prio m \<ge> b) ms"
    unfolding i by (rule dropWhile_gt [OF f(2)])
  have "in_band b (in_band b ms) = in_band b ms" by (simp add: in_band_def)
  then have "length (in_band b ms) = length (in_band b (takeWhile (\<lambda>m. prio m > b) ms)) + length (in_band b ms)
      + length (in_band b (dropWhile (\<lambda>m. prio m \<ge> b) ms))"
    using arg_cong [OF s, of "\<lambda>x. length (in_band b x)"] by simp
  then show "in_band b (takeWhile (\<lambda>m. prio m > b) ms) = []" "in_band b (dropWhile (\<lambda>m. prio m \<ge> b) ms) = []" by simp_all
qed

lemma q_ok_band:
  assumes "q_ok q" "0 < b" "b \<le> q_nband q"
  shows "qb_first (q_bandp q ! (b - 1)) = first_id (in_band b (q_list q))" "qb_last (q_bandp q ! (b - 1)) = last_id (in_band b (q_list q))"
    "b - 1 < length (q_bandp q)" "b < 256"
  using assms by (auto simp: q_ok_def band_ok_def)

lemma takeWhile_False [simp]: "takeWhile (\<lambda>_. False) xs = []"
  by (cases xs) simp_all

lemma qband_swap: "(qb :: qband)\<lparr>qb_last := l, qb_first := f\<rparr> = qb\<lparr>qb_first := f, qb_last := l\<rparr>"
  by (cases qb) simp

lemma qband_keep_last: "qb_last qb = l \<Longrightarrow> (qb :: qband)\<lparr>qb_first := f, qb_last := l\<rparr> = qb\<lparr>qb_first := f\<rparr>"
  by (cases qb) simp

lemma qband_keep_first: "qb_first qb = f \<Longrightarrow> (qb :: qband)\<lparr>qb_first := f, qb_last := l\<rparr> = qb\<lparr>qb_last := l\<rparr>"
  by (cases qb) simp

lemma set_both: "set_first bp (set_last bp q) = set_last bp (set_first bp q)"
  by (cases "b_band bp - 1 < length (q_bandp q)") (simp_all add: set_last_def set_first_def upd_band_def qband_swap list_update_beyond)

lemma place_single:
  assumes "b_band bp \<noteq> 0" "b_band bp - 1 < length (q_bandp q)" "in_band (b_band bp) ms = [bp]"
  shows "set_last bp (set_first bp (q\<lparr>q_list := ms\<rparr>)) = place bp ms q"
  using assms by (simp add: place_def set_last_def set_first_def upd_band_def hd_ids)

lemma ins_all:
  "ms = [] \<or> prio bp \<le> prio (last ms) \<Longrightarrow> q_sorted ms \<Longrightarrow> ins_after bp ms = ms @ [bp]"
  using all_ge [of ms "prio bp"] by (cases "ms = []") (auto simp: ins_after_def)

lemma putq_place_ok:
  assumes ok: "q_ok q" and fits: "msg_fits bp" "b_band bp \<le> q_nband q"
  shows "putq_place bp q = Inr (place bp (ins_after bp (q_list q)) q)"
proof (cases "q_list q = []")
  case True
  then show ?thesis using fits q_ok_band(3) [OF ok, of "b_band bp"] place_single [of bp q "[bp]"]
    by (auto simp: putq_place_def ins_after_def in_band_Cons Let_def place_def)
next
  case ne: False
  have lok: "list_ok (q_nband q) (q_list q)" using ok by (simp add: q_ok_def)
  note l = list_okD [OF lok]
  let ?ms = "q_list q" and ?b = "b_band bp"
  have fl: "msg_fits (last ?ms)" using l(3) ne by simp
  show ?thesis
  proof (cases "?b = 0")
    case True
    have "queclass bp \<le> queclass (last ?ms) \<longleftrightarrow> prio bp \<le> prio (last ?ms)"
      using True fl by (auto simp: is_pctl_queclass prio_def msg_fits_def)
    moreover have "scan_insert (\<lambda>m. queclass m \<ge> queclass bp) (\<lambda>_. False) bp ?ms = Inr (ins_after bp ?ms)"
      if "prio (last ?ms) < prio bp"
    proof -
      have p: "is_pctl bp" using that True by (auto simp: prio_def split: if_splits)
      then have "queclass m \<ge> queclass bp \<longleftrightarrow> prio m \<ge> prio bp" if "m \<in> set ?ms" for m
        using l(3) that by (auto simp: is_pctl_queclass prio_def msg_fits_def)
      then have "takeWhile (\<lambda>m. queclass m \<ge> queclass bp) ?ms = takeWhile (\<lambda>m. prio m \<ge> prio bp) ?ms"
        "dropWhile (\<lambda>m. queclass m \<ge> queclass bp) ?ms = dropWhile (\<lambda>m. prio m \<ge> prio bp) ?ms"
        by (auto intro!: takeWhile_cong dropWhile_cong)
      moreover have "dropWhile (\<lambda>m. prio m \<ge> prio bp) ?ms \<noteq> []" using that ne last_in_set by (fastforce simp: dropWhile_eq_Nil_conv)
      ultimately show ?thesis by (auto simp: scan_insert_def ins_after_def Let_def neq_Nil_conv)
    qed
    ultimately show ?thesis using True ne ins_all [of ?ms bp] l(2) by (auto simp: putq_place_def place_def Let_def not_le)
  next
    case False
    note qb = q_ok_band [OF ok, of ?b]
    have p: "prio bp = ?b" using fits False by (auto simp: prio_def msg_fits_def)
    note sp = band_split [OF lok, of ?b]
    show ?thesis
    proof (cases "in_band ?b ?ms = []")
      case True
      have t: "queclass bp < queclass (last ?ms) \<or> ?b \<le> b_band (last ?ms) \<longleftrightarrow> prio bp \<le> prio (last ?ms)"
        using False fl fits by (auto simp: is_pctl_queclass prio_def msg_fits_def)
      have one: "in_band ?b (ins_after bp ?ms) = [bp]" using True False fits sp(4,5) qb(4) p
        by (auto simp: ins_after_def sp(2) in_band_Cons)
      show ?thesis
      proof (cases "prio bp \<le> prio (last ?ms)")
        case True
        then show ?thesis using ne False t qb fits \<open>in_band ?b ?ms = []\<close> one ins_all [of ?ms bp] l(2) place_single [of bp q "ins_after bp ?ms"]
          by (simp add: putq_place_def Let_def hd_ids)
      next
        case not: False
        have r: "?b < 256" "\<not> ?b \<le> prio (last ?ms)" using not fits(1) p by (simp_all add: msg_fits_def)
        have "scan_insert is_pctl (\<lambda>m. b_band m \<ge> ?b) bp ?ms = Inr (ins_after bp ?ms)"
          unfolding ins_after_def p using r by (intro scan_insert_pctl l ne) (auto simp: prio_def)
        then show ?thesis using ne False t not qb fits \<open>in_band ?b ?ms = []\<close> one place_single [of bp q "ins_after bp ?ms"]
          by (simp add: putq_place_def Let_def hd_ids)
      qed
    next
      case some: False
      define hi mid lo where "hi = takeWhile (\<lambda>m. prio m > ?b) ?ms" and "mid = in_band ?b ?ms" and "lo = dropWhile (\<lambda>m. prio m \<ge> ?b) ?ms"
      have b: "0 < ?b" "?b < 256" using False fits(1) by (simp_all add: msg_fits_def)
      note sp = band_split [OF lok b, folded hi_def mid_def lo_def]
      have mid: "mid = butlast mid @ [last mid]" using some by (simp add: mid_def)
      then have e: "?ms = (hi @ butlast mid) @ last mid # lo" using sp(1) by (metis append.assoc append_Cons append_Nil)
      have "distinct (map b_id ((hi @ butlast mid) @ last mid # lo))" using l(1) by (simp only: e [symmetric])
      then have "split_id (b_id (last mid)) ?ms = Some (hi @ butlast mid, last mid, lo)"
        by (subst e) (rule split_id_found)
      moreover have ins: "ins_after bp ?ms = (hi @ butlast mid) @ last mid # bp # lo"
        using mid by (simp add: ins_after_def p sp(2) lo_def [symmetric])
      moreover have "qb_first (q_bandp q ! (?b - 1)) = first_id mid" "qb_last (q_bandp q ! (?b - 1)) = Some (b_id (last mid))"
        using qb(1,2) b(1) fits(2) some by (simp_all add: mid_def last_id_def)
      moreover have "in_band ?b (ins_after bp ?ms) = mid @ [bp]"
        using sp(4,5) by (simp add: ins_after_def p sp(2) lo_def [symmetric] in_band_Cons) (simp add: mid_def in_band_def)
      ultimately show ?thesis
        using ne False some qb(3) b(1) fits(2)
        by (simp add: putq_place_def place_def Let_def set_last_def upd_band_def hd_ids first_id_def mid_def qband_keep_first)
    qed
  qed
qed

lemma before_all:
  "ms = [] \<or> prio bp < prio (last ms) \<Longrightarrow> q_sorted ms \<Longrightarrow> ins_before bp ms = ms @ [bp]"
  using all_gt [of ms "prio bp"] by (cases "ms = []") (auto simp: ins_before_def)

lemma putbq_place_ok:
  assumes ok: "q_ok q" and fits: "msg_fits bp" "b_band bp \<le> q_nband q"
  shows "putbq_place bp q = Inr (place bp (ins_before bp (q_list q)) q)"
proof (cases "q_list q = []")
  case True
  then show ?thesis using fits q_ok_band(3) [OF ok, of "b_band bp"] place_single [of bp q "[bp]"]
    by (auto simp: putbq_place_def ins_before_def in_band_Cons Let_def place_def)
next
  case ne: False
  have lok: "list_ok (q_nband q) (q_list q)" using ok by (simp add: q_ok_def)
  note l = list_okD [OF lok]
  let ?ms = "q_list q" and ?b = "b_band bp"
  have fl: "msg_fits (last ?ms)" using l(3) ne by simp
  show ?thesis
  proof (cases "is_pctl bp")
    case True
    have "takeWhile (\<lambda>m. prio m > prio bp) ?ms = []" "dropWhile (\<lambda>m. prio m > prio bp) ?ms = ?ms"
      using True l(3) by (cases ?ms; auto simp: prio_def msg_fits_def)+
    then show ?thesis using True fits by (simp add: putbq_place_def is_pctl_queclass QPCTL_def ins_before_def place_def msg_fits_def Let_def)
  next
    case norm: False
    have p: "prio bp = ?b" "?b < 256" using norm fits(1) by (auto simp: prio_def msg_fits_def)
    have cls: "queclass bp \<noteq> QPCTL" using norm by (simp add: is_pctl_queclass QPCTL_def)
    have t: "queclass bp < queclass (last ?ms) \<or> ?b < b_band (last ?ms) \<longleftrightarrow> prio bp < prio (last ?ms)"
      using norm fl fits by (auto simp: is_pctl_queclass prio_def msg_fits_def)
    have scan: "scan_insert is_pctl (\<lambda>m. b_band m > ?b) bp ?ms = Inr (ins_before bp ?ms)" if "\<not> prio bp < prio (last ?ms)"
      unfolding ins_before_def p(1) using that p by (intro scan_insert_pctl l ne) (auto simp: prio_def)
    show ?thesis
    proof (cases "?b = 0")
      case True
      then show ?thesis using ne cls t scan before_all [of ?ms bp] l(2)
        by (cases "prio bp < prio (last ?ms)") (simp_all add: putbq_place_def place_def Let_def)
    next
      case False
      note qb = q_ok_band [OF ok, of ?b]
      have b: "0 < ?b" using False by simp
      define hi mid lo where "hi = takeWhile (\<lambda>m. prio m > ?b) ?ms" and "mid = in_band ?b ?ms" and "lo = dropWhile (\<lambda>m. prio m \<ge> ?b) ?ms"
      note sp = band_split [OF lok b p(2), folded hi_def mid_def lo_def]
      have ins: "ins_before bp ?ms = hi @ bp # mid @ lo" by (simp add: ins_before_def p(1) sp(3) hi_def [symmetric])
      have "in_band ?b mid = mid" by (simp add: mid_def in_band_def)
      then have one: "in_band ?b (ins_before bp ?ms) = bp # mid" using sp(4,5) by (simp add: ins in_band_Cons)
      show ?thesis
      proof (cases mid)
        case Nil
        then have "in_band ?b ?ms = []" by (simp add: mid_def)
        then show ?thesis
          using ne False cls t scan qb fits Nil one before_all [of ?ms bp] l(2) place_single [of bp q "ins_before bp ?ms"]
          by (cases "prio bp < prio (last ?ms)") (simp_all add: putbq_place_def Let_def hd_ids set_both)
      next
        case (Cons m mid')
        then have e: "?ms = hi @ m # mid' @ lo" using sp(1) by simp
        have "distinct (map b_id (hi @ m # mid' @ lo))" using l(1) by (simp only: e [symmetric])
        then have "split_id (b_id m) ?ms = Some (hi, m, mid' @ lo)" by (subst e) (rule split_id_found)
        moreover have "qb_first (q_bandp q ! (?b - 1)) = Some (b_id m)" "qb_last (q_bandp q ! (?b - 1)) = last_id mid"
          using qb(1,2) b fits(2) Cons by (simp_all add: mid_def [symmetric] hd_ids)
        moreover have "last_id (bp # mid) = last_id mid" using Cons by (simp add: last_id_def)
        ultimately show ?thesis
          using ne False cls one qb(3) b fits(2) unfolding ins
          by (simp add: putbq_place_def place_def Let_def set_first_def upd_band_def qband_keep_last hd_ids(3) del: in_band_append) (simp add: Cons)
      qed
    qed
  qed
qed

section \<open>Taking messages out\<close>

lemma prio_band: "msg_fits m \<Longrightarrow> 0 < b \<Longrightarrow> b < 256 \<Longrightarrow> prio m = b \<longleftrightarrow> b_band m = b"
  by (auto simp: prio_def msg_fits_def)

lemma hd_band:
  assumes "q_sorted (mp # post)" "\<forall>m \<in> set (mp # post). msg_fits m" "0 < b_band mp"
  shows "first_id (in_band (b_band mp) post) = (if post \<noteq> [] \<and> b_band mp = b_band (hd post) then Some (b_id (hd post)) else None)"
proof (cases post)
  case (Cons x xs)
  have b: "b_band mp < 256" using assms(2) by (simp add: msg_fits_def)
  have "in_band (b_band mp) xs = []" if "b_band x \<noteq> b_band mp"
  proof -
    have "prio x < b_band mp"
      using that assms Cons b prio_band [of x "b_band mp"] prio_band [of mp "b_band mp"] by (auto simp: q_sorted_Cons)
    then have "prio y < b_band mp" if "y \<in> set xs" for y using that assms(1) Cons by (auto simp: q_sorted_Cons)
    then show ?thesis using assms(2,3) Cons b prio_band [of _ "b_band mp"] by (fastforce simp: in_band_def filter_empty_conv)
  qed
  then show ?thesis using Cons by (auto simp: in_band_Cons hd_ids)
qed (simp add: hd_ids)

lemma last_band:
  assumes "q_sorted (pre @ [mp])" "\<forall>m \<in> set (pre @ [mp]). msg_fits m" "0 < b_band mp"
  shows "last_id (in_band (b_band mp) pre) = (if pre \<noteq> [] \<and> b_band mp = b_band (last pre) then Some (b_id (last pre)) else None)"
proof (cases pre rule: rev_cases)
  case (snoc xs x)
  have b: "b_band mp < 256" using assms(2) by (simp add: msg_fits_def)
  have "in_band (b_band mp) xs = []" if "b_band x \<noteq> b_band mp"
  proof -
    have "prio x > b_band mp"
      using that assms snoc b prio_band [of x "b_band mp"] prio_band [of mp "b_band mp"] by (auto simp: q_sorted_append q_sorted_Cons)
    then have "prio y > b_band mp" if "y \<in> set xs" for y using that assms(1) snoc by (fastforce simp: q_sorted_append)
    then show ?thesis using assms(2,3) snoc b prio_band [of _ "b_band mp"] by (fastforce simp: in_band_def filter_empty_conv)
  qed
  then show ?thesis using snoc by (auto simp: in_band_Cons hd_ids)
qed (simp add: hd_ids)

lemma fix_band_eq:
  assumes "qb_first qb = first_id (A @ mp # B)" "qb_last qb = last_id (A @ mp # B)"
    "b_id mp \<notin> b_id ` set A" "b_id mp \<notin> b_id ` set B"
  shows "(let qb1 = (if qb_first qb = Some (b_id mp) then qb\<lparr>qb_first := first_id B\<rparr> else qb)
          in if qb_last qb1 = Some (b_id mp) then qb1\<lparr>qb_last := last_id A\<rparr> else qb1)
    = (qb :: qband)\<lparr>qb_first := first_id (A @ B), qb_last := last_id (A @ B)\<rparr>"
proof -
  have first: "qb_first qb = Some (b_id mp) \<longleftrightarrow> A = []" "A \<noteq> [] \<Longrightarrow> qb_first qb = first_id (A @ B)"
    using assms(1,3) by (cases A; auto simp: hd_ids)+
  have last: "qb_last qb = Some (b_id mp) \<longleftrightarrow> B = []" "B \<noteq> [] \<Longrightarrow> qb_last qb = last_id (A @ B)"
    using assms(2,4) by (cases B rule: rev_cases; auto simp: last_id_def)+
  show ?thesis
    using first last by (cases "A = []"; cases "B = []") (simp_all add: Let_def qband_keep_first qband_keep_last hd_ids)
qed

lemma upd_band_cong: "f (q_bandp q ! (b - 1)) = g (q_bandp q ! (b - 1)) \<Longrightarrow> upd_band b f q = upd_band b g q"
  by (simp add: upd_band_def)

lemma upd_band_list: "(upd_band b f q)\<lparr>q_list := ms\<rparr> = upd_band b f (q\<lparr>q_list := ms\<rparr>)"
  by (cases q) (simp add: upd_band_def)

lemma rmvq_noenab_eq:
  assumes ok: "q_ok q" and ms: "q_list q = pre @ mp # post"
  shows "rmvq_noenab (b_id mp) q = Inr (q_uncount mp (place mp (pre @ post) q))"
proof -
  have lok: "list_ok (q_nband q) (pre @ mp # post)" using ok ms by (simp add: q_ok_def)
  note l = list_okD [OF lok]
  show ?thesis
  proof (cases "b_band mp = 0")
    case True
    then show ?thesis using ms split_id_found [OF l(1)] by (simp add: rmvq_noenab_def place_def Let_def)
  next
    case False
    let ?b = "b_band mp" and ?qb = "q_bandp q ! (b_band mp - 1)"
    have nb: "?b \<le> q_nband q" using lok by (simp add: list_ok_def)
    note qb = q_ok_band [OF ok _ nb]
    have A: "qb_first ?qb = first_id (in_band ?b pre @ mp # in_band ?b post)" "qb_last ?qb = last_id (in_band ?b pre @ mp # in_band ?b post)"
      using qb(1,2) False ms by (simp_all add: in_band_Cons)
    have n: "b_id mp \<notin> b_id ` set (in_band ?b pre)" "b_id mp \<notin> b_id ` set (in_band ?b post)"
      using l(1) by (auto simp: in_band_def)
    have h: "first_id (in_band ?b post) = (if post \<noteq> [] \<and> ?b = b_band (hd post) then Some (b_id (hd post)) else None)"
      by (rule hd_band) (use l(2,3) False in \<open>simp_all add: q_sorted_append\<close>)
    have t: "last_id (in_band ?b pre) = (if pre \<noteq> [] \<and> ?b = b_band (last pre) then Some (b_id (last pre)) else None)"
      by (rule last_band) (use l(2,3) False in \<open>simp_all add: q_sorted_append q_sorted_Cons\<close>)
    have "rmvq_band pre mp post ?qb = ?qb\<lparr>qb_first := first_id (in_band ?b (pre @ post)), qb_last := last_id (in_band ?b (pre @ post))\<rparr>"
      unfolding rmvq_band_def in_band_append using fix_band_eq [OF A n, unfolded h t] .
    then have "upd_band ?b (rmvq_band pre mp post) (q\<lparr>q_list := pre @ post\<rparr>) = place mp (pre @ post) q"
      using False unfolding place_def by (simp only: if_True not_False_eq_True) (intro upd_band_cong, simp)
    then show ?thesis using False ms split_id_found [OF l(1)]
      by (simp add: rmvq_noenab_def upd_band_list Let_def)
  qed
qed

lemma getq_noenab_eq:
  assumes ok: "q_ok q" and ms: "q_list q = bp # rest" and get: "b_flag bp AND MSGNOGET = 0"
  shows "getq_noenab q = Inr (Some bp, q_clr QWANTR (q_uncount bp (place bp rest q)))"
proof -
  have lok: "list_ok (q_nband q) (bp # rest)" using ok ms by (simp add: q_ok_def)
  note l = list_okD [OF lok]
  show ?thesis
  proof (cases "b_band bp = 0")
    case True
    then show ?thesis using ms get by (simp add: getq_noenab_def place_def Let_def)
  next
    case False
    let ?b = "b_band bp" and ?qb = "q_bandp q ! (b_band bp - 1)" and ?B = "in_band (b_band bp) rest"
    have nb: "?b \<le> q_nband q" using lok by (simp add: list_ok_def)
    have A: "qb_first ?qb = Some (b_id bp)" "qb_last ?qb = last_id (bp # ?B)"
      using q_ok_band(1,2) [OF ok _ nb] False ms by (simp_all add: in_band_Cons hd_ids)
    have "b_id bp \<notin> b_id ` set ?B" using l(1) by (auto simp: in_band_def)
    then have one: "qb_first ?qb = qb_last ?qb \<longleftrightarrow> ?B = []" "?B \<noteq> [] \<Longrightarrow> qb_last ?qb = last_id ?B"
      unfolding A by (cases ?B rule: rev_cases; auto simp: last_id_def)+
    have h: "first_id ?B = (if rest \<noteq> [] \<and> ?b = b_band (hd rest) then Some (b_id (hd rest)) else None)"
      by (rule hd_band) (use l(2,3) False in \<open>simp_all\<close>)
    have "getq_band rest ?qb = ?qb\<lparr>qb_first := first_id ?B, qb_last := last_id ?B\<rparr>"
    proof (cases "?B = []")
      case True
      then show ?thesis using one(1) by (simp add: getq_band_def hd_ids)
    next
      case False
      then have "first_id ?B = (case rest of [] \<Rightarrow> None | m # _ \<Rightarrow> Some (b_id m))"
        using h by (cases rest) (auto simp: hd_ids first_id_def split: if_splits)
      then show ?thesis using False one by (simp add: getq_band_def qband_keep_last)
    qed
    then have "upd_band ?b (getq_band rest) (q\<lparr>q_list := rest\<rparr>) = place bp rest q"
      using False by (simp add: place_def upd_band_def)
    then show ?thesis using False ms get by (simp add: getq_noenab_def Let_def)
  qed
qed

section \<open>The operations keep the invariant\<close>

lemma count_add_u32: "count_add (u32 n) bp = u32 (n + msg_bytes bp)"
proof -
  have "foldl uadd (u32 n) xs = u32 (n + sum_list xs)" for xs
  proof (induction xs arbitrary: n)
    case (Cons x xs)
    have "uadd (u32 n) x = u32 (n + x)" by (simp add: uadd_def u32_def mod_add_left_eq)
    then show ?case using Cons [of "n + x"] by (simp add: add.assoc)
  qed simp
  then show ?thesis by (simp add: count_add_def msg_bytes_def)
qed

lemma count_sub_u32:
  assumes "msg_fits bp"
  shows "count_sub (u32 (n + msg_bytes bp)) bp = u32 n"
proof -
  have "foldl usub (u32 (n + sum_list xs)) xs = u32 n" if "\<forall>x \<in> set xs. x < 2 ^ 32" for xs
    using that
  proof (induction xs arbitrary: n)
    case (Cons x xs)
    have "usub (u32 (n + x + sum_list xs)) x = u32 (n + sum_list xs)"
      using usub_u32 [of x "n + sum_list xs"] Cons.prems by (simp add: ac_simps)
    then show ?case using Cons by (simp add: ac_simps)
  qed simp
  then show ?thesis using assms by (simp add: count_sub_def msg_bytes_def msg_fits_def)
qed

text \<open>What the invariant depends on.\<close>

definition q_core :: "queue \<Rightarrow> mblk list \<times> nat \<times> nat \<times> (nat option \<times> nat option \<times> nat) list" where
  "q_core q = (q_list q, q_count q, q_nband q, map (\<lambda>qb. (qb_first qb, qb_last qb, qb_count qb)) (q_bandp q))"

lemma q_ok_core:
  assumes "q_core q = q_core q'" "q_ok q"
  shows "q_ok q'"
proof -
  have c: "q_list q' = q_list q" "q_count q' = q_count q" "q_nband q' = q_nband q"
    "map (\<lambda>qb. (qb_first qb, qb_last qb, qb_count qb)) (q_bandp q') = map (\<lambda>qb. (qb_first qb, qb_last qb, qb_count qb)) (q_bandp q)"
    using assms(1) by (simp_all add: q_core_def)
  have len: "length (q_bandp q') = length (q_bandp q)" using c(4) by (rule map_eq_imp_length_eq)
  have "band_ok ms b (q_bandp q' ! i) = band_ok ms b (q_bandp q ! i)" if "i < length (q_bandp q)" for i ms b
  proof -
    have "(\<lambda>qb. (qb_first qb, qb_last qb, qb_count qb)) (q_bandp q' ! i) = (\<lambda>qb. (qb_first qb, qb_last qb, qb_count qb)) (q_bandp q ! i)"
      using c(4) that len by (metis (no_types, lifting) nth_map)
    then show ?thesis by (simp add: band_ok_def)
  qed
  then show ?thesis using assms(2) c len by (auto simp: q_ok_def)
qed

lemma q_core_simps [simp]:
  "q_core (q_set f q) = q_core q" "q_core (q_clr f q) = q_core q" "q_core (q_log e q) = q_core q" "q_core (qenable_locked q) = q_core q"
  by (simp_all add: q_core_def q_set_def q_clr_def q_log_def qenable_locked_def Let_def)

lemma q_core_flag:
  "q_core (upd_band b (\<lambda>qb. qb\<lparr>qb_flag := f qb\<rparr>) q) = q_core q"
  by (simp add: q_core_def upd_band_def map_update)
     (metis (no_types, lifting) list_update_beyond list_update_id map_update not_le_imp_less nth_map)

lemma q_core_backenable [simp]: "q_core (qbackenable b q) = q_core q"
  by (simp add: qbackenable_def Let_def q_core_flag)

text \<open>Another list, the byte count of one band adjusted to it.\<close>

definition recount :: "nat \<Rightarrow> queue \<Rightarrow> queue \<Rightarrow> bool" where
  "recount b q q' \<longleftrightarrow> q_list q' = q_list q \<and> q_nband q' = q_nband q \<and> length (q_bandp q') = length (q_bandp q)
     \<and> q_count q' = (if b = 0 then u32 (band_bytes 0 (q_list q)) else q_count q)
     \<and> (\<forall>i < length (q_bandp q). let x = q_bandp q ! i; y = q_bandp q' ! i in
          qb_first y = qb_first x \<and> qb_last y = qb_last x
          \<and> qb_count y = (if b \<noteq> 0 \<and> i = b - 1 then u32 (band_bytes b (q_list q)) else qb_count x))"

lemma q_ok_place:
  assumes ok: "q_ok q" and lok: "list_ok (q_nband q) ms" and b: "b_band bp \<le> q_nband q"
    and other: "\<And>c. c \<noteq> b_band bp \<Longrightarrow> in_band c ms = in_band c (q_list q)"
    and re: "recount (b_band bp) (place bp ms q) q'"
  shows "q_ok q'"
proof -
  have o: "length (q_bandp q) = q_nband q" "q_nband q < 256" "q_count q = u32 (band_bytes 0 (q_list q))"
    "\<And>c. 0 < c \<Longrightarrow> c \<le> q_nband q \<Longrightarrow> band_ok (q_list q) c (q_bandp q ! (c - 1))"
    using ok by (simp_all add: q_ok_def)
  have p: "q_list (place bp ms q) = ms" "q_nband (place bp ms q) = q_nband q" "length (q_bandp (place bp ms q)) = length (q_bandp q)"
    "q_count (place bp ms q) = q_count q" by (simp_all add: place_def upd_band_def)
  have bytes: "band_bytes c ms = band_bytes c (q_list q)" if "c \<noteq> b_band bp" for c using other [OF that] by (simp add: band_bytes_def)
  have "band_ok ms c (q_bandp q' ! (c - 1))" if c: "0 < c" "c \<le> q_nband q" for c
  proof -
    have i: "c - 1 < length (q_bandp q)" using c o(1) by simp
    have r: "qb_first (q_bandp q' ! (c - 1)) = qb_first (q_bandp (place bp ms q) ! (c - 1))"
      "qb_last (q_bandp q' ! (c - 1)) = qb_last (q_bandp (place bp ms q) ! (c - 1))"
      "qb_count (q_bandp q' ! (c - 1)) = (if b_band bp = c then u32 (band_bytes c ms) else qb_count (q_bandp (place bp ms q) ! (c - 1)))"
      using re i p c by (auto simp: recount_def Let_def)
    show ?thesis
    proof (cases "b_band bp = c")
      case True
      then show ?thesis using r i c by (simp add: band_ok_def place_def upd_band_def)
    next
      case False
      then have "q_bandp (place bp ms q) ! (c - 1) = q_bandp q ! (c - 1)" using c by (auto simp: place_def upd_band_def)
      then show ?thesis using r False o(4) [OF c] other [of c] bytes [of c] by (simp add: band_ok_def)
    qed
  qed
  then show ?thesis using re p o lok bytes [of 0] by (auto simp: q_ok_def recount_def)
qed

lemma place_fields:
  "q_list (place bp ms q) = ms" "q_nband (place bp ms q) = q_nband q" "length (q_bandp (place bp ms q)) = length (q_bandp q)"
  "q_count (place bp ms q) = q_count q" "qb_count (q_bandp (place bp ms q) ! i) = qb_count (q_bandp q ! i)"
proof -
  show "qb_count (q_bandp (place bp ms q) ! i) = qb_count (q_bandp q ! i)"
    by (cases "b_band bp - 1 < length (q_bandp q)"; cases "i = b_band bp - 1") (simp_all add: place_def upd_band_def list_update_beyond)
qed (simp_all add: place_def upd_band_def)

lemma recount_upd:
  assumes "b \<noteq> 0" "b \<le> length (q_bandp q)"
    and "\<And>qb. qb_first (f qb) = qb_first qb" "\<And>qb. qb_last (f qb) = qb_last qb"
    and "qb_count (f (q_bandp q ! (b - 1))) = u32 (band_bytes b (q_list q))"
  shows "recount b q (upd_band b f q)"
  using assms by (auto simp: recount_def upd_band_def Let_def nth_list_update)

lemma recount_zero:
  "q_count q' = u32 (band_bytes 0 (q_list q)) \<Longrightarrow> q_list q' = q_list q \<Longrightarrow> q_nband q' = q_nband q \<Longrightarrow> q_bandp q' = q_bandp q
   \<Longrightarrow> recount 0 q q'"
  by (simp add: recount_def Let_def)

lemma q_ok_count:
  "q_ok q \<Longrightarrow> b_band bp \<le> q_nband q
   \<Longrightarrow> (if b_band bp = 0 then q_count q else qb_count (q_bandp q ! (b_band bp - 1))) = u32 (band_bytes (b_band bp) (q_list q))"
  by (auto simp: q_ok_def band_ok_def)

lemma q_ok_in:
  assumes ok: "q_ok q" and ms: "q_list q = pre @ post" and lok: "list_ok (q_nband q) (pre @ bp # post)"
  shows "q_ok (q_count_in bp (place bp (pre @ bp # post) q))"
proof (rule q_ok_place [OF ok lok])
  let ?q = "place bp (pre @ bp # post) q" and ?b = "b_band bp"
  show b: "?b \<le> q_nband q" using lok by (simp add: list_ok_def)
  show "in_band c (pre @ bp # post) = in_band c (q_list q)" if "c \<noteq> ?b" for c using that ms by (simp add: in_band_Cons)
  have len: "?b \<le> length (q_bandp ?q)" using b ok by (simp add: place_fields q_ok_def)
  have n: "u32 (band_bytes ?b (pre @ bp # post)) = count_add (u32 (band_bytes ?b (q_list q))) bp"
    using ms by (simp add: count_add_u32 ac_simps)
  show "recount ?b ?q (q_count_in bp ?q)"
  proof (cases "?b = 0")
    case True
    have "recount 0 ?q (q_count_in bp ?q)"
      using True n q_ok_count [OF ok b] by (intro recount_zero) (simp_all add: q_count_in_def Let_def q_set_def place_fields)
    then show ?thesis using True by simp
  next
    case False
    then show ?thesis using n q_ok_count [OF ok b] len unfolding q_count_in_def
      by (simp only: if_True not_False_eq_True) (intro recount_upd, simp_all add: Let_def place_fields)
  qed
qed

lemma q_ok_out:
  assumes ok: "q_ok q" and ms: "q_list q = pre @ mp # post"
  shows "q_ok (q_uncount mp (place mp (pre @ post) q))"
proof (rule q_ok_place [OF ok])
  let ?q = "place mp (pre @ post) q" and ?b = "b_band mp"
  have lok: "list_ok (q_nband q) (pre @ mp # post)" using ok ms by (simp add: q_ok_def)
  then show "list_ok (q_nband q) (pre @ post)" by (auto simp: list_ok_def q_sorted_append q_sorted_Cons)
  show b: "?b \<le> q_nband q" using lok by (simp add: list_ok_def)
  show "in_band c (pre @ post) = in_band c (q_list q)" if "c \<noteq> ?b" for c using that ms by (simp add: in_band_Cons)
  have len: "?b \<le> length (q_bandp ?q)" using b ok by (simp add: place_fields q_ok_def)
  have n: "u32 (band_bytes ?b (pre @ post)) = count_sub (u32 (band_bytes ?b (q_list q))) mp"
    using ms lok count_sub_u32 [of mp "band_bytes ?b (pre @ post)"] by (simp add: ac_simps list_ok_def)
  show "recount ?b ?q (q_uncount mp ?q)"
  proof (cases "?b = 0")
    case True
    have "recount 0 ?q (q_uncount mp ?q)"
      using True n q_ok_count [OF ok b] by (intro recount_zero) (simp_all add: q_uncount_def Let_def q_clr_def place_fields)
    then show ?thesis using True by simp
  next
    case False
    then show ?thesis using n q_ok_count [OF ok b] len unfolding q_uncount_def
      by (simp only: if_False) (intro recount_upd, simp_all add: Let_def place_fields)
  qed
qed

text \<open>The same bands, the same messages in the same places, whatever the flags and the log say.\<close>

lemma q_core_fields: "q_core q = q_core q' \<Longrightarrow> q_list q = q_list q' \<and> q_nband q = q_nband q'"
  by (simp add: q_core_def)

lemma q_ok_simps [simp]:
  "q_ok (q_set f q) = q_ok q" "q_ok (q_clr f q) = q_ok q" "q_ok (q_log e q) = q_ok q" "q_ok (qenable_locked q) = q_ok q"
  "q_ok (qbackenable b q) = q_ok q" "q_ok (upd_band b (\<lambda>qb. qb\<lparr>qb_flag := g qb\<rparr>) q) = q_ok q"
  by (rule iffI; erule q_ok_core [rotated]; simp add: q_core_flag)+

lemma q_list_simps [simp]:
  "q_list (q_set f q) = q_list q" "q_list (q_clr f q) = q_list q" "q_list (q_log e q) = q_list q" "q_list (qenable_locked q) = q_list q"
  "q_list (qbackenable b q) = q_list q" "q_list (upd_band b g q) = q_list q" "q_list (q_count_in bp q) = q_list q" "q_list (q_uncount bp q) = q_list q"
  "q_list (place bp ms q) = ms"
  using q_core_simps q_core_backenable
  by (simp_all add: q_core_def upd_band_def q_count_in_def q_uncount_def Let_def q_set_def q_clr_def place_fields)

lemma q_nband_simps [simp]:
  "q_nband (q_set f q) = q_nband q" "q_nband (q_clr f q) = q_nband q" "q_nband (q_log e q) = q_nband q" "q_nband (qenable_locked q) = q_nband q"
  "q_nband (qbackenable b q) = q_nband q" "q_nband (upd_band b g q) = q_nband q" "q_nband (q_count_in bp q) = q_nband q" "q_nband (q_uncount bp q) = q_nband q"
  "q_nband (place bp ms q) = q_nband q"
  using q_core_simps q_core_backenable
  by (simp_all add: q_core_def upd_band_def q_count_in_def q_uncount_def Let_def q_set_def q_clr_def place_fields)

text \<open>Allocating bands.\<close>

lemma q_ok_new_band:
  assumes "q_ok q" "q_nband q + 1 < 256"
  shows "q_ok (q\<lparr>q_bandp := q_bandp q @ [allocband h l], q_nband := q_nband q + 1\<rparr>)"
proof -
  have none: "in_band (q_nband q + 1) (q_list q) = []"
    using assms(1) by (auto simp: q_ok_def list_ok_def in_band_def filter_empty_conv)
  have "band_ok (q_list q) b ((q_bandp q @ [allocband h l]) ! (b - 1))" if "0 < b" "b \<le> q_nband q + 1" for b
  proof (cases "b \<le> q_nband q")
    case True
    then have "b - 1 < q_nband q" using that by simp
    then show ?thesis using assms(1) that True by (simp add: q_ok_def nth_append)
  next
    case False
    then have "b = q_nband q + 1" using that by simp
    then show ?thesis using assms(1) none by (simp add: q_ok_def nth_append band_ok_def allocband_def first_id_def last_id_def band_bytes_def u32_def)
  qed
  then show ?thesis using assms by (auto simp: q_ok_def list_ok_def)
qed

lemma alloc_bands_ok:
  assumes "q_ok q" "band < 256" "alloc_bands avail band q = (ok, q')"
  shows "q_ok q' \<and> q_list q' = q_list q \<and> (ok \<longleftrightarrow> band \<le> q_nband q + avail) \<and> (ok \<longrightarrow> band \<le> q_nband q')
    \<and> (band \<le> q_nband q \<longrightarrow> q' = q)"
  using assms
proof (induction avail arbitrary: q)
  case 0
  then show ?case by (subst (asm) alloc_bands.simps) (auto split: if_splits)
next
  case (Suc k)
  show ?case
  proof (cases "band > q_nband q")
    case True
    let ?q = "q\<lparr>q_bandp := q_bandp q @ [allocband (q_hiwat q) (q_lowat q)], q_nband := q_nband q + 1\<rparr>"
    have "q_ok ?q" using Suc.prems True by (intro q_ok_new_band) simp_all
    moreover have "alloc_bands k band ?q = (ok, q')" using Suc.prems(3) True by (subst (asm) alloc_bands.simps) simp
    ultimately show ?thesis using Suc.IH [of ?q] Suc.prems(2) True by auto
  next
    case False
    then show ?thesis using Suc.prems by (subst (asm) alloc_bands.simps) auto
  qed
qed

lemma list_ok_add:
  assumes "list_ok n (pre @ post)" "msg_fits bp" "b_band bp \<le> n" "b_id bp \<notin> b_id ` set (pre @ post)"
    and "\<forall>x \<in> set pre. prio bp \<le> prio x" "\<forall>y \<in> set post. prio y \<le> prio bp"
  shows "list_ok n (pre @ bp # post)"
  using assms by (auto simp: list_ok_def q_sorted_append q_sorted_Cons)

lemma q_sorted_low:
  "q_sorted ms \<Longrightarrow> \<forall>y \<in> set (dropWhile (\<lambda>m. prio m \<ge> p) ms). prio y \<le> p"
  "q_sorted ms \<Longrightarrow> \<forall>y \<in> set (dropWhile (\<lambda>m. prio m > p) ms). prio y \<le> p"
  by (induction ms) (auto simp: q_sorted_Cons)

lemma list_ok_ins:
  assumes "list_ok n ms" "msg_fits bp" "b_band bp \<le> n" "b_id bp \<notin> b_id ` set ms"
  shows "list_ok n (ins_after bp ms)" "list_ok n (ins_before bp ms)"
  using assms q_sorted_low [OF list_okD(2) [OF assms(1)], of "prio bp"] unfolding ins_after_def ins_before_def
  by (auto intro!: list_ok_add dest: set_takeWhileD simp del: set_append)

section \<open>The operations on a well formed queue\<close>

lemma put_band_simps [simp]: "b_id (put_band bp) = b_id bp" "is_pctl (put_band bp) = is_pctl bp" "b_sizes (put_band bp) = b_sizes bp"
  "b_band (put_band bp) = (if is_pctl bp then 0 else b_band bp)" "prio (put_band bp) = prio bp"
  by (auto simp: put_band_def is_pctl_def queclass_def QPCTL_def QNORM_def prio_def)

definition sized :: "mblk \<Rightarrow> bool" where
  "sized bp \<longleftrightarrow> b_band bp < 256 \<and> (\<forall>n \<in> set (b_sizes bp). n < 2 ^ 32)"

lemma put_band_fits: "sized bp \<Longrightarrow> msg_fits (put_band bp)"
  by (simp add: msg_fits_def sized_def)

lemma q_ok_list: "q_ok q \<Longrightarrow> list_ok (q_nband q) (q_list q)"
  by (simp add: q_ok_def)

text \<open>\<open>putq\<close>: memory for the missing bands decides whether it succeeds; then the message is in its place.\<close>

lemma putq_result:
  assumes ok: "q_ok q" and bp: "sized bp" "b_id bp \<notin> b_id ` set (q_list q)"
  shows "\<exists>q'. putq avail bp q = Inr (b_band (put_band bp) \<le> q_nband q + avail, q') \<and> q_ok q'
    \<and> q_list q' = (if b_band (put_band bp) \<le> q_nband q + avail then ins_after (put_band bp) (q_list q) else q_list q)"
proof -
  let ?bp = "put_band bp"
  obtain k q1 where a: "alloc_bands avail (b_band ?bp) q = (k, q1)" by fastforce
  have fit: "msg_fits ?bp" by (rule put_band_fits [OF bp(1)])
  then have "b_band ?bp < 256" by (simp add: msg_fits_def)
  note A = alloc_bands_ok [OF ok this a]
  show ?thesis
  proof (cases k)
    case True
    then have nb: "b_band ?bp \<le> q_nband q1" using A by simp
    have p: "putq_place ?bp q1 = Inr (place ?bp (ins_after ?bp (q_list q1)) q1)" by (rule putq_place_ok) (use A fit nb in simp_all)
    have "list_ok (q_nband q1) (ins_after ?bp (q_list q1))" by (rule list_ok_ins(1)) (use A fit nb bp q_ok_list [of q1] in simp_all)
    then have "q_ok (q_count_in ?bp (place ?bp (ins_after ?bp (q_list q1)) q1))"
      unfolding ins_after_def using A by (intro q_ok_in) simp_all
    then show ?thesis using a p A True by (simp add: putq_def Let_def)
  next
    case False
    then show ?thesis using a A by (simp add: putq_def Let_def)
  qed
qed

lemma putbq_result:
  assumes ok: "q_ok q" and bp: "sized bp" "b_id bp \<notin> b_id ` set (q_list q)"
  shows "\<exists>q'. putbq avail bp q = Inr (b_band (put_band bp) \<le> q_nband q + avail, q') \<and> q_ok q'
    \<and> q_list q' = (if b_band (put_band bp) \<le> q_nband q + avail then ins_before (put_band bp) (q_list q) else q_list q)"
proof -
  let ?bp = "put_band bp"
  obtain k q1 where a: "alloc_bands avail (b_band ?bp) q = (k, q1)" by fastforce
  have fit: "msg_fits ?bp" by (rule put_band_fits [OF bp(1)])
  then have "b_band ?bp < 256" by (simp add: msg_fits_def)
  note A = alloc_bands_ok [OF ok this a]
  show ?thesis
  proof (cases k)
    case True
    then have nb: "b_band ?bp \<le> q_nband q1" using A by simp
    have p: "putbq_place ?bp q1 = Inr (place ?bp (ins_before ?bp (q_list q1)) q1)" by (rule putbq_place_ok) (use A fit nb in simp_all)
    have "list_ok (q_nband q1) (ins_before ?bp (q_list q1))" by (rule list_ok_ins(2)) (use A fit nb bp q_ok_list [of q1] in simp_all)
    then have "q_ok (q_count_in ?bp (place ?bp (ins_before ?bp (q_list q1)) q1))"
      unfolding ins_before_def using A by (intro q_ok_in) simp_all
    then show ?thesis using a p A True by (simp add: putbq_def Let_def)
  next
    case False
    then show ?thesis using a A by (simp add: putbq_def Let_def)
  qed
qed

text \<open>\<open>rmvq\<close> and \<open>getq\<close>.\<close>

lemma rmvq_result:
  assumes ok: "q_ok q" and ms: "q_list q = pre @ mp # post"
  shows "\<exists>q'. rmvq (b_id mp) q = Inr q' \<and> q_ok q' \<and> q_list q' = pre @ post \<and> q_nband q' = q_nband q"
proof -
  have "distinct (map b_id (pre @ mp # post))" using list_okD(1) [OF q_ok_list [OF ok]] ms by simp
  then show ?thesis using rmvq_noenab_eq [OF ok ms] q_ok_out [OF ok ms] ms
    by (simp add: rmvq_def split_id_found)
qed

definition gettable :: "mblk \<Rightarrow> bool" where
  "gettable m \<longleftrightarrow> b_flag m AND MSGNOGET = 0"

lemma getq_noenab_skip:
  assumes ok: "q_ok q" and ms: "q_list q = pre @ bp # post" and pre: "pre \<noteq> []" "\<forall>m \<in> set pre. \<not> gettable m" and get: "gettable bp"
  shows "getq_noenab q = Inr (Some bp, q_uncount bp (place bp (pre @ post) q))"
proof -
  obtain m pre' where p: "pre = m # pre'" using pre(1) by (cases pre) auto
  have "dropWhile (\<lambda>m. b_flag m AND MSGNOGET \<noteq> 0) (pre @ bp # post) = bp # post"
    using pre(2) get by (simp add: dropWhile_append3 gettable_def)
  then show ?thesis using ms p pre(2) rmvq_noenab_eq [OF ok ms] by (simp add: getq_noenab_def gettable_def)
qed

lemma getq_noenab_none:
  assumes "\<forall>m \<in> set (q_list q). \<not> gettable m"
  shows "getq_noenab q = Inr (None, if q_list q = [] then q_set QWANTR q else q)"
proof -
  have "dropWhile (\<lambda>m. b_flag m AND MSGNOGET \<noteq> 0) (q_list q) = []" "q_list q \<noteq> [] \<Longrightarrow> b_flag (hd (q_list q)) AND MSGNOGET \<noteq> 0"
    using assms by (simp_all add: gettable_def)
  then show ?thesis by (cases "q_list q") (simp_all add: getq_noenab_def del: dropWhile_eq_Nil_conv dropWhile.simps)
qed

lemma getq_noenab_result:
  assumes ok: "q_ok q"
  shows "(\<forall>m \<in> set (q_list q). \<not> gettable m) \<longrightarrow> (\<exists>q'. getq_noenab q = Inr (None, q') \<and> q_core q' = q_core q)"
    and "q_list q = pre @ bp # post \<longrightarrow> (\<forall>m \<in> set pre. \<not> gettable m) \<longrightarrow> gettable bp
      \<longrightarrow> (\<exists>q'. getq_noenab q = Inr (Some bp, q') \<and> q_core q' = q_core (q_uncount bp (place bp (pre @ post) q)))"
proof -
  show "(\<forall>m \<in> set (q_list q). \<not> gettable m) \<longrightarrow> (\<exists>q'. getq_noenab q = Inr (None, q') \<and> q_core q' = q_core q)"
    by (simp add: getq_noenab_none)
  show "q_list q = pre @ bp # post \<longrightarrow> (\<forall>m \<in> set pre. \<not> gettable m) \<longrightarrow> gettable bp
      \<longrightarrow> (\<exists>q'. getq_noenab q = Inr (Some bp, q') \<and> q_core q' = q_core (q_uncount bp (place bp (pre @ post) q)))"
    using getq_noenab_skip [OF ok, of pre bp post] getq_noenab_eq [OF ok, of bp post]
    by (cases "pre = []") (auto simp: gettable_def)
qed

lemma getq_core:
  "getq_noenab q = Inr (r, q1) \<Longrightarrow> \<exists>q'. getq q = Inr (r, q') \<and> q_core q' = q_core q1"
  by (simp add: getq_def Let_def)

definition get_msg :: "mblk list \<Rightarrow> mblk option" where
  "get_msg ms = find gettable ms"

definition get_rest :: "mblk list \<Rightarrow> mblk list" where
  "get_rest ms = takeWhile (\<lambda>m. \<not> gettable m) ms @ tl (dropWhile (\<lambda>m. \<not> gettable m) ms)"

lemma get_msg_cases:
  obtains (none) "\<forall>m \<in> set ms. \<not> gettable m" "get_msg ms = None" "get_rest ms = ms"
  | (some) pre bp post where "ms = pre @ bp # post" "\<forall>m \<in> set pre. \<not> gettable m" "gettable bp" "get_msg ms = Some bp" "get_rest ms = pre @ post"
proof (cases "dropWhile (\<lambda>m. \<not> gettable m) ms")
  case Nil
  then have n: "\<forall>m \<in> set ms. \<not> gettable m" by simp
  then have "get_msg ms = None" by (simp add: get_msg_def find_None_iff)
  moreover have "get_rest ms = ms" using takeWhile_dropWhile_id [of "\<lambda>m. \<not> gettable m" ms] unfolding get_rest_def Nil by simp
  ultimately show ?thesis using n none by blast
next
  case (Cons bp post)
  let ?pre = "takeWhile (\<lambda>m. \<not> gettable m) ms"
  have ms: "ms = ?pre @ bp # post" using takeWhile_dropWhile_id [of "\<lambda>m. \<not> gettable m" ms] Cons by simp
  have g: "gettable bp" using hd_dropWhile [of "\<lambda>m. \<not> gettable m" ms] Cons by simp
  have "find gettable (xs @ bp # post) = Some bp" if "\<forall>m \<in> set xs. \<not> gettable m" for xs using that g by (induction xs) auto
  then have "get_msg ms = Some bp" using ms by (metis get_msg_def set_takeWhileD)
  moreover have "\<forall>m \<in> set ?pre. \<not> gettable m" by (auto dest: set_takeWhileD)
  moreover have "get_rest ms = ?pre @ post" using Cons by (simp add: get_rest_def)
  ultimately show ?thesis using some [OF ms _ g] by blast
qed

lemma getq_result:
  assumes ok: "q_ok q"
  shows "\<exists>q'. getq q = Inr (get_msg (q_list q), q') \<and> q_ok q' \<and> q_list q' = get_rest (q_list q) \<and> q_nband q' = q_nband q"
proof (cases rule: get_msg_cases [of "q_list q"])
  case none
  then obtain q1 where "getq_noenab q = Inr (None, q1)" "q_core q1 = q_core q" using getq_noenab_result(1) [OF ok] by blast
  then obtain q' where q': "getq q = Inr (None, q')" "q_core q' = q_core q" using getq_core by fastforce
  then show ?thesis using none ok q_ok_core [OF q'(2) [symmetric]] q_core_fields [OF q'(2)] by simp
next
  case (some pre bp post)
  then obtain q1 where "getq_noenab q = Inr (Some bp, q1)" "q_core q1 = q_core (q_uncount bp (place bp (pre @ post) q))"
    using getq_noenab_result(2) [OF ok] by blast
  then obtain q' where q': "getq q = Inr (Some bp, q')" "q_core q' = q_core (q_uncount bp (place bp (pre @ post) q))"
    using getq_core by fastforce
  then show ?thesis using some q_ok_out [OF ok some(1)] q_ok_core [OF q'(2) [symmetric]] q_core_fields [OF q'(2)] by simp
qed

text \<open>\<open>insq\<close>, when the place asked for is one that the order allows.\<close>

lemma insq_band_eq:
  assumes ok: "q_ok q" and ms: "q_list q = pre @ post" and lok: "list_ok (q_nband q) (pre @ mp # post)"
  shows "(let q1 = q\<lparr>q_list := pre @ mp # post\<rparr> in if b_band mp \<noteq> 0 then upd_band (b_band mp) (insq_band pre mp post) q1 else q1)
    = place mp (pre @ mp # post) q"
proof (cases "b_band mp = 0")
  case False
  let ?b = "b_band mp" and ?qb = "q_bandp q ! (b_band mp - 1)" and ?A = "in_band (b_band mp) pre" and ?B = "in_band (b_band mp) post"
  note l = list_okD [OF lok]
  have nb: "?b \<le> q_nband q" using lok by (simp add: list_ok_def)
  have qb: "qb_first ?qb = first_id (?A @ ?B)" "qb_last ?qb = last_id (?A @ ?B)"
    using q_ok_band(1,2) [OF ok _ nb] False ms by simp_all
  have h: "first_id ?B = (if post \<noteq> [] \<and> ?b = b_band (hd post) then Some (b_id (hd post)) else None)"
    by (rule hd_band) (use l(2,3) False in \<open>simp_all add: q_sorted_append\<close>)
  have t: "last_id ?A = (if pre \<noteq> [] \<and> ?b = b_band (last pre) then Some (b_id (last pre)) else None)"
    by (rule last_band) (use l(2,3) False in \<open>simp_all add: q_sorted_append q_sorted_Cons\<close>)
  have e: "?B = [] \<longleftrightarrow> post = [] \<or> b_band (hd post) \<noteq> ?b" "?A = [] \<longleftrightarrow> pre = [] \<or> b_band (last pre) \<noteq> ?b"
    using h t by (auto simp: first_id_def last_id_def split: if_splits)
  have "insq_band pre mp post ?qb = ?qb\<lparr>qb_first := first_id (?A @ mp # ?B), qb_last := last_id (?A @ mp # ?B)\<rparr>"
    unfolding insq_band_def e [symmetric] using qb
    by (cases "?A = []"; cases "?B = []") (auto simp: hd_ids first_id_def last_id_def qband_keep_last qband_keep_first)
  then have "insq_band pre mp post ?qb = ?qb\<lparr>qb_first := first_id (in_band ?b (pre @ mp # post)), qb_last := last_id (in_band ?b (pre @ mp # post))\<rparr>"
    by (simp add: in_band_Cons)
  then show ?thesis using False by (simp add: place_def upd_band_def Let_def)
qed (simp add: place_def)

definition insq_at :: "mblk list \<Rightarrow> mblk list \<Rightarrow> (mblk list \<times> mblk \<times> mblk list) option" where
  "insq_at pre post = (if post = [] then None else Some (pre, hd post, tl post))"

definition insq_enab :: "queue \<Rightarrow> queue" where
  "insq_enab q = (if canenable q \<and> qf q QWANTR then qenable_locked q else q)"

lemma insq_eq:
  assumes ok: "q_ok q" and ms: "q_list q = pre @ post" and emp: "emp = first_id post"
    and lok: "list_ok 255 (pre @ put_band mp # post)" and a: "alloc_bands avail (b_band (put_band mp)) q = (k, q1)"
  shows "insq avail emp mp q =
    (if insq_bad (insq_at pre post) (put_band mp) (q_list q) then Inr (False, q)
     else if \<not> k then Inr (False, q1)
     else Inr (True, insq_enab (q_count_in (put_band mp) (place (put_band mp) (pre @ put_band mp # post) q1))))"
    and "k \<Longrightarrow> list_ok (q_nband q1) (pre @ put_band mp # post)"
proof -
  let ?mp = "put_band mp" and ?at = "insq_at pre post"
  have "b_band ?mp < 256" using lok by (simp add: list_ok_def msg_fits_def)
  note A = alloc_bands_ok [OF ok this a]
  show lok1: "list_ok (q_nband q1) (pre @ ?mp # post)" if k using lok A that q_ok_list [of q1] ms by (auto simp: list_ok_def)
  have d: "distinct (map b_id (pre @ post))" using list_okD(1) [OF q_ok_list [OF ok]] ms by simp
  then have at: "(case emp of None \<Rightarrow> None | Some i \<Rightarrow> split_id i (q_list q)) = ?at"
    using emp ms split_id_found [of pre "hd post" "tl post"] by (cases post) (simp_all add: first_id_def insq_at_def)
  have ne: "\<not> (emp \<noteq> None \<and> (case emp of None \<Rightarrow> None | Some i \<Rightarrow> split_id i (q_list q)) = None)"
    unfolding at using emp by (auto simp: first_id_def insq_at_def)
  have q1: "q_list q1 = pre @ post" "q_ok q1" using A ms by simp_all
  have pq: "(case ?at of None \<Rightarrow> (q_list q, []) | Some (pre, e, post) \<Rightarrow> (pre, e # post)) = (pre, post)"
    using ms by (cases post) (simp_all add: insq_at_def)
  show "insq avail emp mp q =
    (if insq_bad ?at ?mp (q_list q) then Inr (False, q) else if \<not> k then Inr (False, q1)
     else Inr (True, insq_enab (q_count_in ?mp (place ?mp (pre @ ?mp # post) q1))))"
  proof (cases "insq_bad ?at ?mp (q_list q)")
    case True
    then show ?thesis unfolding insq_def Let_def using ne unfolding at [symmetric] by (simp only: if_False if_True)
  next
    case False
    show ?thesis
    proof (cases k)
      case True
      then show ?thesis using a False ne pq insq_band_eq [OF q1(2,1) lok1, symmetric]
        unfolding insq_def insq_enab_def at [symmetric] Let_def by (simp only: if_False split_conv simp_thms if_True)
    qed (use a False at ne in \<open>simp add: insq_def Let_def\<close>)
  qed
qed

lemma insq_result:
  assumes ok: "q_ok q" and ms: "q_list q = pre @ post" and emp: "emp = first_id post" and lok: "list_ok 255 (pre @ put_band mp # post)"
  shows "\<exists>r q'. insq avail emp mp q = Inr (r, q') \<and> q_ok q' \<and> q_list q' = (if r then pre @ put_band mp # post else q_list q)
    \<and> (r \<longleftrightarrow> \<not> insq_bad (insq_at pre post) (put_band mp) (q_list q) \<and> b_band (put_band mp) \<le> q_nband q + avail)"
proof -
  obtain k q1 where a: "alloc_bands avail (b_band (put_band mp)) q = (k, q1)" by fastforce
  have "b_band (put_band mp) < 256" using lok by (simp add: list_ok_def msg_fits_def)
  note A = alloc_bands_ok [OF ok this a] and E = insq_eq [OF ok ms emp lok a]
  have "q_ok (q_count_in (put_band mp) (place (put_band mp) (pre @ put_band mp # post) q1))" if k
    using q_ok_in [OF _ _ E(2)] A ms that by simp
  then show ?thesis using A ok by (auto simp: E(1) insq_enab_def)
qed

text \<open>Flushing: the messages that stay are put back in their order.\<close>

lemma q_ok_empty: "q_ok q \<Longrightarrow> q_ok (q_empty q)"
  by (auto simp: q_ok_def q_empty_def q_clr_def list_ok_def band_ok_def hd_ids u32_def)

lemma put_band_id: "msg_fits m \<Longrightarrow> put_band m = m"
  by (cases m) (auto simp: put_band_def msg_fits_def is_pctl_def queclass_def QPCTL_def QNORM_def)

lemma putq_last:
  assumes ok: "q_ok q" and m: "msg_fits m" "b_band m \<le> q_nband q" "b_id m \<notin> b_id ` set (q_list q)" and low: "\<forall>x \<in> set (q_list q). prio m \<le> prio x"
  shows "\<exists>q'. putq 0 m q = Inr (True, q') \<and> q_ok q' \<and> q_list q' = q_list q @ [m] \<and> q_nband q' = q_nband q"
proof -
  have s: "sized m" using m(1) by (simp add: msg_fits_def sized_def)
  have b: "b_band (put_band m) \<le> q_nband q" using m(2) by simp
  have i: "ins_after m (q_list q) = q_list q @ [m]" using low q_ok_list [OF ok]
    by (intro ins_all) (use last_in_set in \<open>auto simp: list_ok_def\<close>)
  have "alloc_bands 0 (b_band m) q = (True, q)" using m(2) by (subst alloc_bands.simps) simp
  then have "putq 0 m q = Inr (ok', q') \<Longrightarrow> q_nband q' = q_nband q" for ok' q'
    using putq_place_ok [OF ok m(1,2)] by (auto simp: putq_def Let_def put_band_id [OF m(1)])
  then show ?thesis using putq_result [OF ok s m(3), of 0] b i by (auto simp: put_band_id [OF m(1)])
qed

lemma flush_back_result:
  assumes "q_ok q" "list_ok (q_nband q) (q_list q @ ms)"
  shows "\<exists>q'. flush_back gone ms q = Inr q' \<and> q_ok q' \<and> q_list q' = q_list q @ filter (\<lambda>m. \<not> gone m) ms \<and> q_nband q' = q_nband q"
  using assms
proof (induction ms arbitrary: q)
  case (Cons m ms)
  show ?case
  proof (cases "gone m")
    case True
    then show ?thesis using Cons.IH [of q] Cons.prems by (auto simp: list_ok_def q_sorted_append q_sorted_Cons)
  next
    case False
    have "\<exists>q'. putq 0 m q = Inr (True, q') \<and> q_ok q' \<and> q_list q' = q_list q @ [m] \<and> q_nband q' = q_nband q"
      by (rule putq_last) (use Cons.prems in \<open>auto simp: list_ok_def q_sorted_append\<close>)
    then obtain q' where q': "putq 0 m q = Inr (True, q')" "q_ok q'" "q_list q' = q_list q @ [m]" "q_nband q' = q_nband q" by blast
    then show ?thesis using Cons.IH [of q'] Cons.prems False by simp
  qed
qed simp

lemma q_core_fold: "q_core (fold (\<lambda>b. q_log (BackEnable b)) bs q) = q_core q"
  by (induction bs arbitrary: q) simp_all

lemma q_core_map_flag:
  "(\<And>qb. qb_first (f qb) = qb_first qb \<and> qb_last (f qb) = qb_last qb \<and> qb_count (f qb) = qb_count qb)
   \<Longrightarrow> q_core (q\<lparr>q_bandp := map f (q_bandp q)\<rparr>) = q_core q"
  by (simp add: q_core_def)

lemma flush_end_core [simp]: "q_core (flushq_end q) = q_core q" "q_core (flushband_end q) = q_core q"
  by (simp_all add: flushq_end_def flushband_end_def Let_def q_core_fold q_core_map_flag)

lemma flushq_result:
  assumes ok: "q_ok q"
  shows "\<exists>q'. flushq flag q = Inr q' \<and> q_ok q' \<and> q_nband q' = q_nband q
    \<and> q_list q' = filter (\<lambda>m. \<not> (flag \<or> datamsg (b_type m))) (q_list q)"
proof (cases "q_list q = []")
  case False
  have e: "q_list (q_empty q) = []" "q_nband (q_empty q) = q_nband q" by (simp_all add: q_empty_def)
  obtain q1 where q1: "flush_back (\<lambda>mp. flag \<or> datamsg (b_type mp)) (q_list q) (q_empty q) = Inr q1" "q_ok q1"
    "q_list q1 = filter (\<lambda>m. \<not> (flag \<or> datamsg (b_type m))) (q_list q)" "q_nband q1 = q_nband q"
    using flush_back_result [OF q_ok_empty [OF ok], of "q_list q" "\<lambda>mp. flag \<or> datamsg (b_type mp)"] q_ok_list [OF ok] e by auto
  have "\<exists>q'. flushq flag q = Inr q' \<and> q_core q' = q_core q1"
    using False q1(1) by (simp add: flushq_def)
  then show ?thesis using q1 q_ok_core q_core_fields by metis
qed (use ok in \<open>simp add: flushq_def\<close>)

lemma flushband_loop_result:
  assumes "q_ok q" "q_list q = pre @ ms"
    and "lst = None \<or> (\<exists>A l B. ms = A @ l # B \<and> lst = Some (b_id l) \<and> (\<forall>m \<in> set B. b_band m \<noteq> pri))"
  shows "\<exists>q'. flushband_loop pri flag lst ms q = Inr q' \<and> q_ok q' \<and> q_nband q' = q_nband q
    \<and> q_list q' = pre @ filter (\<lambda>m. \<not> (b_band m = pri \<and> (flag \<or> datamsg (b_type m)))) ms"
  using assms
proof (induction ms arbitrary: pre q)
  case (Cons m ms)
  let ?gone = "b_band m = pri \<and> (flag \<or> datamsg (b_type m))"
  have "\<exists>q1. (if ?gone then rmvq (b_id m) q else Inr q) = Inr q1 \<and> q_ok q1 \<and> q_nband q1 = q_nband q
      \<and> q_list q1 = (if ?gone then pre else pre @ [m]) @ ms"
    using rmvq_result [OF Cons.prems(1,2)] Cons.prems(1,2) by auto
  then obtain q1 where q1: "(if ?gone then rmvq (b_id m) q else Inr q) = Inr q1" "q_ok q1" "q_nband q1 = q_nband q"
    "q_list q1 = (if ?gone then pre else pre @ [m]) @ ms" by (elim exE conjE)
  show ?case
  proof (cases "lst = Some (b_id m)")
    case True
    have "distinct (map b_id (pre @ m # ms))" using list_okD(1) [OF q_ok_list [OF Cons.prems(1)]] Cons.prems(2) by simp
    then have "\<forall>x \<in> set ms. b_band x \<noteq> pri" using Cons.prems(3) True by (auto simp: Cons_eq_append_conv)
    then have "filter (\<lambda>m. \<not> (b_band m = pri \<and> (flag \<or> datamsg (b_type m)))) ms = ms" by (simp add: filter_id_conv)
    moreover have "flushband_loop pri flag lst (m # ms) q = Inr q1" using q1(1) True by (simp add: Let_def)
    ultimately show ?thesis using q1(2,3,4) by auto
  next
    case False
    then have "lst = None \<or> (\<exists>A l B. ms = A @ l # B \<and> lst = Some (b_id l) \<and> (\<forall>m \<in> set B. b_band m \<noteq> pri))"
      using Cons.prems(3) by (auto simp: Cons_eq_append_conv)
    moreover have "flushband_loop pri flag lst (m # ms) q = flushband_loop pri flag lst ms q1" using q1(1) False by (simp add: Let_def)
    ultimately show ?thesis using Cons.IH [OF q1(2,4)] q1(3) by auto
  qed
qed simp

end
