(* ===== verification/Strq_Flow.thy ===== *)
theory Strq_Flow
  imports Strq_Inv
begin

text \<open>
  Sequences of queue operations and flow control. Every operation keeps the queue well formed and
  never follows a bad pointer; a band is marked full exactly while its byte count is at the high
  water mark; a writer that was refused is enabled when the count has gone below the low water mark.
\<close>

section \<open>Flushing one band\<close>

lemma flushband_zero:
  assumes ok: "q_ok q"
  shows "\<exists>q1 q'. flush_back (\<lambda>mp. b_band mp = 0 \<and> (flag \<or> datamsg (b_type mp))) (q_list q) (q_empty q) = Inr q1
    \<and> flushband 0 flag q = Inr q' \<and> q_core q' = q_core q1 \<and> q_ok q' \<and> q_nband q' = q_nband q
    \<and> q_list q' = filter (\<lambda>m. \<not> (b_band m = 0 \<and> (flag \<or> datamsg (b_type m)))) (q_list q)"
proof -
  have e: "q_list (q_empty q) = []" "q_nband (q_empty q) = q_nband q" by (simp_all add: q_empty_def)
  obtain q1 where q1: "flush_back (\<lambda>mp. b_band mp = 0 \<and> (flag \<or> datamsg (b_type mp))) (q_list q) (q_empty q) = Inr q1" "q_ok q1"
    "q_list q1 = filter (\<lambda>m. \<not> (b_band m = 0 \<and> (flag \<or> datamsg (b_type m)))) (q_list q)" "q_nband q1 = q_nband q"
    using flush_back_result [OF q_ok_empty [OF ok], of "q_list q" "\<lambda>mp. b_band mp = 0 \<and> (flag \<or> datamsg (b_type mp))"] q_ok_list [OF ok] e
    by auto
  have "\<exists>q'. flushband 0 flag q = Inr q' \<and> q_core q' = q_core q1" using q1(1) by (simp add: flushband_def)
  then obtain q' where "flushband 0 flag q = Inr q'" "q_core q' = q_core q1" by blast
  then show ?thesis using q1 q_ok_core [of q1 q'] q_core_fields [of q' q1] by simp
qed

lemma flushband_walk:
  assumes ok: "q_ok q" and pri: "0 < pri" "pri \<le> q_nband q" and some: "in_band pri (q_list q) \<noteq> []"
  obtains pre ms lst where "q_list q = pre @ ms" "\<forall>m \<in> set pre. b_band m \<noteq> pri" "flushband pri flag q = flushband_loop pri flag lst ms q"
    "lst = None \<or> (\<exists>A l B. ms = A @ l # B \<and> lst = Some (b_id l) \<and> (\<forall>m \<in> set B. b_band m \<noteq> pri))"
proof -
  let ?P = "takeWhile (\<lambda>m. prio m > pri) (q_list q)" and ?D = "dropWhile (\<lambda>m. prio m \<ge> pri) (q_list q)"
  have lt: "pri < 256" using pri ok by (simp add: q_ok_def)
  note sp = band_split [OF q_ok_list [OF ok] pri(1) lt]
  note qb = q_ok_band(1,2) [OF ok pri]
  obtain m B where B: "in_band pri (q_list q) = m # B" using some by (cases "in_band pri (q_list q)") auto
  have ms: "q_list q = ?P @ m # (B @ ?D)" using sp(1) B by simp
  have none: "\<forall>x \<in> set ?P. b_band x \<noteq> pri" "\<forall>x \<in> set ?D. b_band x \<noteq> pri" using sp(4,5) by (auto simp: in_band_def filter_empty_conv)
  have d: "distinct (map b_id (?P @ m # (B @ ?D)))" using list_okD(1) [OF q_ok_list [OF ok]] ms by metis
  define lst where "lst = (if B = [] then first_id ?D else last_id B)"
  have eq: "first_id (m # B) = last_id (m # B) \<longleftrightarrow> B = []"
    using d by (cases B rule: rev_cases) (auto simp: hd_ids last_id_def)
  have hd: "(case xs of [] \<Rightarrow> None | m # _ \<Rightarrow> Some (b_id m)) = first_id xs" for xs
    by (cases xs) (simp_all add: first_id_def)
  have f: "qb_first (q_bandp q ! (pri - 1)) = Some (b_id m)" "qb_first (q_bandp q ! (pri - 1)) = qb_last (q_bandp q ! (pri - 1)) \<longleftrightarrow> B = []"
    "B \<noteq> [] \<Longrightarrow> qb_last (q_bandp q ! (pri - 1)) = last_id B"
    using qb eq unfolding B by (simp_all add: hd_ids last_id_def)
  have s: "split_id (b_id m) (q_list q) = Some (?P, m, B @ ?D)" using split_id_found [OF d] ms by simp
  have "(if qb_first (q_bandp q ! (pri - 1)) = qb_last (q_bandp q ! (pri - 1)) then first_id (B @ ?D) else qb_last (q_bandp q ! (pri - 1))) = lst"
    unfolding f(2) lst_def using f(3) by (cases "B = []") (simp_all add: hd_ids)
  moreover have "\<not> pri > q_nband q" "pri \<noteq> 0" using pri by simp_all
  ultimately have "flushband pri flag q = flushband_loop pri flag lst (m # (B @ ?D)) q"
    unfolding flushband_def Let_def by (simp only: if_False f(1) option.case s split_conv hd)
  moreover have "lst = None \<or> (\<exists>A l C. m # (B @ ?D) = A @ l # C \<and> lst = Some (b_id l) \<and> (\<forall>m \<in> set C. b_band m \<noteq> pri))"
  proof (cases B rule: rev_cases)
    case Nil
    show ?thesis
    proof (cases ?D)
      case Nil
      then show ?thesis using \<open>B = []\<close> by (simp add: lst_def first_id_def)
    next
      case (Cons x xs)
      then have "m # (B @ ?D) = [m] @ x # xs \<and> lst = Some (b_id x) \<and> (\<forall>m \<in> set xs. b_band m \<noteq> pri)"
        using none(2) \<open>B = []\<close> by (simp add: lst_def first_id_def)
      then show ?thesis by blast
    qed
  next
    case (snoc B' l)
    then have "m # (B @ ?D) = (m # B') @ l # ?D \<and> lst = Some (b_id l) \<and> (\<forall>m \<in> set ?D. b_band m \<noteq> pri)"
      using none(2) by (simp add: lst_def last_id_def)
    then show ?thesis by blast
  qed
  ultimately show ?thesis using that [OF ms none(1)] by blast
qed

lemma flushband_result:
  assumes ok: "q_ok q"
  shows "\<exists>q'. flushband pri flag q = Inr q' \<and> q_ok q' \<and> q_nband q' = q_nband q
    \<and> q_list q' = filter (\<lambda>m. \<not> (b_band m = pri \<and> (flag \<or> datamsg (b_type m)))) (q_list q)"
proof -
  consider "pri = 0" | "pri > q_nband q" | "0 < pri" "pri \<le> q_nband q" "in_band pri (q_list q) = []"
    | "0 < pri" "pri \<le> q_nband q" "in_band pri (q_list q) \<noteq> []" by linarith
  then show ?thesis
  proof cases
    case 1
    then show ?thesis using flushband_zero [OF ok, of flag] by auto
  next
    case 2
    then have "\<forall>m \<in> set (q_list q). b_band m \<noteq> pri" using q_ok_list [OF ok] by (auto simp: list_ok_def)
    then show ?thesis using 2 ok by (auto simp: flushband_def filter_id_conv)
  next
    case 3
    then have "qb_first (q_bandp q ! (pri - 1)) = None" using q_ok_band(1) [OF ok 3(1,2)] by (simp add: hd_ids)
    moreover have "\<forall>m \<in> set (q_list q). b_band m \<noteq> pri" using 3(3) by (auto simp: in_band_def filter_empty_conv)
    ultimately show ?thesis using 3 ok by (auto simp: flushband_def filter_id_conv)
  next
    case 4
    obtain pre ms lst where w: "q_list q = pre @ ms" "\<forall>m \<in> set pre. b_band m \<noteq> pri" "flushband pri flag q = flushband_loop pri flag lst ms q"
      "lst = None \<or> (\<exists>A l B. ms = A @ l # B \<and> lst = Some (b_id l) \<and> (\<forall>m \<in> set B. b_band m \<noteq> pri))"
      by (rule flushband_walk [OF ok 4, of flag]) blast
    have "filter (\<lambda>m. \<not> (b_band m = pri \<and> (flag \<or> datamsg (b_type m)))) pre = pre" using w(2) by (simp add: filter_id_conv)
    then show ?thesis using flushband_loop_result [OF ok w(1,4), of flag] w(1,3) by simp
  qed
qed

section \<open>Sequences of operations\<close>

text \<open>
  The routines of the queue, and the parts of those that drop the lock: \<open>getq\<close> and \<open>rmvq\<close> are a
  removal and a \<open>QBackEnable\<close>, \<open>flushq\<close> is a \<open>FlushTake\<close>, a \<open>PutQ\<close> for each message that stays and a
  \<open>FlushEnd\<close>. With other operations between the parts, sequences have these interleavings too.
\<close>

datatype q_op =
    PutQ nat mblk | PutBq nat mblk | InsQ nat "nat option" mblk | GetQ | RmvQ nat | FlushQ bool | FlushBand nat bool
  | GetQNoEnab | RmvQNoEnab nat | QBackEnable nat | FlushTake | FlushEnd | FlushBandEnd
  | CanPut | BCanPut nat | QEnable | NoEnable | EnableOk | StrqSet int bool bool nat qfields nat int | StrqGet nat qfields nat

definition q_exec :: "q_op \<Rightarrow> queue \<Rightarrow> queue kres" where
  "q_exec opr q =
     (case opr of
        PutQ a bp \<Rightarrow> map_sum id snd (putq a bp q)
      | PutBq a bp \<Rightarrow> map_sum id snd (putbq a bp q)
      | InsQ a emp mp \<Rightarrow> map_sum id snd (insq a emp mp q)
      | GetQ \<Rightarrow> map_sum id snd (getq q)
      | RmvQ i \<Rightarrow> rmvq i q
      | FlushQ flag \<Rightarrow> flushq flag q
      | FlushBand pri flag \<Rightarrow> flushband pri flag q
      | GetQNoEnab \<Rightarrow> map_sum id snd (getq_noenab q)
      | RmvQNoEnab i \<Rightarrow> rmvq_noenab i q
      | QBackEnable pri \<Rightarrow> Inr (qbackenable pri q)
      | FlushTake \<Rightarrow> Inr (q_empty q)
      | FlushEnd \<Rightarrow> Inr (flushq_end q)
      | FlushBandEnd \<Rightarrow> Inr (flushband_end q)
      | CanPut \<Rightarrow> Inr (snd (canput q))
      | BCanPut pri \<Rightarrow> Inr (snd (bcanput pri q))
      | QEnable \<Rightarrow> Inr (qenable_locked q)
      | NoEnable \<Rightarrow> Inr (noenable q)
      | EnableOk \<Rightarrow> Inr (enableok q)
      | StrqSet sz fifo below a what pri v \<Rightarrow> Inr (snd (strqset sz fifo below a what pri v q))
      | StrqGet a what pri \<Rightarrow> Inr (snd (strqget a what pri q)))"

text \<open>
  What the callers owe: a message that is put is not on the queue already and its fields fit; a
  message that is removed or inserted before is on the queue. \<open>insq\<close> itself refuses most places that
  are out of order; a caller must not ask for the two that it does not refuse, an ordinary
  message right before a high priority one, and a high priority message at the end behind an
  ordinary one. A band number is an unsigned char.
\<close>

definition insq_place :: "nat option \<Rightarrow> mblk list \<Rightarrow> mblk list \<times> mblk list" where
  "insq_place emp ms =
     (case emp of
        None \<Rightarrow> (ms, [])
      | Some i \<Rightarrow> (case split_id i ms of None \<Rightarrow> (ms, []) | Some (pre, m, post) \<Rightarrow> (pre, m # post)))"

definition q_legal :: "q_op \<Rightarrow> queue \<Rightarrow> bool" where
  "q_legal opr q \<longleftrightarrow>
     (case opr of
        PutQ a bp \<Rightarrow> sized bp \<and> b_id bp \<notin> b_id ` set (q_list q)
      | PutBq a bp \<Rightarrow> sized bp \<and> b_id bp \<notin> b_id ` set (q_list q)
      | InsQ a emp mp \<Rightarrow> sized mp \<and> b_id mp \<notin> b_id ` set (q_list q) \<and> (\<forall>i. emp = Some i \<longrightarrow> i \<in> b_id ` set (q_list q))
          \<and> (case insq_place emp (q_list q) of (pre, post) \<Rightarrow>
                (\<not> is_pctl mp \<and> post \<noteq> [] \<longrightarrow> \<not> is_pctl (hd post)) \<and> (is_pctl mp \<and> post = [] \<and> pre \<noteq> [] \<longrightarrow> is_pctl (last pre)))
      | RmvQ i \<Rightarrow> i \<in> b_id ` set (q_list q)
      | RmvQNoEnab i \<Rightarrow> i \<in> b_id ` set (q_list q)
      | QBackEnable pri \<Rightarrow> pri \<le> q_nband q
      | BCanPut pri \<Rightarrow> pri < 256
      | StrqSet sz fifo below a what pri v \<Rightarrow> pri < 256
      | StrqGet a what pri \<Rightarrow> pri < 256
      | _ \<Rightarrow> True)"

text \<open>Queues that a sequence of operations leads to, from an empty queue.\<close>

definition q_init :: "queue \<Rightarrow> bool" where
  "q_init q \<longleftrightarrow> q_list q = [] \<and> q_count q = 0 \<and> q_bandp q = [] \<and> q_nband q = 0 \<and> q_flag q = 0 \<and> q_events q = []"

inductive q_reach :: "queue \<Rightarrow> bool" where
  init: "q_init q \<Longrightarrow> q_reach q"
| step: "q_reach q \<Longrightarrow> q_legal opr q \<Longrightarrow> q_exec opr q = Inr q' \<Longrightarrow> q_reach q'"

lemma insq_place_cases:
  assumes "q_ok q" "\<forall>i. emp = Some i \<longrightarrow> i \<in> b_id ` set (q_list q)"
  obtains pre post where "insq_place emp (q_list q) = (pre, post)" "q_list q = pre @ post" "emp = first_id post"
proof (cases emp)
  case None
  then show ?thesis using that [of "q_list q" "[]"] by (simp add: insq_place_def hd_ids)
next
  case (Some i)
  then obtain pre m post where s: "split_id i (q_list q) = Some (pre, m, post)"
    using assms(2) split_id_None [of i "q_list q"] by (cases "split_id i (q_list q)") auto
  then show ?thesis using that [of pre "m # post"] split_id_Some [OF s] Some by (simp add: insq_place_def hd_ids)
qed

lemma q_sorted_insert:
  assumes "q_sorted (pre @ post)" "pre = [] \<or> prio m \<le> prio (last pre)" "post = [] \<or> prio (hd post) \<le> prio m"
  shows "q_sorted (pre @ m # post)"
proof -
  have "prio m \<le> prio x" if "x \<in> set pre" for x
  proof -
    have "q_sorted pre" using assms(1) by (simp add: q_sorted_append)
    then have "prio (last pre) \<le> prio x" using that
      by (cases pre rule: rev_cases) (auto simp: q_sorted_append)
    then show ?thesis using assms(2) that by fastforce
  qed
  moreover have "prio y \<le> prio m" if "y \<in> set post" for y
  proof -
    have "prio y \<le> prio (hd post)" using assms(1) that by (cases post) (auto simp: q_sorted_append q_sorted_Cons)
    then show ?thesis using assms(3) that by fastforce
  qed
  ultimately show ?thesis using assms(1) by (auto simp: q_sorted_append q_sorted_Cons)
qed

text \<open>The checks of \<open>insq\<close> and what the caller owes keep the order.\<close>

lemma insq_good_sorted:
  assumes "q_sorted (pre @ post)" "\<not> insq_bad (insq_at pre post) (put_band mp) (pre @ post)"
    and "\<not> is_pctl mp \<and> post \<noteq> [] \<longrightarrow> \<not> is_pctl (hd post)" "is_pctl mp \<and> post = [] \<and> pre \<noteq> [] \<longrightarrow> is_pctl (last pre)"
    and "\<forall>m \<in> set (pre @ post). msg_fits m" "sized mp"
  shows "q_sorted (pre @ put_band mp # post)"
proof (rule q_sorted_insert [OF assms(1)])
  show "pre = [] \<or> prio (put_band mp) \<le> prio (last pre)"
    using assms(2,4,6) by (cases post) (auto simp: insq_bad_def insq_at_def prio_def sized_def is_pctl_def queclass_def put_band_def QPCTL_def QNORM_def split: if_splits)
  have "hd post \<in> set post" if "post \<noteq> []" using that by simp
  then show "post = [] \<or> prio (hd post) \<le> prio (put_band mp)"
    using assms(2,3,5) by (cases post) (auto simp: insq_bad_def insq_at_def prio_def is_pctl_def queclass_def put_band_def msg_fits_def QPCTL_def QNORM_def split: if_splits)
qed

lemma insq_refused:
  assumes ok: "q_ok q" and ms: "q_list q = pre @ post" and emp: "emp = first_id post"
    and bad: "insq_bad (insq_at pre post) (put_band mp) (q_list q)"
  shows "insq avail emp mp q = Inr (False, q)"
proof (cases post)
  case Nil
  then show ?thesis using emp bad by (simp add: insq_def insq_at_def hd_ids Let_def)
next
  case (Cons e post')
  have "distinct (map b_id (pre @ e # post'))" using list_okD(1) [OF q_ok_list [OF ok]] ms Cons by simp
  then have "split_id (b_id e) (q_list q) = Some (pre, e, post')" using ms Cons by (simp add: split_id_found)
  then show ?thesis using emp bad Cons by (simp add: insq_def insq_at_def hd_ids Let_def)
qed

lemma insq_legal:
  assumes ok: "q_ok q" and leg: "q_legal (InsQ a emp mp) q"
  obtains (bad) "insq a emp mp q = Inr (False, q)"
    | (good) pre post where "q_list q = pre @ post" "emp = first_id post" "list_ok 255 (pre @ put_band mp # post)"
proof -
  have l: "sized mp" "b_id mp \<notin> b_id ` set (q_list q)" "\<forall>i. emp = Some i \<longrightarrow> i \<in> b_id ` set (q_list q)"
    using leg by (simp_all add: q_legal_def)
  obtain pre post where p: "insq_place emp (q_list q) = (pre, post)" "q_list q = pre @ post" "emp = first_id post"
    by (rule insq_place_cases [OF ok l(3)])
  have "list_ok 255 (pre @ put_band mp # post)" if "\<not> insq_bad (insq_at pre post) (put_band mp) (q_list q)"
  proof -
    have fits: "\<forall>m \<in> set (pre @ post). msg_fits m" using list_okD(3) [OF q_ok_list [OF ok]] p(2) by simp
    have "q_sorted (pre @ put_band mp # post)"
      using insq_good_sorted [OF _ _ _ _ fits l(1)] that list_okD(2) [OF q_ok_list [OF ok]] p(1,2) leg by (simp add: q_legal_def)
    moreover have "distinct (map b_id (pre @ put_band mp # post))" using list_okD(1) [OF q_ok_list [OF ok]] p(2) l(2) by auto
    moreover have "\<forall>m \<in> set (pre @ put_band mp # post). msg_fits m" using fits put_band_fits [OF l(1)] by auto
    moreover have "msg_fits m \<Longrightarrow> b_band m \<le> 255" for m by (simp add: msg_fits_def)
    ultimately show ?thesis unfolding list_ok_def by blast
  qed
  then show ?thesis using good [OF p(2,3)] bad insq_refused [OF ok p(2,3), of mp a] by blast
qed

lemma insq_keeps:
  assumes ok: "q_ok q" and leg: "q_legal (InsQ a emp mp) q"
  shows "\<exists>b q'. insq a emp mp q = Inr (b, q') \<and> q_ok q'"
  by (cases rule: insq_legal [OF ok leg]) (use ok insq_result [OF ok] in \<open>blast+\<close>)

lemma q_core_upd:
  "(\<And>qb. qb_first (f qb) = qb_first qb \<and> qb_last (f qb) = qb_last qb \<and> qb_count (f qb) = qb_count qb)
   \<Longrightarrow> q_core (upd_band b f q) = q_core q"
  by (cases "b - 1 < length (q_bandp q)")
     (simp_all add: q_core_def upd_band_def map_update list_update_same_conv list_update_beyond)

lemma strqset_core:
  "alloc_bands a pri q = (b, q1) \<Longrightarrow> q_core (snd (strqset sz fifo below a what pri v q)) = (if what = QBAD then q_core q else q_core q1)"
  by (cases what) (simp_all add: strqset_def Let_def q_core_upd, simp_all add: q_core_def)

lemma strqget_core:
  "alloc_bands a pri q = (b, q1) \<Longrightarrow> snd (strqget a what pri q) = (if what = QBAD then q else q1)"
  by (simp add: strqget_def Let_def)

lemma getq_noenab_keeps:
  assumes ok: "q_ok q"
  shows "\<exists>r q'. getq_noenab q = Inr (r, q') \<and> q_ok q'"
proof (cases rule: get_msg_cases [of "q_list q"])
  case none
  then show ?thesis using getq_noenab_result(1) [OF ok] q_ok_core [OF _ ok] by metis
next
  case (some pre bp post)
  then show ?thesis using getq_noenab_result(2) [OF ok] q_ok_core [OF _ q_ok_out [OF ok some(1)]] by metis
qed

lemma q_exec_ok:
  assumes ok: "q_ok q" and leg: "q_legal opr q"
  shows "\<exists>q'. q_exec opr q = Inr q' \<and> q_ok q'"
proof (cases opr)
  case (PutQ a bp)
  then show ?thesis using putq_result [OF ok, of bp a] leg by (auto simp: q_legal_def q_exec_def)
next
  case (PutBq a bp)
  then show ?thesis using putbq_result [OF ok, of bp a] leg by (auto simp: q_legal_def q_exec_def)
next
  case (InsQ a emp mp)
  then show ?thesis using insq_keeps [OF ok, of a emp mp] leg by (auto simp: q_exec_def)
next
  case GetQ
  then show ?thesis using getq_result [OF ok] by (auto simp: q_exec_def)
next
  case (RmvQ i)
  then obtain pre mp post where p: "q_list q = pre @ mp # post" "b_id mp = i"
    using leg by (auto simp: q_legal_def in_set_conv_decomp)
  then show ?thesis using rmvq_result [OF ok p(1)] RmvQ by (auto simp: q_exec_def)
next
  case GetQNoEnab
  then show ?thesis using getq_noenab_keeps [OF ok] by (auto simp: q_exec_def)
next
  case (RmvQNoEnab i)
  then obtain pre mp post where p: "q_list q = pre @ mp # post" "b_id mp = i"
    using leg by (auto simp: q_legal_def in_set_conv_decomp)
  then show ?thesis using rmvq_noenab_eq [OF ok p(1)] q_ok_out [OF ok p(1)] RmvQNoEnab by (simp add: q_exec_def)
next
  case FlushTake
  then show ?thesis using q_ok_empty [OF ok] by (simp add: q_exec_def)
next
  case (FlushQ flag)
  then show ?thesis using flushq_result [OF ok] by (auto simp: q_exec_def)
next
  case (FlushBand pri flag)
  then show ?thesis using flushband_result [OF ok] by (auto simp: q_exec_def)
next
  case (StrqSet sz fifo below a what pri v)
  obtain b q1 where a: "alloc_bands a pri q = (b, q1)" by fastforce
  then have "q_ok q1" using alloc_bands_ok [OF ok _ a] leg StrqSet by (simp add: q_legal_def)
  then show ?thesis using q_ok_core [of q1 "snd (strqset sz fifo below a what pri v q)"] q_ok_core [of q "snd (strqset sz fifo below a what pri v q)"]
      strqset_core [OF a, of sz fifo below what v] ok StrqSet by (auto simp: q_exec_def split: if_splits)
next
  case (StrqGet a what pri)
  obtain b q1 where a: "alloc_bands a pri q = (b, q1)" by fastforce
  then have "q_ok q1" using alloc_bands_ok [OF ok _ a] leg StrqGet by (simp add: q_legal_def)
  then show ?thesis using strqget_core [OF a] ok StrqGet by (auto simp: q_exec_def)
qed (use ok q_ok_core [OF _ ok] in \<open>auto simp: q_exec_def canput_def bcanput_def noenable_def enableok_def\<close>)

lemma q_init_ok: "q_init q \<Longrightarrow> q_ok q"
  by (simp add: q_init_def q_ok_def list_ok_def u32_def)

lemma q_reach_ok: "q_reach q \<Longrightarrow> q_ok q"
  by (induction rule: q_reach.induct) (auto dest: q_init_ok q_exec_ok)

section \<open>Flow control\<close>

text \<open>
  What flow control looks at, of band 0 or of a band: the byte count, the high and low water marks,
  whether it is marked full and whether a writer waits.
\<close>

type_synonym flow = "nat \<times> nat \<times> nat \<times> bool \<times> bool"

definition q_flow :: "nat \<Rightarrow> queue \<Rightarrow> flow" where
  "q_flow b q =
     (if b = 0 then (q_count q, q_hiwat q, q_lowat q, qf q QFULL, qf q QWANTW)
      else let qb = q_bandp q ! (b - 1) in (qb_count qb, qb_hiwat qb, qb_lowat qb, qbf qb QB_FULL, qbf qb QB_WANTW))"

text \<open>The mark says whether the count is at the high water mark.\<close>

fun full_ok :: "flow \<Rightarrow> bool" where
  "full_ok (n, hi, lo, full, want) \<longleftrightarrow> 0 < hi \<and> lo \<le> hi \<and> (full \<longleftrightarrow> hi \<le> n)"

text \<open>A writer waits only while the count has not been below the low water mark since.\<close>

fun want_ok :: "flow \<Rightarrow> bool" where
  "want_ok (n, hi, lo, full, want) \<longleftrightarrow> (want \<longrightarrow> lo \<le> n \<and> (lo = 0 \<longrightarrow> full))"

fun waits :: "flow \<Rightarrow> bool" where
  "waits (n, hi, lo, full, want) = want"

definition flow_ok :: "queue \<Rightarrow> bool" where
  "flow_ok q \<longleftrightarrow> (\<forall>b \<le> q_nband q. full_ok (q_flow b q) \<and> want_ok (q_flow b q))"

text \<open>A writer that no longer waits has been enabled.\<close>

definition wakes :: "queue \<Rightarrow> queue \<Rightarrow> bool" where
  "wakes q q' \<longleftrightarrow> q_nband q \<le> q_nband q' \<and> (\<exists>es. q_events q' = es @ q_events q
     \<and> (\<forall>b \<le> q_nband q. waits (q_flow b q) \<longrightarrow> waits (q_flow b q') \<or> BackEnable b \<in> set es))"

lemma wakes_refl [simp]: "wakes q q"
  by (simp add: wakes_def)

lemma wakes_trans: "wakes q q1 \<Longrightarrow> wakes q1 q2 \<Longrightarrow> wakes q q2"
  unfolding wakes_def
proof (elim conjE exE, intro conjI)
  fix es es'
  assume a: "q_nband q \<le> q_nband q1" "q_nband q1 \<le> q_nband q2" "q_events q1 = es @ q_events q" "q_events q2 = es' @ q_events q1"
    "\<forall>b \<le> q_nband q. waits (q_flow b q) \<longrightarrow> waits (q_flow b q1) \<or> BackEnable b \<in> set es"
    "\<forall>b \<le> q_nband q1. waits (q_flow b q1) \<longrightarrow> waits (q_flow b q2) \<or> BackEnable b \<in> set es'"
  then show "q_nband q \<le> q_nband q2" by simp
  have "q_events q2 = (es' @ es) @ q_events q" using a by simp
  moreover have "\<forall>b \<le> q_nband q. waits (q_flow b q) \<longrightarrow> waits (q_flow b q2) \<or> BackEnable b \<in> set (es' @ es)" using a(1,5,6) unfolding set_append Un_iff by (meson le_trans)
  ultimately show "\<exists>es. q_events q2 = es @ q_events q \<and> (\<forall>b \<le> q_nband q. waits (q_flow b q) \<longrightarrow> waits (q_flow b q2) \<or> BackEnable b \<in> set es)" by blast
qed

text \<open>The flow state after each piece of an operation.\<close>

lemma word_flag_simps:
  fixes w f g :: "'a::len word"
  shows "(w OR f) AND g = 0 \<longleftrightarrow> w AND g = 0 \<and> f AND g = 0" "f AND g = 0 \<Longrightarrow> (w AND NOT f) AND g = w AND g" "(w AND NOT f) AND f = 0"
proof -
  show "(w OR f) AND g = 0 \<longleftrightarrow> w AND g = 0 \<and> f AND g = 0" by (simp add: bit.conj_disj_distrib2 or_eq_0_iff)
  show "(w AND NOT f) AND f = 0" by (simp add: and.assoc)
  assume "f AND g = 0"
  then have "bit f n \<longrightarrow> \<not> bit g n" for n by (metis bit_0_eq bit_and_iff bot_apply bot_bool_def)
  then show "(w AND NOT f) AND g = w AND g" by (auto intro!: bit_word_eqI simp: bit_simps)
qed

lemma qf_simps: "qf (q_set f q) g \<longleftrightarrow> qf q g \<or> f AND g \<noteq> 0" "f AND g = 0 \<Longrightarrow> qf (q_clr f q) g = qf q g" "\<not> qf (q_clr f q) f"
  by (simp_all add: qf_def q_set_def q_clr_def word_flag_simps)

lemma qf_other [simp]:
  "qf (q_log e q) f = qf q f" "qf (upd_band b g q) f = qf q f" "qf (q\<lparr>q_count := n\<rparr>) f = qf q f" "qf (q\<lparr>q_list := ms\<rparr>) f = qf q f"
  "qf (q\<lparr>q_bandp := bs\<rparr>) f = qf q f"
  by (simp_all add: qf_def q_log_def upd_band_def)

lemma q_flow_set [simp]: "f AND QFULL = 0 \<Longrightarrow> f AND QWANTW = 0 \<Longrightarrow> q_flow b (q_set f q) = q_flow b q"
  "f AND QFULL = 0 \<Longrightarrow> f AND QWANTW = 0 \<Longrightarrow> q_flow b (q_clr f q) = q_flow b q"
  by (simp_all add: q_flow_def qf_simps) (simp_all add: q_set_def q_clr_def)

lemma q_flow_log [simp]: "q_flow b (q_log e q) = q_flow b q"
  by (simp add: q_flow_def Let_def) (simp add: q_log_def)

lemma flag_disjoint [simp]:
  "QENAB AND QFULL = 0" "QENAB AND QWANTW = 0" "QWANTR AND QFULL = 0" "QWANTR AND QWANTW = 0" "QNOENB AND QFULL = 0" "QNOENB AND QWANTW = 0"
  "QWANTWSYNC AND QFULL = 0" "QWANTWSYNC AND QWANTW = 0" "QFULL AND QWANTW = 0" "QWANTW AND QFULL = 0"
  "QWANTW AND QWANTWSYNC = 0" "QB_FULL AND QB_WANTW = 0" "QB_WANTW AND QB_FULL = 0"
  "QFULL \<noteq> 0" "QWANTW \<noteq> 0" "QB_FULL \<noteq> 0" "QB_WANTW \<noteq> 0"
  by (simp_all add: QENAB_def QFULL_def QWANTW_def QWANTR_def QNOENB_def QWANTWSYNC_def QB_FULL_def QB_WANTW_def)

lemma q_flow_enable [simp]: "q_flow b (qenable_locked q) = q_flow b q"
  by (simp add: qenable_locked_def Let_def)

lemma q_flow_place [simp]:
  assumes "length (q_bandp q) = q_nband q" "b \<le> q_nband q"
  shows "q_flow b (place bp ms q) = q_flow b q"
proof (cases "b_band bp = 0")
  case True
  then show ?thesis by (simp add: q_flow_def place_def qbf_def)
next
  case False
  then show ?thesis using assms by (cases "b = b_band bp") (auto simp: q_flow_def place_def qbf_def upd_band_def qf_def nth_list_update Let_def)
qed

fun flow_in :: "nat \<Rightarrow> flow \<Rightarrow> flow" where
  "flow_in k (n, hi, lo, full, want) = (k, hi, lo, full \<or> hi \<le> k, want)"

fun flow_out :: "nat \<Rightarrow> flow \<Rightarrow> flow" where
  "flow_out k (n, hi, lo, full, want) = (k, hi, lo, full \<and> \<not> k < hi, want)"

fun flow_back :: "flow \<Rightarrow> flow" where
  "flow_back (n, hi, lo, full, want) = (n, hi, lo, full, want \<and> \<not> (n < lo \<or> lo = 0))"

lemma q_flow_in:
  assumes "length (q_bandp q) = q_nband q" "b \<le> q_nband q" "b_band bp \<le> q_nband q"
  shows "q_flow b (q_count_in bp q) = (if b = b_band bp then flow_in (count_add (fst (q_flow b q)) bp) (q_flow b q) else q_flow b q)"
proof (cases "b_band bp = 0")
  case True
  then show ?thesis by (auto simp: q_flow_def q_count_in_def Let_def qf_simps) (auto simp: q_set_def)
next
  case False
  then show ?thesis using assms
    by (cases "b = b_band bp") (auto simp: q_flow_def q_count_in_def upd_band_def qf_def qbf_def nth_list_update Let_def word_flag_simps) 
qed

lemma q_flow_out:
  assumes "length (q_bandp q) = q_nband q" "b \<le> q_nband q" "b_band bp \<le> q_nband q"
  shows "q_flow b (q_uncount bp q) = (if b = b_band bp then flow_out (count_sub (fst (q_flow b q)) bp) (q_flow b q) else q_flow b q)"
proof (cases "b_band bp = 0")
  case True
  then show ?thesis by (auto simp: q_flow_def q_uncount_def Let_def qf_simps) (auto simp: q_clr_def)
next
  case False
  then show ?thesis using assms
    by (cases "b = b_band bp") (auto simp: q_flow_def q_uncount_def upd_band_def qf_def qbf_def nth_list_update Let_def word_flag_simps) 
qed

lemma want_mask: "q_flag q AND (QWANTW OR QWANTWSYNC) = 0 \<longleftrightarrow> \<not> qf q QWANTW \<and> \<not> qf q QWANTWSYNC"
  by (simp add: qf_def bit.conj_disj_distrib or_eq_0_iff)

lemma flow_back_id: "\<not> waits f \<Longrightarrow> flow_back f = f"
  by (cases f rule: waits.cases) simp

lemma q_flow_backenable:
  assumes "length (q_bandp q) = q_nband q" "b \<le> q_nband q" "band \<le> q_nband q"
  shows "q_flow b (qbackenable band q) = (if b = band then flow_back (q_flow b q) else q_flow b q)"
proof (cases "band = 0")
  case True
  then show ?thesis
    by (auto simp: qbackenable_def q_flow_def Let_def want_mask qf_simps) (auto simp: q_clr_def q_log_def)
next
  case False
  then show ?thesis using assms
    by (cases "b = band") (auto simp: qbackenable_def q_flow_def upd_band_def qf_def qbf_def q_log_def nth_list_update Let_def word_flag_simps)
qed

lemma backenable_events:
  "\<exists>es. q_events (qbackenable band q) = es @ q_events q \<and> (waits (q_flow band q) \<and> \<not> waits (flow_back (q_flow band q)) \<longrightarrow> BackEnable band \<in> set es)"
  by (auto simp: qbackenable_def q_flow_def Let_def want_mask q_log_def q_clr_def upd_band_def)

lemma backenable_wakes:
  assumes "length (q_bandp q) = q_nband q" "band \<le> q_nband q"
  shows "wakes q (qbackenable band q)"
  using backenable_events [of band q] q_flow_backenable [OF assms(1) _ assms(2)] by (auto simp: wakes_def)

lemma wakesI:
  "q_nband q' = q_nband q \<Longrightarrow> q_events q' = es @ q_events q
   \<Longrightarrow> (\<And>b. b \<le> q_nband q \<Longrightarrow> waits (q_flow b q) \<Longrightarrow> \<not> waits (q_flow b q') \<Longrightarrow> BackEnable b \<in> set es) \<Longrightarrow> wakes q q'"
  unfolding wakes_def by (intro conjI exI [of _ es]) auto

lemma wakes_same: "q_events q' = q_events q \<Longrightarrow> q_nband q' = q_nband q \<Longrightarrow> (\<And>b. b \<le> q_nband q \<Longrightarrow> waits (q_flow b q) \<Longrightarrow> waits (q_flow b q')) \<Longrightarrow> wakes q q'"
  by (auto simp: wakes_def)

lemma wakes_log: "q_nband q' = q_nband q \<Longrightarrow> (\<And>b. q_flow b q' = q_flow b q) \<Longrightarrow> q_events q' = es @ q_events q \<Longrightarrow> wakes q q'"
  by (auto simp: wakes_def)

definition qbytes :: "mblk list \<Rightarrow> nat" where
  "qbytes ms = sum_list (map msg_bytes ms)"

lemma band_bytes_le: "band_bytes b ms \<le> qbytes ms"
  by (induction ms) (auto simp: qbytes_def)

lemma q_ok_len: "q_ok q \<Longrightarrow> length (q_bandp q) = q_nband q"
  by (simp add: q_ok_def)

lemma q_flow_count:
  assumes "q_ok q" "b \<le> q_nband q" "qbytes (q_list q) < 2 ^ 32"
  shows "fst (q_flow b q) = band_bytes b (q_list q)"
proof -
  have "band_bytes b (q_list q) < 2 ^ 32" using assms(3) band_bytes_le [of b "q_list q"] by linarith
  then show ?thesis using assms(1,2) by (auto simp: q_flow_def q_ok_def band_ok_def Let_def u32_def)
qed

lemma full_in: "full_ok f \<Longrightarrow> fst f \<le> k \<Longrightarrow> full_ok (flow_in k f)"
  by (cases f rule: waits.cases) auto

lemma want_in: "want_ok f \<Longrightarrow> fst f \<le> k \<Longrightarrow> want_ok (flow_in k f)"
  by (cases f rule: waits.cases) auto

lemma full_out: "full_ok f \<Longrightarrow> k \<le> fst f \<Longrightarrow> full_ok (flow_out k f)"
  by (cases f rule: waits.cases) auto

lemma want_back: "full_ok f \<Longrightarrow> want_ok (flow_back f)" "full_ok (flow_back f) = full_ok f"
  by (cases f rule: waits.cases; auto)+

lemma waits_flow [simp]: "waits (flow_in k f) = waits f" "waits (flow_out k f) = waits f"
  by (cases f rule: waits.cases; simp)+

text \<open>A message more: the marks stay right and nobody stops waiting.\<close>

lemma flow_msg_in:
  assumes ok: "q_ok q" and ms: "q_list q = pre @ post" and nb: "b_band bp \<le> q_nband q" and room: "qbytes (pre @ bp # post) < 2 ^ 32"
    and b: "b \<le> q_nband q"
  shows "full_ok (q_flow b q) \<Longrightarrow> full_ok (q_flow b (q_count_in bp (place bp (pre @ bp # post) q)))"
    "want_ok (q_flow b q) \<Longrightarrow> want_ok (q_flow b (q_count_in bp (place bp (pre @ bp # post) q)))"
    "waits (q_flow b (q_count_in bp (place bp (pre @ bp # post) q))) = waits (q_flow b q)"
proof -
  let ?q = "place bp (pre @ bp # post) q"
  have len: "length (q_bandp ?q) = q_nband ?q" using q_ok_len [OF ok] by (simp add: place_fields)
  have f: "q_flow b (q_count_in bp ?q) = (if b = b_band bp then flow_in (count_add (fst (q_flow b q)) bp) (q_flow b q) else q_flow b q)"
    using q_flow_in [OF len, of b bp] b nb q_ok_len [OF ok] by simp
  have r: "qbytes (q_list q) < 2 ^ 32" "band_bytes b (q_list q) + msg_bytes bp < 2 ^ 32"
    using room ms band_bytes_le [of b "q_list q"] by (simp_all add: qbytes_def)
  have "count_add (fst (q_flow b q)) bp = band_bytes b (q_list q) + msg_bytes bp"
    using q_flow_count [OF ok b r(1)] count_add_u32 [of "band_bytes b (q_list q)" bp] r(2) by (simp add: u32_def)
  then have le: "fst (q_flow b q) \<le> count_add (fst (q_flow b q)) bp" using q_flow_count [OF ok b r(1)] by simp
  show "full_ok (q_flow b q) \<Longrightarrow> full_ok (q_flow b (q_count_in bp ?q))" using f full_in [OF _ le] by auto
  show "want_ok (q_flow b q) \<Longrightarrow> want_ok (q_flow b (q_count_in bp ?q))" using f want_in [OF _ le] by auto
  show "waits (q_flow b (q_count_in bp ?q)) = waits (q_flow b q)" using f by simp
qed

lemma flow_msg_out:
  assumes ok: "q_ok q" and ms: "q_list q = pre @ mp # post" and room: "qbytes (q_list q) < 2 ^ 32" and b: "b \<le> q_nband q"
    and full: "full_ok (q_flow b q)"
  shows "full_ok (q_flow b (q_uncount mp (place mp (pre @ post) q)))"
    "waits (q_flow b (q_uncount mp (place mp (pre @ post) q))) = waits (q_flow b q)"
    "b \<noteq> b_band mp \<Longrightarrow> q_flow b (q_uncount mp (place mp (pre @ post) q)) = q_flow b q"
proof -
  let ?q = "place mp (pre @ post) q"
  have lok: "list_ok (q_nband q) (pre @ mp # post)" using q_ok_list [OF ok] ms by simp
  then have nb: "b_band mp \<le> q_nband q" "msg_fits mp" by (simp_all add: list_ok_def)
  have len: "length (q_bandp ?q) = q_nband ?q" using q_ok_len [OF ok] by (simp add: place_fields)
  have f: "q_flow b (q_uncount mp ?q) = (if b = b_band mp then flow_out (count_sub (fst (q_flow b q)) mp) (q_flow b q) else q_flow b q)"
    using q_flow_out [OF len, of b mp] b nb q_ok_len [OF ok] by simp
  have le: "count_sub (fst (q_flow b q)) mp \<le> fst (q_flow b q)" if "b = b_band mp"
  proof -
    have "band_bytes b (q_list q) = band_bytes b (pre @ post) + msg_bytes mp" using ms that by simp
    moreover have "band_bytes b (q_list q) < 2 ^ 32" using room band_bytes_le [of b "q_list q"] by linarith
    ultimately show ?thesis using q_flow_count [OF ok b room] count_sub_u32 [OF nb(2), of "band_bytes b (pre @ post)"] by (simp add: u32_def)
  qed
  show "full_ok (q_flow b (q_uncount mp ?q))" using f full_out [OF full] le full by auto
  show "waits (q_flow b (q_uncount mp ?q)) = waits (q_flow b q)" using f by simp
  show "b \<noteq> b_band mp \<Longrightarrow> q_flow b (q_uncount mp ?q) = q_flow b q" using f by simp
qed

definition fulls :: "queue \<Rightarrow> bool" where
  "fulls q \<longleftrightarrow> (\<forall>b \<le> q_nband q. full_ok (q_flow b q))"

lemma flow_okI: "q_nband q' = q_nband q \<Longrightarrow> (\<And>b. b \<le> q_nband q \<Longrightarrow> full_ok (q_flow b q') \<and> want_ok (q_flow b q')) \<Longrightarrow> flow_ok q'"
  by (simp add: flow_ok_def)

lemma flow_ok_same: "q_nband q' = q_nband q \<Longrightarrow> (\<And>b. b \<le> q_nband q \<Longrightarrow> q_flow b q' = q_flow b q) \<Longrightarrow> flow_ok q' = flow_ok q"
  by (simp add: flow_ok_def)

lemma q_events_simps [simp]:
  "q_events (q_set f q) = q_events q" "q_events (q_clr f q) = q_events q" "q_events (upd_band b g q) = q_events q"
  "q_events (place bp ms q) = q_events q" "q_events (q_count_in bp q) = q_events q" "q_events (q_uncount bp q) = q_events q"
  by (simp_all add: q_set_def q_clr_def upd_band_def place_def q_count_in_def q_uncount_def Let_def)

lemma enable_events: "\<exists>es. q_events (qenable_locked q) = es @ q_events q"
  by (auto simp: qenable_locked_def Let_def q_log_def)

lemma enable_wakes [simp]: "wakes q (qenable_locked q)"
  using enable_events [of q] by (auto intro: wakes_log)

lemma enable_flow_ok [simp]: "flow_ok (qenable_locked q) = flow_ok q"
  by (rule flow_ok_same) simp_all

text \<open>Taking out a message of a band, with the check that follows.\<close>

lemma flow_remove:
  assumes ok: "q_ok q" and ms: "q_list q = pre @ mp # post" and room: "qbytes (q_list q) < 2 ^ 32" and fl: "flow_ok q"
  shows "flow_ok (qbackenable (b_band mp) (q_uncount mp (place mp (pre @ post) q)))"
    "wakes q (qbackenable (b_band mp) (q_uncount mp (place mp (pre @ post) q)))"
proof -
  let ?q = "q_uncount mp (place mp (pre @ post) q)"
  have full: "full_ok (q_flow b q)" "want_ok (q_flow b q)" if "b \<le> q_nband q" for b using fl that by (simp_all add: flow_ok_def)
  have nb: "b_band mp \<le> q_nband ?q" using q_ok_list [OF ok] ms by (simp add: list_ok_def)
  have len: "length (q_bandp ?q) = q_nband ?q" by (rule q_ok_len [OF q_ok_out [OF ok ms]])
  note out = flow_msg_out [OF ok ms room]
  show "flow_ok (qbackenable (b_band mp) ?q)"
  proof (rule flow_okI [of _ q])
    fix b assume b: "b \<le> q_nband q"
    show "full_ok (q_flow b (qbackenable (b_band mp) ?q)) \<and> want_ok (q_flow b (qbackenable (b_band mp) ?q))"
      using q_flow_backenable [OF len _ nb, of b] b out [OF b full(1) [OF b]] full [OF b] by (auto simp: want_back)
  qed simp
  have "wakes q ?q" using out(2) [OF _ full(1)] by (intro wakes_same) simp_all
  then show "wakes q (qbackenable (b_band mp) ?q)" using backenable_wakes [OF len nb] wakes_trans by blast
qed

lemma rmvq_flow:
  assumes "q_ok q" "q_list q = pre @ mp # post" "qbytes (q_list q) < 2 ^ 32" "flow_ok q" "rmvq (b_id mp) q = Inr q'"
  shows "flow_ok q' \<and> wakes q q'"
proof -
  have "distinct (map b_id (pre @ mp # post))" using list_okD(1) [OF q_ok_list [OF assms(1)]] assms(2) by simp
  then have "q' = qbackenable (b_band mp) (q_uncount mp (place mp (pre @ post) q))"
    using assms(5) rmvq_noenab_eq [OF assms(1,2)] assms(2) by (simp add: rmvq_def split_id_found)
  then show ?thesis using flow_remove [OF assms(1,2,3,4)] by simp
qed

lemma getq_backenable:
  "getq q = map_sum id (\<lambda>(bp, q1). (bp, qbackenable (case bp of None \<Rightarrow> 0 | Some m \<Rightarrow> b_band m) q1)) (getq_noenab q)"
  by (auto simp: getq_def Let_def qbackenable_def split: sum.splits)

lemma flow_ok_back:
  assumes "q_ok q" "flow_ok q"
  shows "flow_ok (qbackenable 0 q)" "wakes q (qbackenable 0 q)"
  using assms q_flow_backenable [OF q_ok_len, of q _ 0] want_back backenable_wakes [OF q_ok_len, of q 0]
  by (auto simp: flow_ok_def)

lemma qbackenable_QWANTR: "qbackenable b (q_clr QWANTR q) = q_clr QWANTR (qbackenable b q)"
proof -
  have d: "QWANTR AND QWANTWSYNC = 0" by (simp add: QWANTR_def QWANTWSYNC_def)
  have s: "q_clr f (q_clr g q) = q_clr g (q_clr f q)" "q_log e (q_clr f q) = q_clr f (q_log e q)" "upd_band b h (q_clr f q) = q_clr f (upd_band b h q)" for f g e h q
    by (simp_all add: q_clr_def q_log_def upd_band_def ac_simps)
  have f: "q_count (q_clr f q) = q_count q" "q_lowat (q_clr f q) = q_lowat q" "q_bandp (q_clr f q) = q_bandp q" for f q by (simp_all add: q_clr_def)
  show ?thesis by (simp add: qbackenable_def Let_def want_mask qf_simps d s f)
qed

lemma getq_flow:
  assumes ok: "q_ok q" and room: "qbytes (q_list q) < 2 ^ 32" and fl: "flow_ok q" and get: "getq q = Inr (r, q')"
  shows "flow_ok q' \<and> wakes q q'"
proof (cases rule: get_msg_cases [of "q_list q"])
  case none
  then obtain q1 where q1: "getq_noenab q = Inr (None, q1)" "q1 = q \<or> q1 = q_set QWANTR q" using getq_noenab_none by fastforce
  then have "flow_ok q1 \<and> wakes q q1 \<and> q_ok q1" using fl ok flow_ok_same [of q1 q] wakes_same [of q1 q] by auto
  moreover have "q' = qbackenable 0 q1" using get q1 getq_backenable [of q] by simp
  ultimately show ?thesis using flow_ok_back [of q1] wakes_trans by blast
next
  case (some pre bp post)
  let ?q = "q_uncount bp (place bp (pre @ post) q)"
  have "getq_noenab q = Inr (Some bp, ?q) \<or> getq_noenab q = Inr (Some bp, q_clr QWANTR ?q)"
    using getq_noenab_skip [OF ok some(1)] getq_noenab_eq [OF ok, of bp post] some(1,2,3) by (cases "pre = []") (auto simp: gettable_def)
  then have "q' = qbackenable (b_band bp) ?q \<or> q' = q_clr QWANTR (qbackenable (b_band bp) ?q)"
    using get getq_backenable [of q] by (auto simp: qbackenable_QWANTR)
  moreover have "flow_ok (q_clr QWANTR x) = flow_ok x" "wakes x (q_clr QWANTR x)" for x
    by (rule flow_ok_same) (simp_all add: wakes_same)
  ultimately show ?thesis using flow_remove [OF ok some(1) room fl] wakes_trans by blast
qed

text \<open>New bands take over the water marks of the queue.\<close>

lemma flow_new_band:
  assumes ok: "q_ok q" and fl: "flow_ok q"
  defines "q1 \<equiv> q\<lparr>q_bandp := q_bandp q @ [allocband (q_hiwat q) (q_lowat q)], q_nband := q_nband q + 1\<rparr>"
  shows "flow_ok q1 \<and> wakes q q1"
proof -
  have len: "length (q_bandp q) = q_nband q" by (rule q_ok_len [OF ok])
  have old: "q_flow b q1 = q_flow b q" if "b \<le> q_nband q" for b
    using that len by (auto simp: q1_def q_flow_def nth_append qf_def)
  have new: "q_flow (q_nband q + 1) q1 = (0, q_hiwat q, q_lowat q, False, False)"
    using len by (simp add: q1_def q_flow_def nth_append allocband_def qbf_def)
  have "full_ok (q_flow 0 q)" using fl by (simp add: flow_ok_def)
  then have hi: "0 < q_hiwat q" "q_lowat q \<le> q_hiwat q" by (simp_all add: q_flow_def)
  have "full_ok (q_flow b q1) \<and> want_ok (q_flow b q1)" if "b \<le> q_nband q + 1" for b
    using that fl old new hi by (cases "b \<le> q_nband q") (auto simp: flow_ok_def le_Suc_eq)
  then have "flow_ok q1" by (simp add: flow_ok_def q1_def)
  moreover have "wakes q q1" using old by (auto simp: wakes_def q1_def)
  ultimately show ?thesis by simp
qed

lemma alloc_bands_flow:
  assumes "q_ok q" "flow_ok q" "band < 256" "alloc_bands avail band q = (ok, q')"
  shows "flow_ok q' \<and> wakes q q'"
  using assms
proof (induction avail arbitrary: q)
  case 0
  then show ?case by (subst (asm) alloc_bands.simps) (auto split: if_splits)
next
  case (Suc k)
  show ?case
  proof (cases "band > q_nband q")
    case True
    let ?q = "q\<lparr>q_bandp := q_bandp q @ [allocband (q_hiwat q) (q_lowat q)], q_nband := q_nband q + 1\<rparr>"
    have "q_ok ?q" using Suc.prems True by (intro q_ok_new_band) simp_all
    moreover have "alloc_bands k band ?q = (ok, q')" using Suc.prems(4) True by (subst (asm) alloc_bands.simps) simp
    ultimately show ?thesis using Suc.IH [of ?q] Suc.prems(3) flow_new_band [OF Suc.prems(1,2)] wakes_trans by blast
  next
    case False
    then show ?thesis using Suc.prems by (subst (asm) alloc_bands.simps) auto
  qed
qed

text \<open>What the three operations that add a message have in common.\<close>

lemma flow_add:
  assumes ok: "q_ok q" and fl: "flow_ok q" and ms: "q_list q = pre @ post" and nb: "b_band bp \<le> q_nband q" and room: "qbytes (pre @ bp # post) < 2 ^ 32"
    and q': "q' = q_count_in bp (place bp (pre @ bp # post) q) \<or> q' = qenable_locked (q_count_in bp (place bp (pre @ bp # post) q))"
  shows "flow_ok q' \<and> wakes q q'"
proof -
  let ?q = "q_count_in bp (place bp (pre @ bp # post) q)"
  note i = flow_msg_in [OF ok ms nb room]
  have "flow_ok ?q" using fl i by (simp add: flow_ok_def)
  moreover have "wakes q ?q" using i(3) by (intro wakes_same) simp_all
  ultimately show ?thesis using q' enable_wakes [of ?q] wakes_trans [of q ?q] by auto
qed

lemma qbytes_simps [simp]: "qbytes (xs @ ys) = qbytes xs + qbytes ys" "qbytes (m # ms) = msg_bytes m + qbytes ms" "qbytes [] = 0"
  by (simp_all add: qbytes_def)

lemma qbytes_ins [simp]: "qbytes (ins_after bp ms) = msg_bytes bp + qbytes ms" "qbytes (ins_before bp ms) = msg_bytes bp + qbytes ms"
proof -
  have "qbytes (takeWhile P ms) + qbytes (dropWhile P ms) = qbytes ms" for P using qbytes_simps(1) [of "takeWhile P ms" "dropWhile P ms"] by simp
  from this [of "\<lambda>m. prio bp \<le> prio m"] this [of "\<lambda>m. prio bp < prio m"]
  show "qbytes (ins_after bp ms) = msg_bytes bp + qbytes ms" "qbytes (ins_before bp ms) = msg_bytes bp + qbytes ms"
    by (simp_all add: ins_after_def ins_before_def)
qed

lemma msg_bytes_put [simp]: "msg_bytes (put_band bp) = msg_bytes bp"
  by (simp add: msg_bytes_def)

lemma putq_flow:
  assumes ok: "q_ok q" and fl: "flow_ok q" and bp: "sized bp" "b_id bp \<notin> b_id ` set (q_list q)" and room: "qbytes (q_list q) + msg_bytes bp < 2 ^ 32"
    and put: "putq avail bp q = Inr (r, q')"
  shows "flow_ok q' \<and> wakes q q'"
proof -
  let ?bp = "put_band bp"
  obtain k q1 where a: "alloc_bands avail (b_band ?bp) q = (k, q1)" by fastforce
  have fit: "msg_fits ?bp" by (rule put_band_fits [OF bp(1)])
  then have b: "b_band ?bp < 256" by (simp add: msg_fits_def)
  note A = alloc_bands_ok [OF ok b a] and F = alloc_bands_flow [OF ok fl b a]
  show ?thesis
  proof (cases k)
    case True
    then have nb: "b_band ?bp \<le> q_nband q1" using A by simp
    have p: "putq_place ?bp q1 = Inr (place ?bp (ins_after ?bp (q_list q1)) q1)" by (rule putq_place_ok) (use A fit nb in simp_all)
    let ?q = "q_count_in ?bp (place ?bp (ins_after ?bp (q_list q1)) q1)"
    have "q' = ?q \<or> q' = qenable_locked ?q" using put a p True by (auto simp: putq_def Let_def split: if_splits)
    moreover have "qbytes (ins_after ?bp (q_list q1)) < 2 ^ 32" using room A by simp
    ultimately have "flow_ok q' \<and> wakes q1 q'" unfolding ins_after_def using A F nb by (intro flow_add [of q1]) simp_all
    then show ?thesis using F wakes_trans by blast
  next
    case False
    then show ?thesis using put a F by (simp add: putq_def Let_def)
  qed
qed

lemma putbq_flow:
  assumes ok: "q_ok q" and fl: "flow_ok q" and bp: "sized bp" "b_id bp \<notin> b_id ` set (q_list q)" and room: "qbytes (q_list q) + msg_bytes bp < 2 ^ 32"
    and put: "putbq avail bp q = Inr (r, q')"
  shows "flow_ok q' \<and> wakes q q'"
proof -
  let ?bp = "put_band bp"
  obtain k q1 where a: "alloc_bands avail (b_band ?bp) q = (k, q1)" by fastforce
  have fit: "msg_fits ?bp" by (rule put_band_fits [OF bp(1)])
  then have b: "b_band ?bp < 256" by (simp add: msg_fits_def)
  note A = alloc_bands_ok [OF ok b a] and F = alloc_bands_flow [OF ok fl b a]
  show ?thesis
  proof (cases k)
    case True
    then have nb: "b_band ?bp \<le> q_nband q1" using A by simp
    have p: "putbq_place ?bp q1 = Inr (place ?bp (ins_before ?bp (q_list q1)) q1)" by (rule putbq_place_ok) (use A fit nb in simp_all)
    let ?q = "q_count_in ?bp (place ?bp (ins_before ?bp (q_list q1)) q1)"
    have "q' = ?q \<or> q' = qenable_locked ?q" using put a p True by (auto simp: putbq_def Let_def split: if_splits)
    moreover have "qbytes (ins_before ?bp (q_list q1)) < 2 ^ 32" using room A by simp
    ultimately have "flow_ok q' \<and> wakes q1 q'" unfolding ins_before_def using A F nb by (intro flow_add [of q1]) simp_all
    then show ?thesis using F wakes_trans by blast
  next
    case False
    then show ?thesis using put a F by (simp add: putbq_def Let_def)
  qed
qed

lemma insq_flow:
  assumes ok: "q_ok q" and fl: "flow_ok q" and leg: "q_legal (InsQ a emp mp) q" and room: "qbytes (q_list q) + msg_bytes mp < 2 ^ 32"
    and ins: "insq a emp mp q = Inr (r, q')"
  shows "flow_ok q' \<and> wakes q q'"
  using leg
proof (cases rule: insq_legal [OF ok, consumes 1, case_names bad good])
  case bad
  then show ?thesis using ins fl by simp
next
  case p: (good pre post)
  let ?mp = "put_band mp"
  obtain k q1 where a: "alloc_bands a (b_band ?mp) q = (k, q1)" by fastforce
  have b: "b_band ?mp < 256" using p(3) by (simp add: list_ok_def msg_fits_def)
  note A = alloc_bands_ok [OF ok b a] and F = alloc_bands_flow [OF ok fl b a] and E = insq_eq [OF ok p a]
  let ?q = "q_count_in ?mp (place ?mp (pre @ ?mp # post) q1)"
  consider "q' = q" | "q' = q1" | "k" "q' = ?q \<or> q' = qenable_locked ?q"
    using ins E(1) by (auto simp: insq_enab_def split: if_splits)
  then show ?thesis
  proof cases
    case 3
    then have "flow_ok q' \<and> wakes q1 q'" using A F p(1) room by (intro flow_add [of q1]) simp_all
    then show ?thesis using F wakes_trans by blast
  qed (use fl F in simp_all)
qed

text \<open>Flushing empties the queue and puts messages back: the water marks and the waiting writers stay what they were.\<close>

fun marks :: "flow \<Rightarrow> nat \<times> nat \<times> bool" where
  "marks (n, hi, lo, full, want) = (hi, lo, want)"

lemma flow_eqI: "full_ok f \<Longrightarrow> full_ok g \<Longrightarrow> marks f = marks g \<Longrightarrow> fst f = fst g \<Longrightarrow> f = g"
  by (cases f rule: waits.cases; cases g rule: waits.cases) auto

lemma marks_in [simp]: "marks (flow_in k f) = marks f"
  by (cases f rule: waits.cases) simp

lemma marks_waits: "marks f = marks g \<Longrightarrow> waits f = waits g"
  by (cases f rule: waits.cases; cases g rule: waits.cases) simp

lemma q_flow_empty:
  assumes "length (q_bandp q) = q_nband q" "b \<le> q_nband q"
  shows "q_flow b (q_empty q) = (case q_flow b q of (n, hi, lo, full, want) \<Rightarrow> (0, hi, lo, False, want))"
  using assms by (auto simp: q_flow_def q_empty_def qf_simps qbf_def Let_def word_flag_simps) (simp_all add: q_clr_def qf_def word_flag_simps)

lemma empty_flow:
  assumes "length (q_bandp q) = q_nband q" "b \<le> q_nband q" "full_ok (q_flow b q)"
  shows "full_ok (q_flow b (q_empty q)) \<and> marks (q_flow b (q_empty q)) = marks (q_flow b q)"
  using q_flow_empty [OF assms(1,2)] assms(3) by (cases "q_flow b q" rule: waits.cases) simp

definition flow_kept :: "queue \<Rightarrow> queue \<Rightarrow> bool" where
  "flow_kept q q' \<longleftrightarrow> q_nband q' = q_nband q \<and> (\<exists>es. q_events q' = es @ q_events q)
     \<and> (\<forall>b \<le> q_nband q. full_ok (q_flow b q) \<longrightarrow> full_ok (q_flow b q') \<and> marks (q_flow b q') = marks (q_flow b q))"

lemma flow_kept_trans: "flow_kept q q1 \<Longrightarrow> flow_kept q1 q2 \<Longrightarrow> flow_kept q q2"
  by (auto simp: flow_kept_def)

lemma putq_last_flow:
  assumes ok: "q_ok q" and m: "msg_fits m" "b_band m \<le> q_nband q" and low: "\<forall>x \<in> set (q_list q). prio m \<le> prio x"
    and room: "qbytes (q_list q @ [m]) < 2 ^ 32" and put: "putq 0 m q = Inr (r, q')"
  shows "flow_kept q q'"
proof -
  let ?q = "q_count_in m (place m (q_list q @ [m]) q)"
  have i: "ins_after m (q_list q) = q_list q @ [m]" using low q_ok_list [OF ok]
    by (intro ins_all) (use last_in_set in \<open>auto simp: list_ok_def\<close>)
  have "alloc_bands 0 (b_band m) q = (True, q)" using m(2) by (subst alloc_bands.simps) simp
  then have q': "q' = ?q \<or> q' = qenable_locked ?q"
    using put putq_place_ok [OF ok m(1,2)] i by (auto simp: putq_def Let_def put_band_id [OF m(1)] split: if_splits)
  have len: "length (q_bandp (place m (q_list q @ [m]) q)) = q_nband q" using q_ok_len [OF ok] by (simp add: place_fields)
  have "marks (q_flow b ?q) = marks (q_flow b q)" if "b \<le> q_nband q" for b
    using q_flow_in [of "place m (q_list q @ [m]) q" b m] len that m(2) q_ok_len [OF ok] by auto
  moreover have "full_ok (q_flow b ?q)" if "b \<le> q_nband q" "full_ok (q_flow b q)" for b
    using flow_msg_in(1) [OF ok _ m(2), of "q_list q" "[]" b] room that by simp
  moreover have "\<exists>es. q_events q' = es @ q_events q" using q' enable_events [of ?q] by auto
  ultimately show ?thesis using q' by (auto simp: flow_kept_def)
qed

lemma flush_back_flow:
  assumes "q_ok q" "list_ok (q_nband q) (q_list q @ ms)" "qbytes (q_list q @ ms) < 2 ^ 32" "flush_back gone ms q = Inr q'"
  shows "flow_kept q q'"
  using assms
proof (induction ms arbitrary: q)
  case (Cons m ms)
  show ?case
  proof (cases "gone m")
    case True
    then show ?thesis using Cons.IH [of q] Cons.prems by (auto simp: list_ok_def q_sorted_append q_sorted_Cons)
  next
    case False
    have m: "msg_fits m" "b_band m \<le> q_nband q" "b_id m \<notin> b_id ` set (q_list q)" "\<forall>x \<in> set (q_list q). prio m \<le> prio x"
      using Cons.prems(2) by (auto simp: list_ok_def q_sorted_append)
    obtain q1 where q1: "putq 0 m q = Inr (True, q1)" "q_ok q1" "q_list q1 = q_list q @ [m]" "q_nband q1 = q_nband q"
      using putq_last [OF Cons.prems(1) m] by blast
    have "flow_kept q q1" by (rule putq_last_flow [OF Cons.prems(1) m(1,2,4) _ q1(1)]) (use Cons.prems(3) in simp)
    moreover have "flow_kept q1 q'" by (rule Cons.IH) (use Cons.prems q1 False in simp_all)
    ultimately show ?thesis by (rule flow_kept_trans)
  qed
qed (auto simp: flow_kept_def)

lemma flush_start:
  assumes ok: "q_ok q" and fl: "flow_ok q" and room: "qbytes (q_list q) < 2 ^ 32" and fb: "flush_back gone (q_list q) (q_empty q) = Inr q1"
  shows "q_nband q1 = q_nband q" "\<exists>es. q_events q1 = es @ q_events q"
    "b \<le> q_nband q \<Longrightarrow> full_ok (q_flow b q1) \<and> marks (q_flow b q1) = marks (q_flow b q)"
    "q_ok q1" "q_list q1 = filter (\<lambda>m. \<not> gone m) (q_list q)"
proof -
  have e: "q_list (q_empty q) = []" "q_nband (q_empty q) = q_nband q" "q_events (q_empty q) = q_events q" by (simp_all add: q_empty_def)
  have k: "flow_kept (q_empty q) q1" by (rule flush_back_flow [OF q_ok_empty [OF ok] _ _ fb]) (use e room q_ok_list [OF ok] in simp_all)
  then show "q_nband q1 = q_nband q" "\<exists>es. q_events q1 = es @ q_events q" using e by (simp_all add: flow_kept_def)
  show "full_ok (q_flow b q1) \<and> marks (q_flow b q1) = marks (q_flow b q)" if "b \<le> q_nband q"
    using k empty_flow [OF q_ok_len [OF ok] that] that fl e by (simp add: flow_kept_def flow_ok_def)
  show "q_ok q1" "q_list q1 = filter (\<lambda>m. \<not> gone m) (q_list q)"
    using flush_back_result [OF q_ok_empty [OF ok], of "q_list q" gone] fb e q_ok_list [OF ok] by auto
qed

lemma flow_back_waits: "full_ok f \<Longrightarrow> full_ok (flow_back f) \<and> want_ok (flow_back f)"
  by (cases f rule: waits.cases) auto

lemma q_log_events: "q_events (q_log e q) = e # q_events q"
  by (simp add: q_log_def)

lemma fold_log_events: "q_events (fold (\<lambda>b. q_log (BackEnable b)) bs q) = rev (map BackEnable bs) @ q_events q"
  "q_flow c (fold (\<lambda>b. q_log (BackEnable b)) bs q) = q_flow c q" "q_nband (fold (\<lambda>b. q_log (BackEnable b)) bs q) = q_nband q"
proof -
  show "q_events (fold (\<lambda>b. q_log (BackEnable b)) bs q) = rev (map BackEnable bs) @ q_events q"
    by (induction bs arbitrary: q) (simp_all add: q_log_def)
qed (induction bs arbitrary: q; simp)+

text \<open>The checks at the end of \<open>flushq\<close> do for every band what \<open>qbackenable\<close> does for one.\<close>

lemma flow_clear_bands:
  assumes "length (q_bandp q) = q_nband q" "b \<le> q_nband q"
  shows "q_flow b (q\<lparr>q_bandp := map (\<lambda>qb. if band_ready qb then qb\<lparr>qb_flag := qb_flag qb AND NOT QB_WANTW\<rparr> else qb) (q_bandp q)\<rparr>)
    = (if b = 0 then q_flow b q else flow_back (q_flow b q))"
  using assms by (auto simp: q_flow_def Let_def band_ready_def qbf_def word_flag_simps)

lemma band_ready_flow: "b \<noteq> 0 \<Longrightarrow> band_ready (q_bandp q ! (b - 1)) \<longleftrightarrow> waits (q_flow b q) \<and> \<not> waits (flow_back (q_flow b q))"
  by (auto simp: band_ready_def q_flow_def Let_def)

lemma zero_ready: "qf q QWANTW \<and> (q_lowat q = 0 \<or> q_count q < q_lowat q) \<longleftrightarrow> waits (q_flow 0 q) \<and> \<not> waits (flow_back (q_flow 0 q))"
  by (auto simp: q_flow_def)

lemma flow_clear_zero:
  assumes "length (q_bandp q) = q_nband q" "b \<le> q_nband q"
  shows "q_flow b (if qf q QWANTW \<and> (q_lowat q = 0 \<or> q_count q < q_lowat q) then q_clr QWANTW q else q)
    = (if b = 0 then flow_back (q_flow b q) else q_flow b q)"
  by (auto simp: q_flow_def qf_simps Let_def) (auto simp: q_clr_def)

lemma flushq_flow:
  assumes ok: "q_ok q" and fl: "flow_ok q" and room: "qbytes (q_list q) < 2 ^ 32" and fq: "flushq flag q = Inr q'"
  shows "flow_ok q' \<and> wakes q q'"
proof (cases "q_list q = []")
  case True
  then show ?thesis using fq fl by (simp add: flushq_def)
next
  case False
  let ?gone = "\<lambda>mp. flag \<or> datamsg (b_type mp)"
  obtain q1 where q1: "flush_back ?gone (q_list q) (q_empty q) = Inr q1" using fq False unfolding flushq_def by (cases "flush_back ?gone (q_list q) (q_empty q)") simp_all
  note S = flush_start [OF ok fl room q1]
  have len: "length (q_bandp q1) = q_nband q1" by (rule q_ok_len [OF S(4)])
  define wanted where "wanted = filter (\<lambda>b. band_ready (q_bandp q1 ! (b - 1))) (rev [1 ..< length (q_bandp q1) + 1])"
  define q2 where "q2 = q1\<lparr>q_bandp := map (\<lambda>qb. if band_ready qb then qb\<lparr>qb_flag := qb_flag qb AND NOT QB_WANTW\<rparr> else qb) (q_bandp q1)\<rparr>"
  define zero where "zero = (qf q2 QWANTW \<and> (q_lowat q2 = 0 \<or> q_count q2 < q_lowat q2))"
  define q3 where "q3 = (if zero then q_clr QWANTW q2 else q2)"
  define q4 where "q4 = fold (\<lambda>b. q_log (BackEnable b)) wanted q3"
  have "flushq flag q = Inr (if zero then q_log (BackEnable 0) q4 else q4)"
    unfolding flushq_def if_not_P [OF False] q1 map_sum.simps flushq_end_def Let_def q4_def q3_def zero_def q2_def wanted_def ..
  then have q': "q' = (if zero then q_log (BackEnable 0) q4 else q4)" using fq by simp
  have n2: "length (q_bandp q2) = q_nband q2" "q_nband q2 = q_nband q" using len S(1) by (simp_all add: q2_def)
  have f: "q_flow b q' = flow_back (q_flow b q1)" if b: "b \<le> q_nband q" for b
  proof -
    have "q_flow b q' = q_flow b q3" by (simp add: q' q4_def fold_log_events)
    also have "\<dots> = (if b = 0 then flow_back (q_flow b q2) else q_flow b q2)"
      unfolding q3_def zero_def using flow_clear_zero [OF n2(1)] b n2(2) by simp
    also have "\<dots> = flow_back (q_flow b q1)" using flow_clear_bands [OF len, folded q2_def, of b] b S(1) by (simp split: if_splits)
    finally show ?thesis .
  qed
  have nb: "q_nband q' = q_nband q" using n2(2) by (simp add: q' q4_def q3_def fold_log_events)
  obtain es where es: "q_events q1 = es @ q_events q" using S(2) by blast
  define es' where "es' = (if zero then [BackEnable 0] else []) @ rev (map BackEnable wanted) @ es"
  have ev: "q_events q' = es' @ q_events q"
  proof -
    have "q_events q3 = es @ q_events q" using es by (simp add: q3_def q2_def)
    then show ?thesis by (cases zero) (simp_all add: q' es'_def q4_def fold_log_events q_log_events)
  qed
  have w: "BackEnable b \<in> set es'" if b: "b \<le> q_nband q" and w: "waits (q_flow b q)" "\<not> waits (q_flow b q')" for b
  proof -
    have w1: "waits (q_flow b q1)" using S(3) [OF b] w(1) marks_waits by metis
    show ?thesis
    proof (cases "b = 0")
      case True
      then have "qf q1 QWANTW \<and> (q_lowat q1 = 0 \<or> q_count q1 < q_lowat q1)" unfolding zero_ready using w1 w(2) f [OF b] by simp
      then have "zero" by (simp add: zero_def q2_def)
      then show ?thesis using True by (simp add: es'_def)
    next
      case False
      then have "b \<in> set wanted" using band_ready_flow [OF False, of q1] w1 w(2) f [OF b] b len S(1) by (simp add: wanted_def del: upt_Suc)
      then show ?thesis by (simp add: es'_def)
    qed
  qed
  have "flow_ok q'" using f S(3) flow_back_waits by (simp add: flow_ok_def nb)
  moreover have "wakes q q'" by (rule wakesI [OF nb ev w])
  ultimately show ?thesis by simp
qed

lemma flushband_zero_flow:
  assumes ok: "q_ok q" and fl: "flow_ok q" and room: "qbytes (q_list q) < 2 ^ 32" and fb: "flushband 0 flag q = Inr q'"
  shows "flow_ok q' \<and> wakes q q'"
proof -
  let ?gone = "\<lambda>mp. b_band mp = 0 \<and> (flag \<or> datamsg (b_type mp))"
  obtain q1 where q1: "flush_back ?gone (q_list q) (q_empty q) = Inr q1"
    using fb unfolding flushband_def by (cases "flush_back ?gone (q_list q) (q_empty q)") simp_all
  note S = flush_start [OF ok fl room q1]
  have len: "length (q_bandp q1) = q_nband q1" by (rule q_ok_len [OF S(4)])
  define zero where "zero = (qf q1 QWANTW \<and> (q_lowat q1 = 0 \<or> q_count q1 < q_lowat q1))"
  have q': "q' = (if zero then q_log (BackEnable 0) (q_clr QWANTW q1) else q1)"
    using fb q1 unfolding flushband_def flushband_end_def zero_def by (auto split: if_splits)
  have f: "q_flow b q' = (if b = 0 then flow_back (q_flow b q1) else q_flow b q1)" if b: "b \<le> q_nband q" for b
    using flow_clear_zero [OF len, of b, folded zero_def] b S(1) unfolding q' by (cases zero) simp_all
  have same: "q_flow b q1 = q_flow b q" if b: "b \<le> q_nband q" "b \<noteq> 0" for b
  proof (rule flow_eqI)
    have "in_band b (q_list q1) = in_band b (q_list q)"
      unfolding S(5) in_band_def filter_filter by (rule filter_cong) (use b in auto)
    then have "band_bytes b (q_list q1) = band_bytes b (q_list q)" by (simp add: band_bytes_def)
    moreover have "qbytes (q_list q1) \<le> qbytes (q_list q)" unfolding S(5) qbytes_def by (rule sum_list_filter_le_nat)
    ultimately show "fst (q_flow b q1) = fst (q_flow b q)"
      using q_flow_count [OF S(4), of b] q_flow_count [OF ok b(1) room] b S(1) room by simp
  qed (use S(3) [OF b(1)] fl b(1) in \<open>simp_all add: flow_ok_def\<close>)
  have nb: "q_nband q' = q_nband q" using S(1) by (simp add: q')
  obtain es where es: "q_events q1 = es @ q_events q" using S(2) by blast
  define es' where "es' = (if zero then [BackEnable 0] else []) @ es"
  have ev: "q_events q' = es' @ q_events q" using es by (simp add: q' q_log_events es'_def)
  have "waits (q_flow 0 q1) = waits (q_flow 0 q)" using S(3) [of 0] marks_waits by blast
  then have "waits (q_flow 0 q) \<longrightarrow> waits (q_flow 0 q') \<or> zero" unfolding zero_def zero_ready using f [of 0] by simp
  then have "BackEnable b \<in> set es'" if "b \<le> q_nband q" "waits (q_flow b q)" "\<not> waits (q_flow b q')" for b
    using that f [of b] same [of b] by (auto simp: es'_def split: if_splits)
  then have "wakes q q'" by (rule wakesI [OF nb ev])
  moreover have "flow_ok q'" using f same S(3) [of 0] flow_back_waits fl by (auto simp: flow_ok_def nb)
  ultimately show ?thesis by simp
qed

lemma flushband_loop_flow:
  assumes "q_ok q" "q_list q = pre @ ms" "flow_ok q" "qbytes (q_list q) < 2 ^ 32" "flushband_loop pri flag lst ms q = Inr q'"
  shows "flow_ok q' \<and> wakes q q'"
  using assms
proof (induction ms arbitrary: pre q)
  case (Cons m ms)
  let ?gone = "b_band m = pri \<and> (flag \<or> datamsg (b_type m))"
  have "\<exists>q1. (if ?gone then rmvq (b_id m) q else Inr q) = Inr q1 \<and> q_ok q1 \<and> flow_ok q1 \<and> wakes q q1
      \<and> q_list q1 = (if ?gone then pre else pre @ [m]) @ ms"
    using rmvq_result [OF Cons.prems(1,2)] rmvq_flow [OF Cons.prems(1,2,4,3)] Cons.prems(1,2,3) by auto
  then obtain q1 where q1: "(if ?gone then rmvq (b_id m) q else Inr q) = Inr q1" "q_ok q1" "flow_ok q1" "wakes q q1"
    "q_list q1 = (if ?gone then pre else pre @ [m]) @ ms" by (elim exE conjE)
  have room: "qbytes (q_list q1) < 2 ^ 32" using Cons.prems(2,4) q1(5) by (simp split: if_splits)
  show ?case
  proof (cases "lst = Some (b_id m)")
    case True
    then have "q' = q1" using q1(1) Cons.prems(5) by (simp add: Let_def)
    then show ?thesis using q1 by simp
  next
    case False
    then have "flushband_loop pri flag lst ms q1 = Inr q'" using q1(1) Cons.prems(5) by (simp add: Let_def)
    then show ?thesis using Cons.IH [OF q1(2,5,3) room] q1(4) wakes_trans by blast
  qed
qed (auto split: if_splits)

lemma flushband_flow:
  assumes ok: "q_ok q" and fl: "flow_ok q" and room: "qbytes (q_list q) < 2 ^ 32" and fb: "flushband pri flag q = Inr q'"
  shows "flow_ok q' \<and> wakes q q'"
proof (cases "pri = 0")
  case True
  then show ?thesis using flushband_zero_flow [OF ok fl room] fb by simp
next
  case False
  show ?thesis
  proof (cases "pri \<le> q_nband q \<and> in_band pri (q_list q) \<noteq> []")
    case True
    then obtain pre ms lst where w: "q_list q = pre @ ms" "flushband pri flag q = flushband_loop pri flag lst ms q"
      using flushband_walk [OF ok, of pri flag] False by (metis gr0I)
    then show ?thesis using flushband_loop_flow [OF ok w(1) fl room] fb by simp
  next
    case F: False
    then have "flushband pri flag q = Inr q" using False q_ok_band(1) [OF ok, of pri] by (auto simp: flushband_def hd_ids)
    then show ?thesis using fb fl by simp
  qed
qed

text \<open>Asking whether a message can be put, and the remaining operations.\<close>

fun flow_want :: "flow \<Rightarrow> flow" where
  "flow_want (n, hi, lo, full, want) = (n, hi, lo, full, full \<or> want)"

lemma flow_want_ok: "full_ok f \<Longrightarrow> want_ok f \<Longrightarrow> full_ok (flow_want f) \<and> want_ok (flow_want f)" "waits f \<Longrightarrow> waits (flow_want f)"
  by (cases f rule: waits.cases; auto)+

lemma bcanput_flow:
  assumes len: "length (q_bandp q) = q_nband q" and b: "b \<le> q_nband q"
  shows "q_flow b (snd (bcanput pri q)) = (if b = pri then flow_want (q_flow b q) else q_flow b q)"
proof (cases "pri = 0")
  case True
  then show ?thesis by (auto simp: bcanput_def q_flow_def qf_simps Let_def) (auto simp: q_set_def)
next
  case False
  then show ?thesis using assms
    by (cases "b = pri") (auto simp: bcanput_def q_flow_def upd_band_def qf_def qbf_def nth_list_update Let_def word_flag_simps)
qed

lemma bcanput_keeps:
  assumes "length (q_bandp q) = q_nband q" "flow_ok q"
  shows "flow_ok (snd (bcanput pri q)) \<and> wakes q (snd (bcanput pri q))"
proof -
  have n: "q_nband (snd (bcanput pri q)) = q_nband q" "q_events (snd (bcanput pri q)) = q_events q" by (simp_all add: bcanput_def)
  have "flow_ok (snd (bcanput pri q))"
    using assms bcanput_flow [OF assms(1), of _ pri] flow_want_ok(1) n(1) by (auto simp: flow_ok_def)
  moreover have "wakes q (snd (bcanput pri q))"
    using bcanput_flow [OF assms(1), of _ pri] n by (intro wakes_same) (auto simp: flow_want_ok(2) split: if_splits)
  ultimately show ?thesis by simp
qed

lemma canput_bcanput: "canput q = bcanput 0 q"
  by (simp add: canput_def bcanput_def)

text \<open>A whole operation that does not move the water marks of the queue or of a band.\<close>

definition q_calm :: "q_op \<Rightarrow> bool" where
  "q_calm opr \<longleftrightarrow> (case opr of StrqSet sz fifo below a what pri v \<Rightarrow> what \<noteq> QHIWAT \<and> what \<noteq> QLOWAT
     | GetQNoEnab \<Rightarrow> False | RmvQNoEnab i \<Rightarrow> False | QBackEnable pri \<Rightarrow> False | FlushTake \<Rightarrow> False | FlushEnd \<Rightarrow> False | FlushBandEnd \<Rightarrow> False
     | _ \<Rightarrow> True)"

definition op_bytes :: "q_op \<Rightarrow> nat" where
  "op_bytes opr = (case opr of PutQ a bp \<Rightarrow> msg_bytes bp | PutBq a bp \<Rightarrow> msg_bytes bp | InsQ a emp bp \<Rightarrow> msg_bytes bp | _ \<Rightarrow> 0)"

lemma q_flow_fields [simp]:
  "q_flow b (q\<lparr>q_maxpsz := v\<rparr>) = q_flow b q" "q_flow b (q\<lparr>q_minpsz := v\<rparr>) = q_flow b q" "q_flow b (q\<lparr>q_struiot := v\<rparr>) = q_flow b q"
  "q_flow b (q\<lparr>sd_qn_maxpsz := v\<rparr>) = q_flow b q" "q_flow b (q\<lparr>sd_qn_minpsz := v\<rparr>) = q_flow b q"
  by (simp_all add: q_flow_def qf_def)

lemma strqset_flow:
  assumes "alloc_bands a pri q = (k, q1)" "what \<noteq> QHIWAT" "what \<noteq> QLOWAT"
  shows "q_flow b (snd (strqset sz fifo below a what pri v q)) = q_flow b (if what = QBAD then q else q1)"
    "q_nband (snd (strqset sz fifo below a what pri v q)) = q_nband (if what = QBAD then q else q1)"
    "q_events (snd (strqset sz fifo below a what pri v q)) = q_events (if what = QBAD then q else q1)"
  using assms by (cases what; simp add: strqset_def Let_def)+

lemma map_sum_snd: "map_sum id snd x = Inr q \<longleftrightarrow> (\<exists>r. x = Inr (r, q))"
  by (cases x) auto

lemma q_exec_flow:
  assumes ok: "q_ok q" and fl: "flow_ok q" and leg: "q_legal opr q" and calm: "q_calm opr" and room: "qbytes (q_list q) + op_bytes opr < 2 ^ 32"
    and ex: "q_exec opr q = Inr q'"
  shows "flow_ok q' \<and> wakes q q'"
proof (cases opr)
  case (PutQ a bp)
  then show ?thesis using putq_flow [OF ok fl, of bp a] leg room ex by (auto simp: q_legal_def op_bytes_def q_exec_def map_sum_snd)
next
  case (PutBq a bp)
  then show ?thesis using putbq_flow [OF ok fl, of bp a] leg room ex by (auto simp: q_legal_def op_bytes_def q_exec_def map_sum_snd)
next
  case (InsQ a emp mp)
  then show ?thesis using insq_flow [OF ok fl, of a emp mp] leg room ex by (auto simp: op_bytes_def q_exec_def map_sum_snd)
next
  case GetQ
  then show ?thesis using getq_flow [OF ok _ fl] room ex by (auto simp: op_bytes_def q_exec_def map_sum_snd)
next
  case (RmvQ i)
  then obtain pre mp post where p: "q_list q = pre @ mp # post" "b_id mp = i"
    using leg by (auto simp: q_legal_def in_set_conv_decomp)
  then show ?thesis using rmvq_flow [OF ok p(1) _ fl] RmvQ room ex by (auto simp: op_bytes_def q_exec_def)
next
  case (FlushQ flag)
  then show ?thesis using flushq_flow [OF ok fl] room ex by (auto simp: op_bytes_def q_exec_def)
next
  case (FlushBand pri flag)
  then show ?thesis using flushband_flow [OF ok fl] room ex by (auto simp: op_bytes_def q_exec_def)
next
  case CanPut
  then show ?thesis using bcanput_keeps [OF q_ok_len [OF ok] fl, of 0] ex by (auto simp: q_exec_def canput_bcanput)
next
  case (BCanPut pri)
  then show ?thesis using bcanput_keeps [OF q_ok_len [OF ok] fl] ex by (auto simp: q_exec_def)
next
  case (StrqSet sz fifo below a what pri v)
  obtain k q1 where a: "alloc_bands a pri q = (k, q1)" by fastforce
  have F: "flow_ok q1 \<and> wakes q q1" by (rule alloc_bands_flow [OF ok fl _ a]) (use leg StrqSet in \<open>simp add: q_legal_def\<close>)
  have "what \<noteq> QHIWAT" "what \<noteq> QLOWAT" using calm StrqSet by (simp_all add: q_calm_def)
  note s = strqset_flow(1) [OF a this, of _ sz fifo below v] strqset_flow(2,3) [OF a this, of sz fifo below v]
  define x where "x = (if what = QBAD then q else q1)"
  have q': "q' = snd (strqset sz fifo below a what pri v q)" using ex StrqSet by (simp add: q_exec_def)
  have "flow_ok x \<and> wakes q x" using F fl by (simp add: x_def)
  moreover have "flow_ok q' = flow_ok x" unfolding q' x_def using s by (intro flow_ok_same) simp_all
  moreover have "wakes x q'" unfolding q' x_def using s by (intro wakes_same) simp_all
  ultimately show ?thesis using wakes_trans by blast
next
  case (StrqGet a what pri)
  obtain k q1 where a: "alloc_bands a pri q = (k, q1)" by fastforce
  have "flow_ok q1 \<and> wakes q q1" by (rule alloc_bands_flow [OF ok fl _ a]) (use leg StrqGet in \<open>simp add: q_legal_def\<close>)
  then show ?thesis using ex StrqGet fl by (auto simp: q_exec_def strqget_core [OF a] split: if_splits)
qed (use ex fl calm flow_ok_same [of q' q] wakes_same [of q' q] in \<open>auto simp: q_exec_def q_calm_def noenable_def enableok_def\<close>)

text \<open>Runs, in which the byte counts do not overflow and nobody moves the water marks.\<close>

inductive q_run :: "queue \<Rightarrow> queue \<Rightarrow> bool" where
  refl: "q_run q q"
| step: "q_run q q1 \<Longrightarrow> q_legal opr q1 \<Longrightarrow> q_calm opr \<Longrightarrow> qbytes (q_list q1) + op_bytes opr < 2 ^ 32 \<Longrightarrow> q_exec opr q1 = Inr q2 \<Longrightarrow> q_run q q2"

lemma q_run_flow:
  assumes "q_run q q'" "q_ok q" "flow_ok q"
  shows "q_ok q' \<and> flow_ok q' \<and> wakes q q'"
  using assms
proof (induction rule: q_run.induct)
  case (step q q1 opr q2)
  then show ?case using q_exec_ok [of q1 opr] q_exec_flow [of q1 opr q2] wakes_trans [of q q1 q2] by auto
qed simp

end
