(* ===== verification/Strq_Props.thy ===== *)
theory Strq_Props
  imports Strq_Flow
begin

text \<open>
  The properties of STREAMS queues: the invariant over all sequences of operations, where \<open>putq\<close>
  puts a message, what \<open>getq\<close> takes, that \<open>putbq\<close> undoes \<open>getq\<close>, that \<open>getq\<close> is \<open>rmvq\<close> of the
  message it returns, what flushing leaves, and that flow control loses no writer.
\<close>

section \<open>Example data\<close>

definition demo_mblk :: "nat \<Rightarrow> nat \<Rightarrow> nat \<Rightarrow> nat list \<Rightarrow> mblk" where
  "demo_mblk i ty band sz = \<lparr>b_id = i, b_type = ty, b_band = band, b_flag = 0, b_sizes = sz\<rparr>"

definition demo_queue :: queue where
  "demo_queue = \<lparr>q_list = [], q_count = 0, q_flag = 0, q_hiwat = 10, q_lowat = 4, q_minpsz = 0, q_maxpsz = 100, q_struiot = 0,
     q_bandp = [], q_nband = 0, q_srvp = True, sd_qn_minpsz = 0, sd_qn_maxpsz = 100, q_events = []\<rparr>"

text \<open>Two messages of 6 bytes, an ordinary one and one in band 1, as two calls of \<open>putq\<close> leave them.\<close>

definition demo_two :: queue where
  "demo_two = demo_queue\<lparr>q_list := [demo_mblk 2 0 1 [6], demo_mblk 1 0 0 [2, 4]], q_count := 6, q_nband := 1, q_flag := QENAB,
     q_bandp := [\<lparr>qb_count = 6, qb_first = Some 2, qb_last = Some 2, qb_hiwat = 10, qb_lowat = 4, qb_flag = 0\<rparr>], q_events := [QRun]\<rparr>"

lemmas demo_q_defs = demo_queue_def demo_mblk_def demo_two_def

lemma demo_init: "q_init demo_queue"
  by (simp add: q_init_def demo_queue_def)

lemmas strq_consts = QENAB_def QWANTR_def QWANTW_def QFULL_def QNOENB_def QINSERVICE_def QWCLOSE_def QWANTWSYNC_def QB_FULL_def QB_WANTW_def
  MSGNOGET_def M_DATA_def M_PROTO_def M_DELAY_def M_PCPROTO_def QNORM_def QPCTL_def

lemmas strq_ops = putq_def put_band_def queclass_def putq_place_def scan_insert_def is_pctl_def set_first_def set_last_def upd_band_def
  q_count_in_def count_add_def canenable_def qf_def qbf_def qenable_locked_def q_set_def q_clr_def q_log_def allocband_def uadd_def u32_def Let_def

lemma alloc_bands_eqs:
  "alloc_bands 0 band q = (band \<le> q_nband q, q)"
  "alloc_bands (Suc k) band q =
     (if q_nband q < band then alloc_bands k band (q\<lparr>q_bandp := q_bandp q @ [allocband (q_hiwat q) (q_lowat q)], q_nband := q_nband q + 1\<rparr>)
      else (True, q))"
  by (subst alloc_bands.simps; simp)+

lemma demo_put1: "putq 1 (demo_mblk 1 0 0 [2, 4]) demo_queue
  = Inr (True, demo_queue\<lparr>q_list := [demo_mblk 1 0 0 [2, 4]], q_count := 6\<rparr>)"
  by (simp add: demo_q_defs strq_ops strq_consts alloc_bands_eqs)

lemma demo_put2: "putq 1 (demo_mblk 2 0 1 [6]) (demo_queue\<lparr>q_list := [demo_mblk 1 0 0 [2, 4]], q_count := 6\<rparr>) = Inr (True, demo_two)"
  by (simp add: demo_q_defs strq_ops strq_consts alloc_bands_eqs)

lemma demo_sized: "sized (demo_mblk i 0 0 [2, 4])" "sized (demo_mblk i 0 1 [6])"
  by (simp_all add: sized_def demo_mblk_def)

lemma demo_two_reach: "q_reach demo_two"
proof -
  let ?q = "demo_queue\<lparr>q_list := [demo_mblk 1 0 0 [2, 4]], q_count := 6\<rparr>"
  have "q_reach ?q"
    by (rule q_reach.step [OF q_reach.init [OF demo_init], of "PutQ 1 (demo_mblk 1 0 0 [2, 4])"])
       (simp_all add: q_legal_def q_exec_def demo_put1 [unfolded One_nat_def] demo_sized, simp add: demo_q_defs)
  then show ?thesis
    by (rule q_reach.step [of _ "PutQ 1 (demo_mblk 2 0 1 [6])"])
       (simp_all add: q_legal_def q_exec_def demo_put2 [unfolded One_nat_def] demo_sized [unfolded One_nat_def], simp add: demo_q_defs)
qed

lemma demo_two_ok: "q_ok demo_two"
  by (rule q_reach_ok [OF demo_two_reach])

section \<open>The invariant\<close>

text \<open>
  C3: From an empty queue, whatever sequence of the queue routines, and of the parts of those that
  drop the lock in the middle (\<open>getq\<close>, \<open>rmvq\<close>, \<open>flushq\<close>, \<open>flushband\<close> of band 0), is carried out, the queue
  stays well formed: the messages are in order of priority, the first and last pointers of every band
  point at the first and last message of the band, and the byte counts of band 0 and of every band
  are the sums of the message sizes. No operation follows a null or stale pointer. Callers do what
  they owe: a message put is not on a queue yet, a message removed or inserted before is on this
  one, and \<open>insq\<close> is not asked to put an ordinary message right before a high priority one or a high
  priority message behind an ordinary last one; of the other places \<open>insq\<close> refuses those that
  are out of order.
\<close>

theorem strq_reach_safe:
  assumes "q_reach q"
  shows "q_ok q \<and> (\<forall>opr. q_legal opr q \<longrightarrow> (\<exists>q'. q_exec opr q = Inr q'))"
  using q_reach_ok [OF assms] q_exec_ok by auto

theorem strq_reach_safe_witness: "q_ok demo_two \<and> (\<exists>q'. q_exec (FlushBand 1 True) demo_two = Inr q')"
  using strq_reach_safe [OF demo_two_reach] by (simp add: q_legal_def)

section \<open>Order\<close>

lemma ins_after_parts:
  assumes "q_sorted ms"
  shows "\<exists>hi lo. ms = hi @ lo \<and> ins_after bp ms = hi @ bp # lo \<and> (\<forall>m \<in> set hi. prio bp \<le> prio m) \<and> (\<forall>m \<in> set lo. prio m < prio bp)"
proof (intro exI conjI)
  show "ms = takeWhile (\<lambda>m. prio m \<ge> prio bp) ms @ dropWhile (\<lambda>m. prio m \<ge> prio bp) ms" by simp
  show "ins_after bp ms = takeWhile (\<lambda>m. prio m \<ge> prio bp) ms @ bp # dropWhile (\<lambda>m. prio m \<ge> prio bp) ms" by (simp add: ins_after_def)
  show "\<forall>m \<in> set (takeWhile (\<lambda>m. prio m \<ge> prio bp) ms). prio bp \<le> prio m" by (auto dest: set_takeWhileD)
  show "\<forall>m \<in> set (dropWhile (\<lambda>m. prio m \<ge> prio bp) ms). prio m < prio bp" using assms
    by (induction ms) (auto simp: q_sorted_Cons)
qed

text \<open>
  C22: \<open>putq\<close> succeeds exactly when there is memory for the bands that are missing. It then puts
  the message behind all messages of at least its priority and in front of all of lower priority,
  so that messages of one priority leave in the order of their arrival; otherwise the messages on
  the queue are as before.
\<close>

theorem putq_inserts:
  assumes "q_ok q" "sized bp" "b_id bp \<notin> b_id ` set (q_list q)"
  shows "\<exists>q'. putq avail bp q = Inr (b_band (put_band bp) \<le> q_nband q + avail, q') \<and> q_ok q'
    \<and> (if b_band (put_band bp) \<le> q_nband q + avail
       then \<exists>hi lo. q_list q = hi @ lo \<and> q_list q' = hi @ put_band bp # lo
          \<and> (\<forall>m \<in> set hi. prio bp \<le> prio m) \<and> (\<forall>m \<in> set lo. prio m < prio bp)
       else q_list q' = q_list q)"
proof -
  obtain q' where q': "putq avail bp q = Inr (b_band (put_band bp) \<le> q_nband q + avail, q')" "q_ok q'"
    "q_list q' = (if b_band (put_band bp) \<le> q_nband q + avail then ins_after (put_band bp) (q_list q) else q_list q)"
    using putq_result [OF assms, of avail] by blast
  show ?thesis
    using q' ins_after_parts [OF list_okD(2) [OF q_ok_list [OF assms(1)]], of "put_band bp"]
    by (intro exI [of _ q'] conjI) (simp_all del: put_band_simps(4))
qed

theorem putq_inserts_witness:
  "\<exists>q'. putq 0 (demo_mblk 3 0 1 [6]) demo_two = Inr (True, q') \<and> q_ok q'
     \<and> (\<exists>hi lo. q_list demo_two = hi @ lo \<and> q_list q' = hi @ demo_mblk 3 0 1 [6] # lo \<and> (\<forall>m \<in> set hi. 1 \<le> prio m) \<and> (\<forall>m \<in> set lo. prio m < 1))"
  using putq_inserts [OF demo_two_ok demo_sized(2) [of 3], of 0]
  by (simp add: demo_q_defs prio_def is_pctl_def queclass_def put_band_def QPCTL_def QNORM_def)

section \<open>Taking messages\<close>

lemma get_msg_first:
  assumes "q_sorted ms" "get_msg ms = Some bp"
  shows "bp \<in> set ms \<and> gettable bp \<and> (\<forall>m \<in> set ms. gettable m \<longrightarrow> prio m \<le> prio bp)"
  by (cases rule: get_msg_cases [of ms]) (use assms in \<open>auto simp: q_sorted_append q_sorted_Cons\<close>)

text \<open>
  C23: \<open>getq\<close> returns, and takes off the queue, the first message that is not marked as one not
  to be taken, which is one of highest priority among those, and nothing exactly when there is no
  such message; the queue stays well formed.
\<close>

theorem getq_takes:
  assumes "q_ok q"
  shows "\<exists>r q'. getq q = Inr (r, q') \<and> q_ok q'
    \<and> (case r of
         None \<Rightarrow> (\<forall>m \<in> set (q_list q). \<not> gettable m) \<and> q_list q' = q_list q
       | Some bp \<Rightarrow> gettable bp \<and> (\<forall>m \<in> set (q_list q). gettable m \<longrightarrow> prio m \<le> prio bp)
           \<and> (\<exists>pre post. q_list q = pre @ bp # post \<and> q_list q' = pre @ post \<and> (\<forall>m \<in> set pre. \<not> gettable m)))"
proof -
  obtain q' where q': "getq q = Inr (get_msg (q_list q), q')" "q_ok q'" "q_list q' = get_rest (q_list q)" using getq_result [OF assms] by blast
  note s = get_msg_first [OF list_okD(2) [OF q_ok_list [OF assms]]]
  show ?thesis
  proof (cases rule: get_msg_cases [of "q_list q"])
    case none
    then show ?thesis using q' by auto
  next
    case (some pre bp post)
    then show ?thesis using q' s [of bp] by (intro exI [of _ "Some bp"] exI [of _ q']) auto
  qed
qed

theorem getq_takes_witness: "\<exists>q'. getq demo_two = Inr (Some (demo_mblk 2 0 1 [6]), q') \<and> q_list q' = [demo_mblk 1 0 0 [2, 4]]"
proof -
  have "get_msg (q_list demo_two) = Some (demo_mblk 2 0 1 [6])" by (simp add: get_msg_def gettable_def demo_q_defs)
  then show ?thesis using getq_takes [OF demo_two_ok] getq_result [OF demo_two_ok]
    by (auto simp: demo_q_defs get_rest_def gettable_def split: option.splits)
qed

text \<open>A well formed queue is determined by its messages and the number of its bands.\<close>

lemma q_core_unique:
  assumes "q_ok q" "q_ok q'" "q_list q = q_list q'" "q_nband q = q_nband q'"
  shows "q_core q = q_core q'"
proof -
  let ?v = "\<lambda>qb. (qb_first qb, qb_last qb, qb_count qb)"
  have "map ?v (q_bandp q) = map ?v (q_bandp q')"
  proof (rule nth_equalityI)
    fix i assume "i < length (map ?v (q_bandp q))"
    then have i: "i < q_nband q" "i < length (q_bandp q)" "i < length (q_bandp q')" using q_ok_len [OF assms(1)] q_ok_len [OF assms(2)] assms(4) by simp_all
    then have "band_ok (q_list q) (Suc i) (q_bandp q ! i)" "band_ok (q_list q) (Suc i) (q_bandp q' ! i)"
      using assms unfolding q_ok_def by (metis Suc_leI diff_Suc_1 zero_less_Suc)+
    then show "map ?v (q_bandp q) ! i = map ?v (q_bandp q') ! i" using i by (simp add: band_ok_def)
  qed (use q_ok_len [OF assms(1)] q_ok_len [OF assms(2)] assms(4) in simp)
  then show ?thesis using assms by (simp add: q_core_def q_ok_def)
qed

lemma putbq_nband:
  assumes ok: "q_ok q" and fit: "msg_fits bp" "b_band bp \<le> q_nband q" and put: "putbq 0 bp q = Inr (r, q')"
  shows "q_nband q' = q_nband q"
  using put putbq_place_ok [OF ok fit] fit(2) by (auto simp: putbq_def put_band_id [OF fit(1)] alloc_bands_eqs Let_def split: if_splits)

lemma ins_before_head:
  assumes "q_sorted (bp # rest)"
  shows "ins_before bp rest = bp # rest"
proof -
  have "takeWhile (\<lambda>m. prio m > prio bp) rest = [] \<and> dropWhile (\<lambda>m. prio m > prio bp) rest = rest"
    using assms by (cases rest) (auto simp: q_sorted_Cons)
  then show ?thesis by (simp add: ins_before_def)
qed

text \<open>
  C26: \<open>putbq\<close> undoes \<open>getq\<close>: when the first message of the queue can be taken, \<open>getq\<close> returns it
  and putting it back with \<open>putbq\<close> restores the messages, the byte counts and the pointers of all
  bands.
\<close>

theorem getq_putbq_roundtrip:
  assumes "q_ok q" "q_list q = bp # rest" "gettable bp"
  shows "\<exists>q1 q2. getq q = Inr (Some bp, q1) \<and> q_list q1 = rest \<and> putbq 0 bp q1 = Inr (True, q2) \<and> q_core q2 = q_core q"
proof -
  have lok: "list_ok (q_nband q) (bp # rest)" using q_ok_list [OF assms(1)] assms(2) by simp
  then have fit: "msg_fits bp" "b_band bp \<le> q_nband q" "b_id bp \<notin> b_id ` set rest" "q_sorted (bp # rest)" by (auto simp: list_ok_def)
  have sz: "sized bp" using fit(1) by (simp add: msg_fits_def sized_def)
  have "get_msg (q_list q) = Some bp" "get_rest (q_list q) = rest" using assms(2,3) by (simp_all add: get_msg_def get_rest_def)
  then obtain q1 where q1: "getq q = Inr (Some bp, q1)" "q_ok q1" "q_list q1 = rest" "q_nband q1 = q_nband q"
    using getq_result [OF assms(1)] by auto
  then obtain q2 where q2: "putbq 0 bp q1 = Inr (True, q2)" "q_ok q2" "q_list q2 = bp # rest"
    using putbq_result [OF q1(2) sz, of 0] fit ins_before_head by (auto simp: put_band_id [OF fit(1)])
  have "q_nband q2 = q_nband q" using putbq_nband [OF q1(2) fit(1) _ q2(1)] fit(2) q1(4) by simp
  then have "q_core q2 = q_core q" using q2 assms by (intro q_core_unique) simp_all
  then show ?thesis using q1 q2 by blast
qed

theorem getq_putbq_roundtrip_witness:
  "\<exists>q1 q2. getq demo_two = Inr (Some (demo_mblk 2 0 1 [6]), q1) \<and> q_list q1 = [demo_mblk 1 0 0 [2, 4]]
     \<and> putbq 0 (demo_mblk 2 0 1 [6]) q1 = Inr (True, q2) \<and> q_core q2 = q_core demo_two"
  by (rule getq_putbq_roundtrip [OF demo_two_ok]) (simp_all add: demo_q_defs gettable_def)

text \<open>
  C25: \<open>getq\<close>, which adjusts the pointers of the band in its own way, is equivalent to \<open>rmvq\<close> of
  the message it returns: the queues they leave, flags and calls to enable others included, are
  the same, but for the flag that a reader waits, which \<open>getq\<close> clears when the first message of
  the queue can be taken.
\<close>

theorem getq_is_rmvq:
  assumes "q_ok q" "getq q = Inr (Some bp, q1)"
  shows "\<exists>q2. rmvq (b_id bp) q = Inr q2 \<and> q1 = (if gettable (hd (q_list q)) then q_clr QWANTR q2 else q2)"
proof (cases rule: get_msg_cases [of "q_list q"])
  case none
  then show ?thesis using assms getq_result [OF assms(1)] by auto
next
  case (some pre bp' post)
  then have bp: "bp' = bp" using assms getq_result [OF assms(1)] by auto
  let ?q = "q_uncount bp (place bp (pre @ post) q)"
  have "distinct (map b_id (pre @ bp # post))" using list_okD(1) [OF q_ok_list [OF assms(1)]] some(1) bp by simp
  then have r: "rmvq (b_id bp) q = Inr (qbackenable (b_band bp) ?q)"
    using rmvq_noenab_eq [OF assms(1) some(1)] some(1) bp by (simp add: rmvq_def split_id_found)
  have "getq_noenab q = Inr (Some bp, if gettable (hd (q_list q)) then q_clr QWANTR ?q else ?q)"
    using getq_noenab_skip [OF assms(1) some(1)] getq_noenab_eq [OF assms(1), of bp post] some(1,2,3) bp
    by (cases pre) (simp_all add: gettable_def)
  then show ?thesis using assms(2) r getq_backenable [of q] by (auto simp: qbackenable_QWANTR)
qed

theorem getq_is_rmvq_witness: "\<exists>q1. getq demo_two = Inr (Some (demo_mblk 2 0 1 [6]), q1) \<and> (\<exists>q2. rmvq 2 demo_two = Inr q2 \<and> q1 = q_clr QWANTR q2)"
proof -
  obtain q1 where q1: "getq demo_two = Inr (Some (demo_mblk 2 0 1 [6]), q1)"
    using getq_result [OF demo_two_ok] by (auto simp: get_msg_def gettable_def demo_q_defs)
  then show ?thesis using getq_is_rmvq [OF demo_two_ok q1] by (simp add: demo_q_defs gettable_def)
qed

section \<open>Flushing\<close>

text \<open>
  C24: \<open>flushq\<close> and \<open>flushband\<close> return and leave, in the order they had, exactly the messages
  that are not to be flushed: all others, or those of other bands, and without \<^verbatim>\<open>FLUSHALL\<close> also
  those that are not data.
\<close>

theorem flush_leaves:
  assumes "q_ok q"
  shows "(\<exists>q'. flushq all q = Inr q' \<and> q_ok q' \<and> q_list q' = filter (\<lambda>m. \<not> (all \<or> datamsg (b_type m))) (q_list q))
    \<and> (\<exists>q'. flushband pri all q = Inr q' \<and> q_ok q' \<and> q_list q' = filter (\<lambda>m. \<not> (b_band m = pri \<and> (all \<or> datamsg (b_type m)))) (q_list q))"
  using flushq_result [OF assms, of all] flushband_result [OF assms, of pri all] by blast

theorem flush_leaves_witness:
  "(\<exists>q'. flushq False demo_two = Inr q' \<and> q_list q' = []) \<and> (\<exists>q'. flushband 1 False demo_two = Inr q' \<and> q_list q' = [demo_mblk 1 0 0 [2, 4]])"
  using flush_leaves [OF demo_two_ok, of False 1] by (auto simp: demo_q_defs datamsg_def M_DATA_def)

section \<open>Flow control\<close>

lemma q_init_flow: "q_init q \<Longrightarrow> 0 < q_hiwat q \<Longrightarrow> q_lowat q \<le> q_hiwat q \<Longrightarrow> flow_ok q"
  by (simp add: q_init_def flow_ok_def q_flow_def qf_def)

lemma bcanput_False: "bcanput pri q = (False, q') \<Longrightarrow> pri \<le> q_nband q"
  by (auto simp: bcanput_def split: if_splits)

lemma bcanput_waits:
  assumes "q_ok q" "bcanput pri q = (False, q')"
  shows "q_ok q'" "pri \<le> q_nband q'" "waits (q_flow pri q')"
proof -
  show "q_ok q'" using assms by (auto simp: bcanput_def split: if_splits)
  show nb: "pri \<le> q_nband q'" using bcanput_False [OF assms(2)] assms(2) by (auto simp: bcanput_def split: if_splits)
  have full: "qf q QFULL \<or> pri \<noteq> 0" "pri \<noteq> 0 \<Longrightarrow> qbf (q_bandp q ! (pri - 1)) QB_FULL" using assms(2) by (auto simp: bcanput_def split: if_splits)
  have "q_flow pri (snd (bcanput pri q)) = flow_want (q_flow pri q)"
    using bcanput_flow [OF q_ok_len [OF assms(1)] bcanput_False [OF assms(2)], of pri] by simp
  then show "waits (q_flow pri q')" using assms(2) full by (cases "pri = 0") (simp_all add: q_flow_def Let_def)
qed

text \<open>
  C7: Flow control loses no writer. From an empty queue with a positive high water mark and a low
  water mark not above it, after any whole operations of callers that do what they owe, none of
  which moves a water mark with \<open>strqset\<close> or brings the bytes on the queue to \<^verbatim>\<open>2^32\<close>: when a writer
  is refused for a band and any such operations follow, the queue behind has been enabled for this
  band, or the band still is marked to be waited for and its count is not below the low water
  mark; when the low water mark is zero, the band is still full.
\<close>

theorem strq_no_lost_writer:
  assumes "q_init q0" "0 < q_hiwat q0" "q_lowat q0 \<le> q_hiwat q0" "q_run q0 q1" "bcanput pri q1 = (False, q2)" "q_run q2 q3"
  shows "\<exists>es. q_events q3 = es @ q_events q2
    \<and> (BackEnable pri \<in> set es
       \<or> (\<exists>n hi lo full. q_flow pri q3 = (n, hi, lo, full, True) \<and> lo \<le> n \<and> (lo = 0 \<longrightarrow> full) \<and> (full \<longleftrightarrow> hi \<le> n)))"
proof -
  have 1: "q_ok q1" "flow_ok q1" using q_run_flow [OF assms(4) q_init_ok q_init_flow] assms(1,2,3) by simp_all
  note w = bcanput_waits [OF 1(1) assms(5)]
  have "flow_ok q2" using bcanput_keeps [OF q_ok_len [OF 1(1)] 1(2), of pri] assms(5) by simp
  then have 3: "flow_ok q3" "wakes q2 q3" using q_run_flow [OF assms(6) w(1)] by simp_all
  then obtain es where es: "q_events q3 = es @ q_events q2" "waits (q_flow pri q3) \<or> BackEnable pri \<in> set es" "pri \<le> q_nband q3"
    using w(2,3) by (auto simp: wakes_def)
  moreover have "full_ok (q_flow pri q3)" "want_ok (q_flow pri q3)" using 3(1) es(3) by (simp_all add: flow_ok_def)
  ultimately show ?thesis by (cases "q_flow pri q3" rule: waits.cases) (intro exI [of _ es], auto)
qed

text \<open>Twelve bytes fill the queue; a writer is refused; then the reader takes the message.\<close>

definition demo_full :: queue where
  "demo_full = demo_queue\<lparr>q_list := [demo_mblk 3 0 0 [12]], q_count := 12, q_flag := QFULL\<rparr>"

lemma demo_full_run: "q_run demo_queue demo_full"
  by (rule q_run.step [OF q_run.refl, of "PutQ 0 (demo_mblk 3 0 0 [12])"])
     (simp_all add: q_legal_def q_calm_def op_bytes_def q_exec_def sized_def demo_full_def demo_q_defs msg_bytes_def qbytes_def
        strq_ops strq_consts alloc_bands_eqs)

lemma demo_full_refused: "bcanput 0 demo_full = (False, demo_full\<lparr>q_flag := QFULL OR QWANTW\<rparr>)"
  by (simp add: bcanput_def qf_def q_set_def demo_full_def strq_consts)

lemma demo_full_get:
  "q_run (demo_full\<lparr>q_flag := QFULL OR QWANTW\<rparr>) (demo_queue\<lparr>q_events := [BackEnable 0]\<rparr>)"
  by (rule q_run.step [OF q_run.refl, of GetQ])
     (simp_all add: q_legal_def q_calm_def op_bytes_def q_exec_def demo_full_def demo_q_defs msg_bytes_def qbytes_def getq_def getq_noenab_def
        q_uncount_def count_sub_def usub_def qbackenable_def strq_ops strq_consts)

theorem strq_no_lost_writer_witness:
  "\<exists>es. [BackEnable 0] = es @ [] \<and> (BackEnable 0 \<in> set es
     \<or> (\<exists>n hi lo full. q_flow 0 (demo_queue\<lparr>q_events := [BackEnable 0]\<rparr>) = (n, hi, lo, full, True) \<and> lo \<le> n \<and> (lo = 0 \<longrightarrow> full) \<and> (full \<longleftrightarrow> hi \<le> n)))"
  using strq_no_lost_writer [OF demo_init _ _ demo_full_run demo_full_refused demo_full_get] by (simp add: demo_full_def demo_queue_def)

section \<open>Observations\<close>

text \<open>
  \<open>strqset\<close> of the maximum packet size of a band is refused, but on a queue below a stream head the
  size cached in the stream head changes all the same.
\<close>

lemma strqset_refused_caches:
  "strqset 0 False True 1 QMAXPSZ 1 7 demo_two = (Some EINVAL, demo_two\<lparr>sd_qn_maxpsz := 7\<rparr>)"
  by (simp add: strqset_def head_maxpsz_def alloc_bands_eqs demo_q_defs)

text \<open>
  The checks of \<open>insq\<close> let an ordinary message in front of a high priority one, after which the
  queue is no longer in order of priority.
\<close>

lemma insq_before_pctl:
  "\<exists>q q'. q_reach q \<and> insq 0 (Some 1) (demo_mblk 2 0 0 [1]) q = Inr (True, q') \<and> \<not> q_sorted (q_list q')"
proof -
  let ?q = "demo_queue\<lparr>q_list := [demo_mblk 1 128 0 [1]], q_count := 1, q_flag := QENAB, q_events := [QRun]\<rparr>"
  have "q_reach ?q"
    by (rule q_reach.step [OF q_reach.init [OF demo_init], of "PutQ 0 (demo_mblk 1 128 0 [1])"])
       (simp_all add: q_legal_def q_exec_def sized_def demo_q_defs strq_ops strq_consts alloc_bands_eqs)
  moreover have "\<exists>q'. insq 0 (Some 1) (demo_mblk 2 0 0 [1]) ?q = Inr (True, q') \<and> q_list q' = [demo_mblk 2 0 0 [1], demo_mblk 1 128 0 [1]]"
    by (simp add: insq_def insq_bad_def demo_q_defs strq_ops strq_consts alloc_bands_eqs)
  moreover have "\<not> q_sorted [demo_mblk 2 0 0 [1], demo_mblk 1 128 0 [1]]"
    by (simp add: q_sorted_def prio_def is_pctl_def QPCTL_def demo_mblk_def)
  ultimately show ?thesis by metis
qed

text \<open>
  And a high priority message is let in at the end, behind an ordinary one.
\<close>

lemma insq_pctl_last:
  "\<exists>q'. insq 0 None (demo_mblk 3 128 0 [1]) demo_two = Inr (True, q') \<and> \<not> q_sorted (q_list q')"
  by (simp add: insq_def insq_bad_def demo_q_defs strq_ops strq_consts alloc_bands_eqs q_sorted_def prio_def)

text \<open>
  \<open>flushband\<close> of a band other than 0 has read the next message before \<open>rmvq\<close>, which drops the
  lock. When another thread takes that message meanwhile, the walk goes on with a message that is not on
  the queue.
\<close>

lemma flushband_stale_next:
  assumes "b_id m \<notin> b_id ` set (q_list q')" "b_band m = pri" "flag"
  shows "flushband_loop pri flag lst (m # ms) q' = Inl (Wild ''rmvq'')"
proof -
  have "split_id (b_id m) (q_list q') = None" using assms(1) by (simp add: split_id_None)
  then show ?thesis using assms(2,3) by (simp add: rmvq_def)
qed

end
