(* ===== verification/Dsort.thy ===== *)
theory Dsort
  imports Kernel_Prelude
begin

text \<open>
  The seek sort for disks, \<^verbatim>\<open>os/bdev_dsort.c\<close>. The queue of a unit is a chain of buffers linked by
  \<^verbatim>\<open>av_forw\<close>; the links and the cylinder numbers (\<^verbatim>\<open>b_cylin\<close>, which is \<^verbatim>\<open>b_resid\<close>) are stores indexed by
  the address of the buffer, and address 0 is the null pointer. The loops follow links, so on a
  cyclic chain they would not end: they are partial functions and \<open>None\<close> is a loop that runs on.

  The chain is one sweep of the disk followed by the next one: buffers in ascending order of
  cylinders, then those that came too late for this sweep, again in ascending order.
\<close>

section \<open>The code\<close>

record diskq =
  av_forw :: "nat \<Rightarrow> nat"
  b_cylin :: "nat \<Rightarrow> nat"
  b_actf :: nat
  b_actl :: nat

text \<open>The three loops; each gives the buffer to insert behind.\<close>

partial_function (option) dsort_second :: "diskq \<Rightarrow> nat \<Rightarrow> nat \<Rightarrow> nat option" where
  "dsort_second dp bp ap =
     (if b_cylin dp bp < b_cylin dp (av_forw dp ap) then Some ap
      else if av_forw dp (av_forw dp ap) \<noteq> 0 then dsort_second dp bp (av_forw dp ap)
      else Some (av_forw dp ap))"

partial_function (option) dsort_invert :: "diskq \<Rightarrow> nat \<Rightarrow> nat \<Rightarrow> nat option" where
  "dsort_invert dp bp ap =
     (if av_forw dp ap \<noteq> 0 then
        if b_cylin dp (av_forw dp ap) < b_cylin dp ap then dsort_second dp bp ap
        else dsort_invert dp bp (av_forw dp ap)
      else Some ap)"

partial_function (option) dsort_first :: "diskq \<Rightarrow> nat \<Rightarrow> nat \<Rightarrow> nat option" where
  "dsort_first dp bp ap =
     (if av_forw dp ap \<noteq> 0 then
        if b_cylin dp (av_forw dp ap) < b_cylin dp ap \<or> b_cylin dp bp < b_cylin dp (av_forw dp ap) then Some ap
        else dsort_first dp bp (av_forw dp ap)
      else Some ap)"

definition disksort :: "diskq \<Rightarrow> nat \<Rightarrow> diskq option" where
  "disksort dp bp =
     (let ap = b_actf dp in
      if ap = 0 then Some (dp\<lparr>b_actf := bp, b_actl := bp, av_forw := (av_forw dp)(bp := 0)\<rparr>)
      else
        case (if b_cylin dp bp < b_cylin dp ap then dsort_invert dp bp ap else dsort_first dp bp ap) of
          None \<Rightarrow> None
        | Some ap \<Rightarrow>
            (let dp1 = dp\<lparr>av_forw := (av_forw dp)(bp := av_forw dp ap, ap := bp)\<rparr>
             in Some (if ap = b_actl dp then dp1\<lparr>b_actl := bp\<rparr> else dp1)))"

section \<open>Chains and sweeps\<close>

primrec chain :: "(nat \<Rightarrow> nat) \<Rightarrow> nat \<Rightarrow> nat list \<Rightarrow> bool" where
  "chain f p [] \<longleftrightarrow> p = 0"
| "chain f p (x # xs) \<longleftrightarrow> p = x \<and> x \<noteq> 0 \<and> chain f (f x) xs"

text \<open>What the queue is for: two lists, each in order of cylinders; a request goes behind those of its cylinder.\<close>

definition cyl_insert :: "(nat \<Rightarrow> nat) \<Rightarrow> nat \<Rightarrow> nat list \<Rightarrow> nat list" where
  "cyl_insert c bp xs = takeWhile (\<lambda>x. c x \<le> c bp) xs @ bp # dropWhile (\<lambda>x. c x \<le> c bp) xs"

fun sweep_insert :: "(nat \<Rightarrow> nat) \<Rightarrow> nat \<Rightarrow> nat list \<times> nat list \<Rightarrow> nat list \<times> nat list" where
  "sweep_insert c bp ([], zs) = ([bp], zs)"
| "sweep_insert c bp (y # ys, zs) =
     (if c bp < c y then (y # ys, cyl_insert c bp zs) else (cyl_insert c bp (y # ys), zs))"

fun sweeps_ok :: "(nat \<Rightarrow> nat) \<Rightarrow> nat list \<times> nat list \<Rightarrow> bool" where
  "sweeps_ok c (ys, zs) \<longleftrightarrow> sorted (map c ys) \<and> sorted (map c zs) \<and> (if ys = [] then zs = [] else \<forall>z \<in> set zs. c z < c (hd ys))"

definition diskq_ok :: "diskq \<Rightarrow> nat list \<times> nat list \<Rightarrow> bool" where
  "diskq_ok dp s \<longleftrightarrow> chain (av_forw dp) (b_actf dp) (fst s @ snd s) \<and> distinct (fst s @ snd s)
     \<and> (fst s \<noteq> [] \<longrightarrow> b_actl dp = last (fst s @ snd s)) \<and> sweeps_ok (b_cylin dp) s"

lemma chain_upd: "a \<notin> set xs \<Longrightarrow> chain (f(a := v)) p xs = chain f p xs"
  by (induction xs arbitrary: p) auto

lemma chain_insert:
  assumes "chain f p (xs @ ys)" "distinct (xs @ ys)" "xs \<noteq> []" "b \<notin> set (xs @ ys)" "b \<noteq> 0"
  shows "chain (f(b := f (last xs), last xs := b)) p (xs @ b # ys)"
  using assms
proof (induction xs arbitrary: p)
  case (Cons a xs)
  show ?case
  proof (cases "xs = []")
    case True
    define g where "g = f(b := f a, a := b)"
    have "chain g (f a) ys" unfolding g_def using Cons.prems True chain_upd [of a ys "f(b := f a)" b "f a"] chain_upd [of b ys f "f a" "f a"] by simp
    moreover have "g a = b" "g b = f a" using Cons.prems by (auto simp: g_def)
    ultimately have "chain g p ((a # xs) @ b # ys)" using Cons.prems True by simp
    moreover have "last (a # xs) = a" using True by simp
    ultimately show ?thesis unfolding g_def by (simp only:)
  next
    case False
    then have "last xs \<noteq> a" using Cons.prems(2) last_in_set [of xs] by auto
    then show ?thesis using Cons.IH [of "f a"] Cons.prems False by auto
  qed
qed simp

text \<open>The loops on a chain: \<open>ap\<close> and what follows it.\<close>

lemma dsort_second_ends:
  assumes "chain (av_forw dp) ap (ap # x # xs)"
  shows "dsort_second dp bp ap = Some (last (ap # takeWhile (\<lambda>z. b_cylin dp z \<le> b_cylin dp bp) (x # xs)))"
  using assms
proof (induction xs arbitrary: ap x)
  case Nil
  then show ?case by (subst dsort_second.simps) auto
next
  case (Cons y ys)
  have f: "av_forw dp ap = x" "av_forw dp x = y" "y \<noteq> 0" using Cons.prems by auto
  show ?case
  proof (cases "b_cylin dp bp < b_cylin dp x")
    case True
    then show ?thesis using f by (subst dsort_second.simps) simp
  next
    case False
    then show ?thesis using f Cons.IH [of x y] Cons.prems by (subst dsort_second.simps) simp
  qed
qed

lemma dsort_first_ends:
  assumes "chain (av_forw dp) ap (ap # ys @ zs)" "sorted (map (b_cylin dp) (ap # ys))" "zs \<noteq> [] \<longrightarrow> b_cylin dp (hd zs) < b_cylin dp (last (ap # ys))"
  shows "dsort_first dp bp ap = Some (last (ap # takeWhile (\<lambda>z. b_cylin dp z \<le> b_cylin dp bp) ys))"
  using assms
proof (induction ys arbitrary: ap)
  case Nil
  then show ?case by (cases zs) (subst dsort_first.simps, auto)+
next
  case (Cons y ys)
  have f: "av_forw dp ap = y" "y \<noteq> 0" "\<not> b_cylin dp y < b_cylin dp ap" using Cons.prems by auto
  then show ?case using Cons.IH [of y] Cons.prems by (subst dsort_first.simps) (cases "b_cylin dp bp < b_cylin dp y"; simp)
qed

lemma dsort_invert_ends:
  assumes "chain (av_forw dp) ap (ap # ys @ zs)" "sorted (map (b_cylin dp) (ap # ys))" "zs \<noteq> [] \<longrightarrow> b_cylin dp (hd zs) < b_cylin dp (last (ap # ys))"
  shows "dsort_invert dp bp ap = Some (last (ap # ys @ takeWhile (\<lambda>z. b_cylin dp z \<le> b_cylin dp bp) zs))"
  using assms
proof (induction ys arbitrary: ap)
  case Nil
  show ?case
  proof (cases zs)
    case (Cons z zs')
    then show ?thesis using Nil dsort_second_ends [of dp ap z zs' bp] by (subst dsort_invert.simps) auto
  qed (use Nil in \<open>subst dsort_invert.simps, simp\<close>)
next
  case (Cons y ys)
  have "dsort_invert dp bp ap = dsort_invert dp bp y" using Cons.prems by (subst dsort_invert.simps) auto
  then show ?case using Cons.IH [of y] Cons.prems by simp
qed

section \<open>Inserting a request\<close>

lemma cyl_insert_set: "set (cyl_insert c bp xs) = insert bp (set xs)"
proof -
  have "set (takeWhile P xs) \<union> set (dropWhile P xs) = set xs" for P by (simp flip: set_append)
  then show ?thesis by (simp add: cyl_insert_def)
qed

lemma cyl_insert_sorted: "sorted (map c xs) \<Longrightarrow> sorted (map c (cyl_insert c bp xs))"
proof (induction xs)
  case (Cons x xs)
  show ?case
  proof (cases "c x \<le> c bp")
    case True
    then have "cyl_insert c bp (x # xs) = x # cyl_insert c bp xs" by (simp add: cyl_insert_def)
    then show ?thesis using Cons True by (simp add: cyl_insert_set)
  qed (use Cons.prems in \<open>auto simp: cyl_insert_def\<close>)
qed (simp add: cyl_insert_def)

lemma sweep_insert_ok: "sweeps_ok c (ys, zs) \<Longrightarrow> sweeps_ok c (sweep_insert c bp (ys, zs))"
proof (cases ys)
  case (Cons y ys')
  assume s: "sweeps_ok c (ys, zs)"
  show ?thesis
  proof (cases "c bp < c y")
    case True
    then show ?thesis using s Cons cyl_insert_sorted [of c zs bp] by (simp add: cyl_insert_set)
  next
    case False
    then have "cyl_insert c bp (y # ys') = y # cyl_insert c bp ys'" by (simp add: cyl_insert_def)
    then show ?thesis using s Cons False cyl_insert_sorted [of c ys bp] by simp
  qed
qed simp

text \<open>Behind which buffer the code inserts, and that it does.\<close>

lemma disksort_behind:
  assumes ok: "diskq_ok dp (ys, zs)" and bp: "bp \<noteq> 0" "bp \<notin> set (ys @ zs)"
    and all: "ys @ zs = xs @ rest" "xs \<noteq> []" and ap: "(if b_cylin dp bp < b_cylin dp (b_actf dp) then dsort_invert dp bp (b_actf dp) else dsort_first dp bp (b_actf dp)) = Some (last xs)"
    and ne: "ys \<noteq> []"
  shows "\<exists>dp'. disksort dp bp = Some dp' \<and> chain (av_forw dp') (b_actf dp') (xs @ bp # rest) \<and> b_actl dp' = last (xs @ bp # rest)
    \<and> b_cylin dp' = b_cylin dp \<and> b_actf dp' = b_actf dp \<and> (\<forall>p. p \<noteq> bp \<longrightarrow> p \<notin> set (ys @ zs) \<longrightarrow> av_forw dp' p = av_forw dp p)"
proof -
  have c: "chain (av_forw dp) (b_actf dp) (xs @ rest)" "distinct (xs @ rest)" and l: "b_actl dp = last (xs @ rest)"
    using ok all ne by (simp_all add: diskq_ok_def)
  have "b_actf dp \<noteq> 0" using c(1) all(2) by (cases xs) auto
  moreover have "last xs = b_actl dp \<longleftrightarrow> rest = []"
  proof (cases "rest = []")
    case False
    then have "last xs \<noteq> last rest" using c(2) last_in_set [OF all(2)] last_in_set [OF False] by auto
    then show ?thesis using False l by simp
  qed (use l in simp)
  moreover have "last xs \<in> set (ys @ zs)" using all by simp
  moreover define g where "g = (av_forw dp)(bp := av_forw dp (last xs), last xs := bp)"
  ultimately have "chain g (b_actf dp) (xs @ bp # rest)" "\<forall>p. p \<noteq> bp \<longrightarrow> p \<notin> set (ys @ zs) \<longrightarrow> g p = av_forw dp p"
    and e: "disksort dp bp = Some (if last xs = b_actl dp then dp\<lparr>av_forw := g, b_actl := bp\<rparr> else dp\<lparr>av_forw := g\<rparr>)" "last xs = b_actl dp \<longleftrightarrow> rest = []"
    using chain_insert [OF c all(2) _ bp(1)] bp(2) all(1) unfolding disksort_def Let_def ap by (auto simp: g_def)
  then show ?thesis using l by (cases "rest = []") simp_all
qed

lemma disksort_inserts:
  assumes ok: "diskq_ok dp (ys, zs)" and bp: "bp \<noteq> 0" "bp \<notin> set (ys @ zs)"
  shows "\<exists>dp'. disksort dp bp = Some dp' \<and> diskq_ok dp' (sweep_insert (b_cylin dp) bp (ys, zs)) \<and> b_cylin dp' = b_cylin dp
    \<and> (\<forall>p. p \<noteq> bp \<longrightarrow> p \<notin> set (ys @ zs) \<longrightarrow> av_forw dp' p = av_forw dp p)"
proof (cases ys)
  case Nil
  then have "zs = []" "b_actf dp = 0" using ok by (auto simp: diskq_ok_def)
  then show ?thesis using Nil bp by (simp add: disksort_def diskq_ok_def)
next
  case (Cons y ys')
  let ?c = "b_cylin dp" and ?le = "\<lambda>x. b_cylin dp x \<le> b_cylin dp bp"
  have o: "chain (av_forw dp) y (y # ys' @ zs)" "b_actf dp = y" "distinct (y # ys' @ zs)" "sweeps_ok ?c (y # ys', zs)" "sorted (map ?c (y # ys'))"
    using ok Cons by (simp_all add: diskq_ok_def)
  have inv: "zs \<noteq> [] \<longrightarrow> ?c (hd zs) < ?c (last (y # ys'))"
  proof
    assume "zs \<noteq> []"
    then have "?c (hd zs) < ?c y" using o(4) by simp
    also have "\<dots> \<le> ?c (last (y # ys'))" using o(5) by (cases ys' rule: rev_cases) auto
    finally show "?c (hd zs) < ?c (last (y # ys'))" .
  qed
  show ?thesis
  proof (cases "?c bp < ?c y")
    case True
    let ?xs = "y # ys' @ takeWhile ?le zs" and ?rest = "dropWhile ?le zs"
    have "\<exists>dp'. disksort dp bp = Some dp' \<and> chain (av_forw dp') (b_actf dp') (?xs @ bp # ?rest) \<and> b_actl dp' = last (?xs @ bp # ?rest)
        \<and> b_cylin dp' = b_cylin dp \<and> b_actf dp' = b_actf dp \<and> (\<forall>p. p \<noteq> bp \<longrightarrow> p \<notin> set (ys @ zs) \<longrightarrow> av_forw dp' p = av_forw dp p)"
      by (rule disksort_behind [OF ok bp]) (use Cons True o(2) dsort_invert_ends [OF o(1,5) inv, of bp] in simp_all)
    moreover have "distinct (?xs @ bp # ?rest)" using o(3) bp(2) Cons set_takeWhileD [of _ ?le zs] set_dropWhileD [of _ ?le zs]
      distinct_append [of "takeWhile ?le zs" "dropWhile ?le zs"] by auto
    ultimately show ?thesis using Cons True sweep_insert_ok [OF o(4), of bp] by (auto simp: diskq_ok_def cyl_insert_def)
  next
    case False
    let ?xs = "y # takeWhile ?le ys'" and ?rest = "dropWhile ?le ys' @ zs"
    have "\<exists>dp'. disksort dp bp = Some dp' \<and> chain (av_forw dp') (b_actf dp') (?xs @ bp # ?rest) \<and> b_actl dp' = last (?xs @ bp # ?rest)
        \<and> b_cylin dp' = b_cylin dp \<and> b_actf dp' = b_actf dp \<and> (\<forall>p. p \<noteq> bp \<longrightarrow> p \<notin> set (ys @ zs) \<longrightarrow> av_forw dp' p = av_forw dp p)"
      by (rule disksort_behind [OF ok bp]) (use Cons False o(2) dsort_first_ends [OF o(1,5) inv, of bp] in simp_all)
    moreover have "distinct (?xs @ bp # ?rest)" using o(3) bp(2) Cons set_takeWhileD [of _ ?le ys'] set_dropWhileD [of _ ?le ys']
      distinct_append [of "takeWhile ?le ys'" "dropWhile ?le ys'"] by auto
    ultimately show ?thesis using Cons False sweep_insert_ok [OF o(4), of bp] by (auto simp: diskq_ok_def cyl_insert_def)
  qed
qed

text \<open>
  C18: \<open>disksort\<close> returns: on the chain of a disk queue none of its loops runs on. It implements
  insertion into a pair of sorted lists, the sweep under way and the next one: a request at or
  after the cylinder of the first request goes into the sweep under way and any other into the
  next one, in both cases behind the requests for the same cylinder. The links make up one chain
  again with \<^verbatim>\<open>b_actl\<close> at its end, and no link of any other buffer changes.
\<close>

theorem disksort_returns:
  assumes "diskq_ok dp s" "bp \<noteq> 0" "bp \<notin> set (fst s @ snd s)"
  shows "\<exists>dp'. disksort dp bp = Some dp' \<and> diskq_ok dp' (sweep_insert (b_cylin dp) bp s) \<and> b_cylin dp' = b_cylin dp
    \<and> (\<forall>p. p \<noteq> bp \<longrightarrow> p \<notin> set (fst s @ snd s) \<longrightarrow> av_forw dp' p = av_forw dp p)"
  using disksort_inserts [of dp "fst s" "snd s" bp] assms by simp

text \<open>The head is at cylinder 50; requests for 60 and, in the next sweep, 10 and 30 are queued.\<close>

definition demo_disk :: diskq where
  "demo_disk = \<lparr>av_forw = (\<lambda>_. 0)(1 := 2, 2 := 3, 3 := 4), b_cylin = (\<lambda>_. 0)(1 := 50, 2 := 60, 3 := 10, 4 := 30, 5 := 20),
     b_actf = 1, b_actl = 4\<rparr>"

lemma demo_disk_ok: "diskq_ok demo_disk ([1, 2], [3, 4])"
  by (simp add: diskq_ok_def demo_disk_def)

theorem disksort_returns_witness: "\<exists>dp'. disksort demo_disk 5 = Some dp' \<and> diskq_ok dp' ([1, 2], [3, 5, 4])"
  using disksort_returns [OF demo_disk_ok, of 5] by (auto simp: demo_disk_def cyl_insert_def)

end
