(* ===== verification/Share.thy ===== *)
theory Share
  imports Kernel_Prelude
begin

text \<open>
  Share reservations on a vnode, \<^verbatim>\<open>os/share.c\<close>: what a process may open a file for and what it
  denies others, with a compatibility mode for DOS clients. The reservations of a vnode are a list
  with the newest first, so the first reservation that was made is the last of the list
  (\<^verbatim>\<open>shrl->next == NULL\<close>). An owner is the string of its \<^verbatim>\<open>own_len\<close> bytes. Each routine runs under
  the lock of the vnode and is one step.
\<close>

section \<open>Data\<close>

definition F_RDACC :: "16 word" where "F_RDACC = 0x1"
definition F_WRACC :: "16 word" where "F_WRACC = 0x2"
definition F_RWACC :: "16 word" where "F_RWACC = 0x3"
definition F_NODNY :: "16 word" where "F_NODNY = 0x0"
definition F_RDDNY :: "16 word" where "F_RDDNY = 0x1"
definition F_WRDNY :: "16 word" where "F_WRDNY = 0x2"
definition F_RWDNY :: "16 word" where "F_RWDNY = 0x3"
definition F_COMPAT :: "16 word" where "F_COMPAT = 0x8"
definition VFS_RDONLY :: "32 word" where "VFS_RDONLY = 0x01"

record shrlock =
  access :: "16 word"
  deny :: "16 word"
  sysid :: int
  pid :: int
  owner :: "8 word list"

datatype vtype = VNON | VREG | VDIR | VBLK | VCHR | VLNK | VFIFO | VDOOR | VPROC | VSOCK | VBAD

record vnode =
  v_type :: vtype
  vfs_flag :: "32 word"
  v_shrlocks :: "shrlock list"

abbreviation compat :: "shrlock \<Rightarrow> bool" where
  "compat s \<equiv> deny s AND F_COMPAT \<noteq> 0"

abbreviation writes :: "shrlock \<Rightarrow> bool" where
  "writes s \<equiv> access s AND F_WRACC \<noteq> 0"

section \<open>The code\<close>

definition isreadonly :: "vnode \<Rightarrow> bool" where
  "isreadonly vp \<longleftrightarrow> v_type vp \<noteq> VCHR \<and> v_type vp \<noteq> VBLK \<and> v_type vp \<noteq> VFIFO \<and> vfs_flag vp AND VFS_RDONLY \<noteq> 0"

definition same_owner :: "shrlock \<Rightarrow> shrlock \<Rightarrow> bool" where
  "same_owner s shr \<longleftrightarrow> sysid s = sysid shr \<and> pid s = pid shr \<and> owner s = owner shr"

text \<open>The loop over the reservations; \<open>None\<close> is the way to the end of the loop or out of it by \<^verbatim>\<open>break\<close>.\<close>

fun share_scan :: "vnode \<Rightarrow> shrlock \<Rightarrow> shrlock list \<Rightarrow> errno option" where
  "share_scan vp shr [] = None"
| "share_scan vp shr (s # rest) =
     (if same_owner s shr \<and> access s = access shr \<and> deny s = deny shr then Some EEXIST
      else if same_owner s shr \<and> compat s \<and> compat shr \<and> (rest = [] \<or> writes s) then None
      else if compat s \<and> rest = [] then
        if \<not> compat shr then
          if writes shr \<or> deny shr AND F_RDDNY \<noteq> 0 \<or> writes s then Some EAGAIN
          else if isreadonly vp then None
          else Some EAGAIN
        else if access shr = F_RDACC \<and> access s = F_RDACC then None
        else Some EAGAIN
      else if compat s \<and> compat shr then share_scan vp shr rest
      else if compat shr then
        if writes shr \<or> deny s AND F_RDDNY \<noteq> 0 \<or> writes s then Some EAGAIN
        else if rest = [] then
          if access s = F_RDACC \<and> isreadonly vp then None else Some EAGAIN
        else share_scan vp shr rest
      else if access shr AND deny s \<noteq> 0 \<or> deny shr AND access s \<noteq> 0 then Some EAGAIN
      else share_scan vp shr rest)"

definition share_bad :: "shrlock \<Rightarrow> bool" where
  "share_bad shr \<longleftrightarrow> access shr = 0 \<or> access shr AND NOT (F_RDACC OR F_WRACC OR F_RWACC) \<noteq> 0
     \<or> deny shr AND NOT (F_NODNY OR F_RDDNY OR F_WRDNY OR F_RWDNY OR F_COMPAT) \<noteq> 0"

definition add_share :: "vnode \<Rightarrow> shrlock \<Rightarrow> errno option \<times> vnode" where
  "add_share vp shr =
     (if share_bad shr then (Some EINVAL, vp)
      else
        case share_scan vp shr (v_shrlocks vp) of
          Some e \<Rightarrow> (Some e, vp)
        | None \<Rightarrow>
            (let new = (if compat shr then shr\<lparr>deny := F_COMPAT\<rparr> else shr)
             in (None, vp\<lparr>v_shrlocks := new # v_shrlocks vp\<rparr>)))"

text \<open>Which reservations \<open>del_share\<close> is asked to delete.\<close>

definition share_matches :: "shrlock \<Rightarrow> shrlock \<Rightarrow> bool" where
  "share_matches shr s \<longleftrightarrow>
     length (owner shr) = length (owner s) \<and> owner shr = owner s
     \<or> length (owner shr) = 0 \<and> (sysid shr = 0 \<and> pid shr = pid s \<or> sysid shr \<noteq> 0 \<and> sysid shr = sysid s)"

fun del_loop :: "shrlock \<Rightarrow> shrlock list \<Rightarrow> nat \<Rightarrow> shrlock list \<times> nat" where
  "del_loop shr [] found = ([], found)"
| "del_loop shr (s # rest) found =
     (if share_matches shr s then del_loop shr rest (found + 1)
      else let (rest', found') = del_loop shr rest found in (s # rest', found'))"

definition del_share :: "vnode \<Rightarrow> shrlock \<Rightarrow> errno option \<times> vnode" where
  "del_share vp shr =
     (let (ss, found) = del_loop shr (v_shrlocks vp) 0
      in (if found \<noteq> 0 then None else Some EINVAL, vp\<lparr>v_shrlocks := ss\<rparr>))"

definition cleanshares :: "vnode \<Rightarrow> int \<Rightarrow> vnode" where
  "cleanshares vp p =
     (if v_shrlocks vp = [] then vp
      else snd (del_share vp \<lparr>access = 0, deny = 0, sysid = 0, pid = p, owner = []\<rparr>))"

fun remote_scan :: "int \<Rightarrow> shrlock list \<Rightarrow> bool" where
  "remote_scan sys [] = False"
| "remote_scan sys (s # rest) = (if sys \<noteq> 0 \<and> sysid s = sys \<or> sys = 0 \<and> sysid s \<noteq> 0 then True else remote_scan sys rest)"

definition shr_has_remote_shares :: "vnode \<Rightarrow> int \<Rightarrow> bool" where
  "shr_has_remote_shares vp sys = remote_scan sys (v_shrlocks vp)"

section \<open>What reservations guarantee each other\<close>

definition no_clash :: "shrlock \<Rightarrow> shrlock \<Rightarrow> bool" where
  "no_clash s t \<longleftrightarrow> access s AND deny t = 0 \<and> deny s AND access t = 0"

text \<open>
  Two ordinary reservations do not clash; an ordinary one and one in compatibility mode meet only on
  a read-only file; and a reservation to write in compatibility mode has the owner of the first
  reservation, which is in compatibility mode too.
\<close>

definition shares_ok :: "bool \<Rightarrow> shrlock list \<Rightarrow> bool" where
  "shares_ok ro ss \<longleftrightarrow>
     sorted_wrt (\<lambda>s t. \<not> compat s \<and> \<not> compat t \<longrightarrow> no_clash s t) ss
     \<and> (\<forall>s \<in> set ss. \<forall>t \<in> set ss. compat s \<and> \<not> compat t \<longrightarrow> ro)
     \<and> (\<forall>s \<in> set ss. compat s \<and> writes s \<longrightarrow> compat (last ss) \<and> same_owner s (last ss))"

inductive share_reach :: "vnode \<Rightarrow> bool" where
  init: "v_shrlocks vp = [] \<Longrightarrow> share_reach vp"
| add: "share_reach vp \<Longrightarrow> share_reach (snd (add_share vp shr))"
| del: "share_reach vp \<Longrightarrow> share_reach (snd (del_share vp shr))"
| clean: "share_reach vp \<Longrightarrow> share_reach (cleanshares vp p)"

lemma scan_ordinary:
  assumes "share_scan vp shr ss = None" "\<not> compat shr"
  shows "\<forall>t \<in> set ss. \<not> compat t \<longrightarrow> no_clash shr t" "ss \<noteq> [] \<Longrightarrow> compat (last ss) \<Longrightarrow> isreadonly vp"
  using assms by (induction ss) (auto simp: no_clash_def split: if_splits)

text \<open>A reservation in compatibility mode, over a list that satisfies the invariant.\<close>

lemma scan_compat:
  assumes "share_scan vp shr ss = None" "compat shr" "ss \<noteq> []"
  shows "\<exists>u \<in> set ss. same_owner u shr \<and> compat u \<and> (u = last ss \<or> writes u)
    \<or> compat (last ss) \<and> access shr = F_RDACC \<or> isreadonly vp \<and> \<not> writes shr"
  using assms by (induction ss) (fastforce split: if_splits)+

lemma same_owner_simps: "same_owner s s" "same_owner u s \<Longrightarrow> same_owner u t \<Longrightarrow> same_owner s t" "same_owner (s\<lparr>deny := d\<rparr>) t = same_owner s t"
  by (auto simp: same_owner_def)

lemma shares_ok_ordinary:
  assumes "shares_ok (isreadonly vp) ss" "share_scan vp shr ss = None" "\<not> compat shr"
  shows "shares_ok (isreadonly vp) (shr # ss)"
proof -
  note c = scan_ordinary [OF assms(2,3)]
  have "isreadonly vp" if "t \<in> set ss" "compat t" for t
  proof -
    have ne: "ss \<noteq> []" using that(1) by auto
    show ?thesis
    proof (cases "compat (last ss)")
      case True
      then show ?thesis using c(2) [OF ne] by blast
    next
      case False
      then show ?thesis using assms(1) that last_in_set [OF ne] unfolding shares_ok_def by blast
    qed
  qed
  moreover have "last (shr # ss) = last ss" if "t \<in> set ss" for t using that by auto
  ultimately show ?thesis using assms(1,3) c(1) unfolding shares_ok_def by (auto simp del: last.simps)
qed

lemma shares_ok_compat:
  assumes ok: "shares_ok (isreadonly vp) ss" and scan: "share_scan vp shr ss = None" and shr: "compat shr"
  shows "shares_ok (isreadonly vp) (shr\<lparr>deny := F_COMPAT\<rparr> # ss)"
proof (cases "ss = []")
  case True
  then show ?thesis by (simp add: shares_ok_def F_COMPAT_def same_owner_def)
next
  case False
  let ?new = "shr\<lparr>deny := F_COMPAT\<rparr>"
  have w: "\<And>u. u \<in> set ss \<Longrightarrow> compat u \<and> writes u \<Longrightarrow> compat (last ss) \<and> same_owner u (last ss)"
    and mix: "\<And>s t. s \<in> set ss \<Longrightarrow> t \<in> set ss \<Longrightarrow> compat s \<Longrightarrow> \<not> compat t \<Longrightarrow> isreadonly vp"
    and srt: "sorted_wrt (\<lambda>s t. \<not> compat s \<and> \<not> compat t \<longrightarrow> no_clash s t) ss"
    using ok unfolding shares_ok_def by blast+
  have l: "last ss \<in> set ss" using False by simp
  obtain u where u: "u \<in> set ss" "same_owner u shr \<and> compat u \<and> (u = last ss \<or> writes u)
      \<or> compat (last ss) \<and> access shr = F_RDACC \<or> isreadonly vp \<and> \<not> writes shr"
    using scan_compat [OF scan shr False] by blast
  have ro: "isreadonly vp" if "t \<in> set ss" "\<not> compat t" for t using u mix [of u t] mix [of "last ss" t] that l by blast
  have c: "compat ?new" by (simp add: F_COMPAT_def)
  have wn: "compat (last ss) \<and> same_owner ?new (last ss)" if "writes shr"
  proof -
    have "access shr \<noteq> F_RDACC" using that by (auto simp: F_RDACC_def F_WRACC_def)
    then have "same_owner u shr" "compat u" "u = last ss \<or> writes u" using u(2) that by blast+
    then show ?thesis using w [OF u(1)] same_owner_simps by blast
  qed
  show ?thesis unfolding shares_ok_def
  proof (intro conjI)
    show "sorted_wrt (\<lambda>s t. \<not> compat s \<and> \<not> compat t \<longrightarrow> no_clash s t) (?new # ss)" using srt c by simp
    show "\<forall>s \<in> set (?new # ss). \<forall>t \<in> set (?new # ss). compat s \<and> \<not> compat t \<longrightarrow> isreadonly vp"
      using ro c mix by (metis set_ConsD)
    show "\<forall>s \<in> set (?new # ss). compat s \<and> writes s \<longrightarrow> compat (last (?new # ss)) \<and> same_owner s (last (?new # ss))"
      using wn w False by auto
  qed
qed

lemma add_share_readonly: "isreadonly (snd (add_share vp shr)) = isreadonly vp" "isreadonly (snd (del_share vp shr)) = isreadonly vp"
  by (simp_all add: add_share_def del_share_def isreadonly_def Let_def split: option.splits prod.splits)

lemma add_share_ok:
  assumes "shares_ok (isreadonly vp) (v_shrlocks vp)"
  shows "shares_ok (isreadonly vp) (v_shrlocks (snd (add_share vp shr)))"
  using assms shares_ok_ordinary [OF assms] shares_ok_compat [OF assms] by (simp add: add_share_def Let_def split: option.splits)

lemma del_loop_filter: "del_loop shr ss n = (filter (\<lambda>s. \<not> share_matches shr s) ss, n + length (filter (share_matches shr) ss))"
  by (induction ss arbitrary: n) simp_all

lemma shares_ok_filter:
  assumes ok: "shares_ok ro ss" and P: "\<And>s t. same_owner s t \<Longrightarrow> P s = P t"
  shows "shares_ok ro (filter P ss)"
proof -
  have "compat (last (filter P ss)) \<and> same_owner s (last (filter P ss))" if f: "s \<in> set (filter P ss)" "compat s \<and> writes s" for s
  proof -
    have s: "s \<in> set ss" "P s" "compat s" "writes s" using f by simp_all
    have l: "compat (last ss)" "same_owner s (last ss)" using ok s by (auto simp: shares_ok_def)
    then have "P (last ss)" using P s(2) by blast
    then have "last (filter P ss) = last ss" using s(1) by (cases ss rule: rev_cases) auto
    then show ?thesis using l by simp
  qed
  moreover have "sorted_wrt (\<lambda>s t. \<not> compat s \<and> \<not> compat t \<longrightarrow> no_clash s t) (filter P ss)"
    using ok unfolding shares_ok_def by (intro sorted_wrt_filter) blast
  moreover have "\<forall>s \<in> set (filter P ss). \<forall>t \<in> set (filter P ss). compat s \<and> \<not> compat t \<longrightarrow> ro"
    using ok unfolding shares_ok_def by (metis filter_is_subset subsetD)
  ultimately show ?thesis unfolding shares_ok_def by blast
qed

lemma del_share_eq: "del_share vp shr =
    (if \<exists>s \<in> set (v_shrlocks vp). share_matches shr s then None else Some EINVAL,
     vp\<lparr>v_shrlocks := filter (\<lambda>s. \<not> share_matches shr s) (v_shrlocks vp)\<rparr>)"
  by (auto simp: del_share_def del_loop_filter filter_empty_conv)

lemma del_share_ok:
  assumes "shares_ok ro (v_shrlocks vp)"
  shows "shares_ok ro (v_shrlocks (snd (del_share vp shr)))"
  using shares_ok_filter [OF assms, of "\<lambda>s. \<not> share_matches shr s"] by (simp add: del_share_eq same_owner_def share_matches_def)

lemma cleanshares_del: "cleanshares vp p = snd (del_share vp \<lparr>access = 0, deny = 0, sysid = 0, pid = p, owner = []\<rparr>)"
  by (simp add: cleanshares_def del_share_eq)

text \<open>
  C17: However reservations are added, deleted and cleaned up, two ordinary reservations on a vnode
  never clash: neither has access to what the other denies. Ordinary reservations and such in
  compatibility mode are together only on a read-only file, and a reservation to write in
  compatibility mode belongs to the owner of the first reservation, itself in this mode.
\<close>

theorem shares_never_clash:
  assumes "share_reach vp"
  shows "shares_ok (isreadonly vp) (v_shrlocks vp)"
  using assms
proof (induction rule: share_reach.induct)
  case (init vp)
  then show ?case by (simp add: shares_ok_def)
qed (use add_share_ok del_share_ok in \<open>simp_all add: add_share_readonly cleanshares_del\<close>)

definition demo_vnode :: vnode where
  "demo_vnode = \<lparr>v_type = VREG, vfs_flag = 0, v_shrlocks = []\<rparr>"

definition demo_share :: "16 word \<Rightarrow> 16 word \<Rightarrow> int \<Rightarrow> shrlock" where
  "demo_share a d p = \<lparr>access = a, deny = d, sysid = 0, pid = p, owner = [1]\<rparr>"

lemmas share_flags = F_RDACC_def F_WRACC_def F_RWACC_def F_NODNY_def F_RDDNY_def F_WRDNY_def F_RWDNY_def F_COMPAT_def VFS_RDONLY_def

lemma demo_share_add:
  "add_share (snd (add_share demo_vnode (demo_share F_RDACC F_WRDNY 1))) (demo_share F_RDACC F_NODNY 2)
   = (None, demo_vnode\<lparr>v_shrlocks := [demo_share F_RDACC F_NODNY 2, demo_share F_RDACC F_WRDNY 1]\<rparr>)"
  "fst (add_share (snd (add_share demo_vnode (demo_share F_RDACC F_WRDNY 1))) (demo_share F_WRACC F_NODNY 2)) = Some EAGAIN"
  by (simp_all add: add_share_def share_bad_def demo_vnode_def demo_share_def share_flags same_owner_def Let_def)

theorem shares_never_clash_witness: "shares_ok False [demo_share F_RDACC F_NODNY 2, demo_share F_RDACC F_WRDNY 1]"
proof -
  have "share_reach demo_vnode" by (rule share_reach.init) (simp add: demo_vnode_def)
  then have "share_reach (snd (add_share (snd (add_share demo_vnode (demo_share F_RDACC F_WRDNY 1))) (demo_share F_RDACC F_NODNY 2)))"
    by (intro share_reach.add)
  from shares_never_clash [OF this] show ?thesis unfolding demo_share_add(1) by (simp add: demo_vnode_def isreadonly_def VFS_RDONLY_def)
qed



section \<open>Observations\<close>

text \<open>\<open>del_share\<close> for an owner of one system deletes the reservation of the same owner string from another system.\<close>

lemma del_share_other_system:
  "del_share (demo_vnode\<lparr>v_shrlocks := [(demo_share F_RDACC F_NODNY 0)\<lparr>sysid := 7\<rparr>]\<rparr>) ((demo_share F_RDACC F_NODNY 0)\<lparr>sysid := 8\<rparr>) = (None, demo_vnode)"
  by (simp add: del_share_eq share_matches_def demo_share_def demo_vnode_def)

text \<open>\<open>cleanshares\<close> of one process deletes a reservation of another one that has an empty owner string.\<close>

lemma cleanshares_other_process:
  "cleanshares (demo_vnode\<lparr>v_shrlocks := [(demo_share F_RDACC F_NODNY 2)\<lparr>owner := []\<rparr>]\<rparr>) 1 = demo_vnode"
  by (simp add: cleanshares_del del_share_eq share_matches_def demo_share_def demo_vnode_def)

end
