(* ===== verification/Xdr.thy ===== *)
theory Xdr
  imports Kernel_Prelude
begin

text \<open>
  External data representation, the filters of \<^verbatim>\<open>rpc/xdr.c\<close>, \<^verbatim>\<open>rpc/xdr_array.c\<close> and
  \<^verbatim>\<open>rpc/xdr_refer.c\<close>. One filter encodes, decodes or frees, as the operation in the handle says.

  A handle \<open>XDR\<close> has the operation, the operations vector of the stream and the state of the stream,
  whose type \<open>'s\<close> is that of the implementation (a memory buffer, a chain of message blocks). A
  filter takes the handle and the object that the C argument points to, and returns whether it
  succeeded, the object and the handle. A pointer inside an object is an option (\<open>None\<close> is null), the
  memory it points to a list. Reading or writing outside that memory is a fault.

  \<^verbatim>\<open>int\<close>, \<^verbatim>\<open>long\<close>, \<^verbatim>\<open>u_int\<close>, \<^verbatim>\<open>enum\<close> and \<^verbatim>\<open>bool_t\<close> are 32 bits wide, \<^verbatim>\<open>char\<close> is signed. Memory
  from \<^verbatim>\<open>mem_alloc\<close>, which waits until there is some, has the bytes that the argument \<open>junk\<close> says; a
  filter for objects of another type is given the object that \<^verbatim>\<open>bzero\<close> makes. The calls of the
  allocator are logged in the handle with the sizes of the blocks, most recent first. A block has no address
  here: it is the list in the object that points to it, and the log does not tell blocks of one size apart.
\<close>

section \<open>Handles\<close>

type_synonym byte = "8 word"

datatype xdr_op = XDR_ENCODE | XDR_DECODE | XDR_FREE

datatype xdr_request = XDR_PEEK | XDR_SKIPBYTES | XDR_OTHER int

record 's xdr_ops =
  x_getlong :: "'s \<Rightarrow> (32 word option \<times> 's) kres"
  x_putlong :: "'s \<Rightarrow> 32 word \<Rightarrow> (bool \<times> 's) kres"
  x_getbytes :: "'s \<Rightarrow> byte list \<Rightarrow> 32 word \<Rightarrow> (bool \<times> byte list \<times> 's) kres"
  x_putbytes :: "'s \<Rightarrow> byte list \<Rightarrow> 32 word \<Rightarrow> (bool \<times> 's) kres"
  x_getpostn :: "xdr_op \<Rightarrow> 's \<Rightarrow> 32 word kres"
  x_setpostn :: "xdr_op \<Rightarrow> 's \<Rightarrow> 32 word \<Rightarrow> (bool \<times> 's) kres"
  x_inline :: "xdr_op \<Rightarrow> 's \<Rightarrow> 32 word \<Rightarrow> 32 word option \<times> 's"
  x_control :: "'s \<Rightarrow> xdr_request \<Rightarrow> 32 word \<Rightarrow> (bool \<times> 32 word \<times> 's) kres"

datatype mem_call = MemAlloc "32 word" | MemFree "32 word"

record 's XDR =
  x_op :: xdr_op
  x_ops :: "'s xdr_ops"
  x_st :: 's
  x_mem :: "mem_call list"

type_synonym ('s, 'a) xdrproc = "'s XDR \<Rightarrow> 'a \<Rightarrow> (bool \<times> 'a \<times> 's XDR) kres"

definition BYTES_PER_XDR_UNIT :: nat where "BYTES_PER_XDR_UNIT = 4"
definition XDR_FALSE :: "32 word" where "XDR_FALSE = 0"
definition XDR_TRUE :: "32 word" where "XDR_TRUE = 1"
definition LASTUNSIGNED :: "32 word" where "LASTUNSIGNED = 0 - 1"
definition MAX_NETOBJ_SZ :: "32 word" where "MAX_NETOBJ_SZ = 1024"

definition XDR_GETLONG :: "'s XDR \<Rightarrow> (32 word option \<times> 's XDR) kres" where
  "XDR_GETLONG x = map_sum id (\<lambda>(r, s). (r, x\<lparr>x_st := s\<rparr>)) (x_getlong (x_ops x) (x_st x))"

definition XDR_PUTLONG :: "'s XDR \<Rightarrow> 32 word \<Rightarrow> (bool \<times> 's XDR) kres" where
  "XDR_PUTLONG x w = map_sum id (\<lambda>(r, s). (r, x\<lparr>x_st := s\<rparr>)) (x_putlong (x_ops x) (x_st x) w)"

definition XDR_GETBYTES :: "'s XDR \<Rightarrow> byte list \<Rightarrow> 32 word \<Rightarrow> (bool \<times> byte list \<times> 's XDR) kres" where
  "XDR_GETBYTES x cp len = map_sum id (\<lambda>(r, cp', s). (r, cp', x\<lparr>x_st := s\<rparr>)) (x_getbytes (x_ops x) (x_st x) cp len)"

definition XDR_PUTBYTES :: "'s XDR \<Rightarrow> byte list \<Rightarrow> 32 word \<Rightarrow> (bool \<times> 's XDR) kres" where
  "XDR_PUTBYTES x cp len = map_sum id (\<lambda>(r, s). (r, x\<lparr>x_st := s\<rparr>)) (x_putbytes (x_ops x) (x_st x) cp len)"

text \<open>The four bytes of a long in network byte order, as \<^verbatim>\<open>htonl\<close> and a store leave them, and back.\<close>

definition put4 :: "32 word \<Rightarrow> byte list" where
  "put4 w = [ucast (drop_bit 24 w), ucast (drop_bit 16 w), ucast (drop_bit 8 w), ucast w]"

fun get4 :: "byte list \<Rightarrow> 32 word" where
  "get4 (a # b # c # d # _) = push_bit 24 (ucast a) OR push_bit 16 (ucast b) OR push_bit 8 (ucast c) OR ucast d"
| "get4 _ = 0"

text \<open>The allocator.\<close>

definition mem_alloc :: "(nat \<Rightarrow> byte) \<Rightarrow> 32 word \<Rightarrow> 's XDR \<Rightarrow> byte list \<times> 's XDR" where
  "mem_alloc junk n x = (map junk [0 ..< unat n], x\<lparr>x_mem := MemAlloc n # x_mem x\<rparr>)"

definition mem_free :: "32 word \<Rightarrow> 's XDR \<Rightarrow> 's XDR" where
  "mem_free n x = x\<lparr>x_mem := MemFree n # x_mem x\<rparr>"

section \<open>Integers\<close>

definition xdr_void :: "('s, 'a) xdrproc" where
  "xdr_void x a = Inr (True, a, x)"

definition xdr_long :: "('s, 32 word) xdrproc" where
  "xdr_long x lp =
     (case x_op x of
        XDR_ENCODE \<Rightarrow> map_sum id (\<lambda>(r, x'). (r, lp, x')) (XDR_PUTLONG x lp)
      | XDR_DECODE \<Rightarrow> map_sum id (\<lambda>(r, x'). case r of None \<Rightarrow> (False, lp, x') | Some l \<Rightarrow> (True, l, x')) (XDR_GETLONG x)
      | XDR_FREE \<Rightarrow> Inr (True, lp, x))"

definition xdr_u_long :: "('s, 32 word) xdrproc" where
  "xdr_u_long x ulp =
     (case x_op x of
        XDR_DECODE \<Rightarrow> map_sum id (\<lambda>(r, x'). case r of None \<Rightarrow> (False, ulp, x') | Some l \<Rightarrow> (True, l, x')) (XDR_GETLONG x)
      | XDR_ENCODE \<Rightarrow> map_sum id (\<lambda>(r, x'). (r, ulp, x')) (XDR_PUTLONG x ulp)
      | XDR_FREE \<Rightarrow> Inr (True, ulp, x))"

definition xdr_int :: "('s, 32 word) xdrproc" where
  "xdr_int x ip = xdr_long x ip"

definition xdr_u_int :: "('s, 32 word) xdrproc" where
  "xdr_u_int x up = xdr_u_long x up"

definition xdr_enum :: "('s, 32 word) xdrproc" where
  "xdr_enum x ep = xdr_long x ep"

definition xdr_short :: "('s, 16 word) xdrproc" where
  "xdr_short x sp =
     (case x_op x of
        XDR_ENCODE \<Rightarrow> map_sum id (\<lambda>(r, x'). (r, sp, x')) (XDR_PUTLONG x (scast sp))
      | XDR_DECODE \<Rightarrow> map_sum id (\<lambda>(r, x'). case r of None \<Rightarrow> (False, sp, x') | Some l \<Rightarrow> (True, ucast l, x')) (XDR_GETLONG x)
      | XDR_FREE \<Rightarrow> Inr (True, sp, x))"

definition xdr_u_short :: "('s, 16 word) xdrproc" where
  "xdr_u_short x usp =
     (case x_op x of
        XDR_ENCODE \<Rightarrow> map_sum id (\<lambda>(r, x'). (r, usp, x')) (XDR_PUTLONG x (ucast usp))
      | XDR_DECODE \<Rightarrow> map_sum id (\<lambda>(r, x'). case r of None \<Rightarrow> (False, usp, x') | Some l \<Rightarrow> (True, ucast l, x')) (XDR_GETLONG x)
      | XDR_FREE \<Rightarrow> Inr (True, usp, x))"

definition xdr_char :: "('s, 8 word) xdrproc" where
  "xdr_char x cp =
     map_sum id (\<lambda>(r, i, x'). if r then (True, ucast i, x') else (False, cp, x')) (xdr_int x (scast cp))"

definition xdr_bool :: "('s, 32 word) xdrproc" where
  "xdr_bool x bp =
     (case x_op x of
        XDR_ENCODE \<Rightarrow> map_sum id (\<lambda>(r, x'). (r, bp, x')) (XDR_PUTLONG x (if bp \<noteq> 0 then XDR_TRUE else XDR_FALSE))
      | XDR_DECODE \<Rightarrow>
          map_sum id (\<lambda>(r, x'). case r of None \<Rightarrow> (False, bp, x') | Some lb \<Rightarrow> (True, if lb = XDR_FALSE then 0 else 1, x')) (XDR_GETLONG x)
      | XDR_FREE \<Rightarrow> Inr (True, bp, x))"

text \<open>The two halves of a \<^verbatim>\<open>longlong_t\<close>, the high one first whatever the byte order of the machine.\<close>

definition hi_long :: "64 word \<Rightarrow> 32 word" where
  "hi_long h = ucast (drop_bit 32 h)"

definition set_hi :: "32 word \<Rightarrow> 64 word \<Rightarrow> 64 word" where
  "set_hi w h = push_bit 32 (ucast w) OR ucast (ucast h :: 32 word)"

definition set_lo :: "32 word \<Rightarrow> 64 word \<Rightarrow> 64 word" where
  "set_lo w h = push_bit 32 (ucast (hi_long h)) OR ucast w"

definition xdr_longlong_t :: "('s, 64 word) xdrproc" where
  "xdr_longlong_t x hp =
     (case x_op x of
        XDR_ENCODE \<Rightarrow>
          (case XDR_PUTLONG x (hi_long hp) of
             Inl f \<Rightarrow> Inl f
           | Inr (True, x1) \<Rightarrow> map_sum id (\<lambda>(r, x2). (r, hp, x2)) (XDR_PUTLONG x1 (ucast hp))
           | Inr (False, x1) \<Rightarrow> Inr (False, hp, x1))
      | XDR_DECODE \<Rightarrow>
          (case XDR_GETLONG x of
             Inl f \<Rightarrow> Inl f
           | Inr (Some h, x1) \<Rightarrow>
               map_sum id (\<lambda>(r, x2). case r of None \<Rightarrow> (False, set_hi h hp, x2) | Some l \<Rightarrow> (True, set_lo l (set_hi h hp), x2)) (XDR_GETLONG x1)
           | Inr (None, x1) \<Rightarrow> Inr (False, hp, x1))
      | XDR_FREE \<Rightarrow> Inr (True, hp, x))"

definition xdr_u_longlong_t :: "('s, 64 word) xdrproc" where
  "xdr_u_longlong_t x hp =
     (case x_op x of
        XDR_ENCODE \<Rightarrow>
          (case XDR_PUTLONG x (hi_long hp) of
             Inl f \<Rightarrow> Inl f
           | Inr (True, x1) \<Rightarrow> map_sum id (\<lambda>(r, x2). (r, hp, x2)) (XDR_PUTLONG x1 (ucast hp))
           | Inr (False, x1) \<Rightarrow> Inr (False, hp, x1))
      | XDR_DECODE \<Rightarrow>
          (case XDR_GETLONG x of
             Inl f \<Rightarrow> Inl f
           | Inr (Some h, x1) \<Rightarrow>
               map_sum id (\<lambda>(r, x2). case r of None \<Rightarrow> (False, set_hi h hp, x2) | Some l \<Rightarrow> (True, set_lo l (set_hi h hp), x2)) (XDR_GETLONG x1)
           | Inr (None, x1) \<Rightarrow> Inr (False, hp, x1))
      | XDR_FREE \<Rightarrow> Inr (True, hp, x))"

section \<open>Bytes and strings\<close>

definition rndup_left :: "32 word \<Rightarrow> 32 word" where
  "rndup_left cnt = (let r = cnt mod 4 in if r \<noteq> 0 then 4 - r else r)"

definition xdr_opaque :: "'s XDR \<Rightarrow> byte list \<Rightarrow> 32 word \<Rightarrow> (bool \<times> byte list \<times> 's XDR) kres" where
  "xdr_opaque x cp cnt =
     (if cnt = 0 then Inr (True, cp, x)
      else
        let rndup = rndup_left cnt in
        case x_op x of
          XDR_DECODE \<Rightarrow>
            (case XDR_GETBYTES x cp cnt of
               Inl f \<Rightarrow> Inl f
             | Inr (False, cp1, x1) \<Rightarrow> Inr (False, cp1, x1)
             | Inr (True, cp1, x1) \<Rightarrow>
                 if rndup = 0 then Inr (True, cp1, x1)
                 else map_sum id (\<lambda>(r, _, x2). (r, cp1, x2)) (XDR_GETBYTES x1 (replicate 16 0) rndup))
        | XDR_ENCODE \<Rightarrow>
            (case XDR_PUTBYTES x cp cnt of
               Inl f \<Rightarrow> Inl f
             | Inr (False, x1) \<Rightarrow> Inr (False, cp, x1)
             | Inr (True, x1) \<Rightarrow>
                 if rndup = 0 then Inr (True, cp, x1)
                 else map_sum id (\<lambda>(r, x2). (r, cp, x2)) (XDR_PUTBYTES x1 (replicate 4 0) rndup))
        | XDR_FREE \<Rightarrow> Inr (True, cp, x))"

abbreviation deref :: "'a list option \<Rightarrow> 'a list" where
  "deref p \<equiv> (case p of None \<Rightarrow> [] | Some m \<Rightarrow> m)"

definition xdr_bytes :: "(nat \<Rightarrow> byte) \<Rightarrow> 32 word \<Rightarrow> ('s, byte list option \<times> 32 word) xdrproc" where
  "xdr_bytes junk maxsize x cs =
     (case cs of (cpp, sizep) \<Rightarrow>
        case xdr_u_int x sizep of
          Inl f \<Rightarrow> Inl f
        | Inr (False, size1, x1) \<Rightarrow> Inr (False, (cpp, size1), x1)
        | Inr (True, nodesize, x1) \<Rightarrow>
            if nodesize > maxsize \<and> x_op x1 \<noteq> XDR_FREE then Inr (False, (cpp, nodesize), x1)
            else
              (case x_op x1 of
                 XDR_DECODE \<Rightarrow>
                   (if nodesize = 0 then Inr (True, (cpp, nodesize), x1)
                    else
                      let (sp, x2) = (case cpp of None \<Rightarrow> mem_alloc junk nodesize x1 | Some m \<Rightarrow> (m, x1))
                      in map_sum id (\<lambda>(r, sp', x3). (r, (Some sp', nodesize), x3)) (xdr_opaque x2 sp nodesize))
               | XDR_ENCODE \<Rightarrow> map_sum id (\<lambda>(r, _, x2). (r, (cpp, nodesize), x2)) (xdr_opaque x1 (deref cpp) nodesize)
               | XDR_FREE \<Rightarrow>
                   (case cpp of
                      None \<Rightarrow> Inr (True, (None, nodesize), x1)
                    | Some _ \<Rightarrow> Inr (True, (None, nodesize), mem_free nodesize x1))))"

record netobj =
  n_len :: "32 word"
  n_bytes :: "byte list option"

definition xdr_netobj :: "(nat \<Rightarrow> byte) \<Rightarrow> ('s, netobj) xdrproc" where
  "xdr_netobj junk x np =
     map_sum id (\<lambda>(r, (p, n), x'). (r, np\<lparr>n_bytes := p, n_len := n\<rparr>, x')) (xdr_bytes junk MAX_NETOBJ_SZ x (n_bytes np, n_len np))"

text \<open>The length of the string at the start of some memory; without a zero byte it runs off the end.\<close>

definition strlen :: "byte list \<Rightarrow> 32 word kres" where
  "strlen m = (if 0 \<in> set m then Inr (of_nat (length (takeWhile (\<lambda>c. c \<noteq> 0) m))) else Inl (Wild ''strlen''))"

definition xdr_string_decode :: "(nat \<Rightarrow> byte) \<Rightarrow> byte list option \<Rightarrow> 32 word \<Rightarrow> 's XDR \<Rightarrow> (bool \<times> byte list option \<times> 's XDR) kres" where
  "xdr_string_decode junk cpp sz x =
     (let nodesize = sz + 1 in
      if nodesize = 0 then Inr (True, cpp, x)
      else
        let (sp, x1) = (case cpp of None \<Rightarrow> mem_alloc junk nodesize x | Some m \<Rightarrow> (m, x)) in
        if length sp \<le> unat sz then Inl (Wild ''sp[size]'')
        else
          case xdr_opaque x1 (sp[unat sz := 0]) sz of
            Inl f \<Rightarrow> Inl f
          | Inr (False, _, x2) \<Rightarrow> Inr (False, cpp, mem_free nodesize x2)
          | Inr (True, sp', x2) \<Rightarrow>
              (case strlen sp' of
                 Inl f \<Rightarrow> Inl f
               | Inr n \<Rightarrow> if n \<noteq> sz then Inr (False, cpp, mem_free nodesize x2) else Inr (True, Some sp', x2)))"

definition xdr_string :: "(nat \<Rightarrow> byte) \<Rightarrow> 32 word \<Rightarrow> ('s, byte list option) xdrproc" where
  "xdr_string junk maxsize x cpp =
     (if x_op x = XDR_FREE \<and> cpp = None then Inr (True, None, x)
      else
        case (if x_op x = XDR_DECODE then Inr 0 else case cpp of None \<Rightarrow> Inr 0 | Some sp \<Rightarrow> strlen sp) of
          Inl f \<Rightarrow> Inl f
        | Inr size0 \<Rightarrow>
            case xdr_u_int x size0 of
              Inl f \<Rightarrow> Inl f
            | Inr (False, _, x1) \<Rightarrow> Inr (False, cpp, x1)
            | Inr (True, sz, x1) \<Rightarrow>
                if sz > maxsize then Inr (False, cpp, x1)
                else
                  (case x_op x1 of
                     XDR_DECODE \<Rightarrow> xdr_string_decode junk cpp sz x1
                   | XDR_ENCODE \<Rightarrow> map_sum id (\<lambda>(r, _, x2). (r, cpp, x2)) (xdr_opaque x1 (deref cpp) sz)
                   | XDR_FREE \<Rightarrow> Inr (True, None, mem_free (sz + 1) x1)))"

definition xdr_wrapstring :: "(nat \<Rightarrow> byte) \<Rightarrow> ('s, byte list option) xdrproc" where
  "xdr_wrapstring junk x cpp = xdr_string junk LASTUNSIGNED x cpp"

section \<open>Unions, arrays and pointers\<close>

text \<open>The array of choices ends where it has no procedure.\<close>

fun find_choice :: "32 word \<Rightarrow> (32 word \<times> ('s, 'u) xdrproc) list \<Rightarrow> ('s, 'u) xdrproc option" where
  "find_choice dscm [] = None"
| "find_choice dscm ((v, proc) # choices) = (if v = dscm then Some proc else find_choice dscm choices)"

definition xdr_union :: "(32 word \<times> ('s, 'u) xdrproc) list \<Rightarrow> ('s, 'u) xdrproc option \<Rightarrow> ('s, 32 word \<times> 'u) xdrproc" where
  "xdr_union choices dfault x du =
     (case du of (dscmp, unp) \<Rightarrow>
        case xdr_enum x dscmp of
          Inl f \<Rightarrow> Inl f
        | Inr (False, d, x1) \<Rightarrow> Inr (False, (d, unp), x1)
        | Inr (True, dscm, x1) \<Rightarrow>
            (case (case find_choice dscm choices of Some proc \<Rightarrow> Some proc | None \<Rightarrow> dfault) of
               None \<Rightarrow> Inr (False, (dscm, unp), x1)
             | Some proc \<Rightarrow> map_sum id (\<lambda>(r, u, x2). (r, (dscm, u), x2)) (proc x1 unp)))"

fun array_loop :: "('s, 'a) xdrproc \<Rightarrow> nat \<Rightarrow> 's XDR \<Rightarrow> 'a list \<Rightarrow> (bool \<times> 'a list \<times> 's XDR) kres" where
  "array_loop elproc 0 x target = Inr (True, target, x)"
| "array_loop elproc (Suc n) x [] = Inl (Wild ''target'')"
| "array_loop elproc (Suc n) x (t # target) =
     (case elproc x t of
        Inl f \<Rightarrow> Inl f
      | Inr (False, t', x1) \<Rightarrow> Inr (False, t' # target, x1)
      | Inr (True, t', x1) \<Rightarrow> map_sum id (\<lambda>(r, ts, x2). (r, t' # ts, x2)) (array_loop elproc n x1 target))"

text \<open>The array that \<^verbatim>\<open>mem_alloc\<close> of \<open>nodesize\<close> bytes and \<^verbatim>\<open>bzero\<close> give: as many elements as fit.\<close>

definition xdr_array :: "32 word \<Rightarrow> 'a \<Rightarrow> ('s, 'a) xdrproc \<Rightarrow> 32 word \<Rightarrow> ('s, 'a list option \<times> 32 word) xdrproc" where
  "xdr_array elsize zero elproc maxsize x as =
     (case as of (addrp, sizep) \<Rightarrow>
        case xdr_u_int x sizep of
          Inl f \<Rightarrow> Inl f
        | Inr (False, c, x1) \<Rightarrow> Inr (False, (addrp, c), x1)
        | Inr (True, c, x1) \<Rightarrow>
            if c > maxsize \<and> x_op x1 \<noteq> XDR_FREE then Inr (False, (addrp, c), x1)
            else
              let nodesize = c * elsize in
              if addrp = None \<and> (x_op x1 = XDR_FREE \<or> x_op x1 = XDR_DECODE \<and> c = 0) then Inr (True, (addrp, c), x1)
              else
                let (addrp1, x2) =
                      (if addrp = None \<and> x_op x1 = XDR_DECODE
                       then (Some (replicate (unat nodesize div unat elsize) zero), x1\<lparr>x_mem := MemAlloc nodesize # x_mem x1\<rparr>)
                       else (addrp, x1))
                in
                  case array_loop elproc (unat c) x2 (deref addrp1) of
                    Inl f \<Rightarrow> Inl f
                  | Inr (stat, target, x3) \<Rightarrow>
                      if x_op x3 = XDR_FREE then Inr (stat, (None, c), mem_free nodesize x3)
                      else Inr (stat, (case addrp1 of None \<Rightarrow> None | Some _ \<Rightarrow> Some target, c), x3))"

definition xdr_reference :: "32 word \<Rightarrow> 'a \<Rightarrow> ('s, 'a) xdrproc \<Rightarrow> ('s, 'a option) xdrproc" where
  "xdr_reference sz zero proc x pp =
     (case pp of
        None \<Rightarrow>
          (case x_op x of
             XDR_FREE \<Rightarrow> Inr (True, None, x)
           | XDR_DECODE \<Rightarrow>
               map_sum id (\<lambda>(r, loc, x1). (r, Some loc, x1)) (proc (x\<lparr>x_mem := MemAlloc sz # x_mem x\<rparr>) zero)
           | XDR_ENCODE \<Rightarrow> Inl (Wild ''loc''))
      | Some loc \<Rightarrow>
          (case proc x loc of
             Inl f \<Rightarrow> Inl f
           | Inr (stat, loc', x1) \<Rightarrow>
               if x_op x1 = XDR_FREE then Inr (stat, None, mem_free sz x1) else Inr (stat, Some loc', x1)))"

definition xdr_pointer :: "32 word \<Rightarrow> 'a \<Rightarrow> ('s, 'a) xdrproc \<Rightarrow> ('s, 'a option) xdrproc" where
  "xdr_pointer obj_size zero xdr_obj x objpp =
     (case xdr_bool x (if objpp \<noteq> None then 1 else 0) of
        Inl f \<Rightarrow> Inl f
      | Inr (False, _, x1) \<Rightarrow> Inr (False, objpp, x1)
      | Inr (True, more_data, x1) \<Rightarrow>
          if more_data = 0 then Inr (True, None, x1) else xdr_reference obj_size zero xdr_obj x1 objpp)"

definition xdr_free :: "('s, 'a) xdrproc \<Rightarrow> 's XDR \<Rightarrow> 'a \<Rightarrow> ('a \<times> 's XDR) kres" where
  "xdr_free proc x objp = map_sum id snd (proc (x\<lparr>x_op := XDR_FREE\<rparr>) objp)"

end
