(* ===== verification/Xdr_Type.thy ===== *)
theory Xdr_Type
  imports Xdr
begin

text \<open>
  What XDR filters do on any stream that keeps the contract of the operations vector: the locale
  \<open>xdr_stream\<close>. Filters are put together as the generated code of a protocol does, from a
  description of the type; the bytes are those of the XDR standard, given by a function of their own.
  Encoding yields these bytes and succeeds exactly when they fit; decoding them gives the value back;
  and decoding any bytes whatever never leaves allocated memory and, when it succeeds, gives a value
  of the type.
\<close>

section \<open>Words and bytes\<close>

lemma length_put4 [simp]: "length (put4 w) = 4"
  by (simp add: put4_def)

lemma get4_put4: "get4 (put4 w @ rest) = w"
proof -
  have "get4 (put4 w @ rest) = push_bit 24 (ucast (ucast (drop_bit 24 w) :: byte)) OR push_bit 16 (ucast (ucast (drop_bit 16 w) :: byte))
      OR push_bit 8 (ucast (ucast (drop_bit 8 w) :: byte)) OR ucast (ucast w :: byte)"
    by (simp add: put4_def)
  also have "\<dots> = w"
  proof (rule bit_word_eqI)
    fix n assume n: "n < LENGTH(32)"
    then consider "n < 8" | "8 \<le> n" "n < 16" | "16 \<le> n" "n < 24" | "24 \<le> n" "n < 32" by fastforce
    then show "bit (push_bit 24 (ucast (ucast (drop_bit 24 w) :: byte)) OR push_bit 16 (ucast (ucast (drop_bit 16 w) :: byte))
      OR push_bit 8 (ucast (ucast (drop_bit 8 w) :: byte)) OR ucast (ucast w :: byte) :: 32 word) n = bit w n"
      by cases (auto simp: bit_simps)
  qed
  finally show ?thesis .
qed

lemma short_long: "ucast (scast (w :: 16 word) :: 32 word) = w" "ucast (ucast (w :: 16 word) :: 32 word) = w" "ucast (scast (c :: 8 word) :: 32 word) = c"
  by (auto intro!: bit_word_eqI simp: bit_simps)

lemma hyper_halves: "set_lo (ucast h) (set_hi (hi_long h) z) = h"
proof (rule bit_word_eqI)
  fix n assume "n < LENGTH(64)"
  then show "bit (set_lo (ucast h) (set_hi (hi_long h) z)) n = bit h n"
    by (cases "n < 32") (auto simp: set_lo_def set_hi_def hi_long_def bit_simps)
qed

lemma of_nat_less [simp]: "n < 2 ^ 32 \<Longrightarrow> unat (of_nat n :: 32 word) = n"
  by (simp add: unat_of_nat)

definition pad :: "nat \<Rightarrow> nat" where
  "pad n = (4 - n mod 4) mod 4"

lemma pad_dvd [simp]: "4 dvd n + pad n"
proof -
  have "n mod 4 < 4" by simp
  then consider "n mod 4 = 0" | "n mod 4 = 1" | "n mod 4 = 2" | "n mod 4 = 3" by linarith
  then have "(n mod 4 + pad n) mod 4 = 0" by cases (simp_all add: pad_def)
  then show ?thesis by (simp add: mod_add_left_eq dvd_eq_mod_eq_0)
qed

lemma pad_less: "pad n < 4"
  by (simp add: pad_def)

lemma rndup_left_pad: "n < 2 ^ 32 \<Longrightarrow> rndup_left (of_nat n) = of_nat (pad n)"
proof -
  assume n: "n < 2 ^ 32"
  have r: "(of_nat n :: 32 word) mod 4 = of_nat (n mod 4)"
    using n by (simp add: word_unat_eq_iff unat_mod_distrib unat_of_nat)
  have "n mod 4 < 4" by simp
  then consider "n mod 4 = 0" | "n mod 4 = 1" | "n mod 4 = 2" | "n mod 4 = 3" by linarith
  then show ?thesis unfolding rndup_left_def Let_def r pad_def by cases simp_all
qed

section \<open>Streams\<close>

text \<open>
  What a client knows of a stream: its operations, for writing whether it is in order, the bytes
  written and the number of bytes that it still has room for, and for reading whether it is in
  order, the bytes to come and the number of bytes read.
\<close>

record 's xview =
  sv_ops :: "'s xdr_ops"
  sv_winv :: "'s \<Rightarrow> bool"
  sv_wr :: "'s \<Rightarrow> byte list"
  sv_room :: "'s \<Rightarrow> nat"
  sv_rinv :: "'s \<Rightarrow> bool"
  sv_rd :: "'s \<Rightarrow> byte list"
  sv_rp :: "'s \<Rightarrow> nat"

definition wready :: "'s xview \<Rightarrow> 's XDR \<Rightarrow> bool" where
  "wready sv x \<longleftrightarrow> x_op x = XDR_ENCODE \<and> x_ops x = sv_ops sv \<and> sv_winv sv (x_st x) \<and> 4 dvd length (sv_wr sv (x_st x))"

definition rready :: "'s xview \<Rightarrow> 's XDR \<Rightarrow> bool" where
  "rready sv x \<longleftrightarrow> x_op x = XDR_DECODE \<and> x_ops x = sv_ops sv \<and> sv_rinv sv (x_st x)"

text \<open>\<open>p\<close> writes \<open>bs\<close> for the object \<open>v\<close> when they fit and fails otherwise.\<close>

definition encodes :: "'s xview \<Rightarrow> ('s, 'a) xdrproc \<Rightarrow> 'a \<Rightarrow> byte list \<Rightarrow> bool" where
  "encodes sv p v bs \<longleftrightarrow> 4 dvd length bs \<and> (\<forall>x. wready sv x \<longrightarrow>
     (\<exists>x'. p x v = Inr (length bs \<le> sv_room sv (x_st x), v, x') \<and> x_op x' = XDR_ENCODE
        \<and> (length bs \<le> sv_room sv (x_st x) \<longrightarrow> wready sv x' \<and> sv_wr sv (x_st x') = sv_wr sv (x_st x) @ bs
             \<and> sv_room sv (x_st x') = sv_room sv (x_st x) - length bs)))"

text \<open>Over the bytes \<open>bs\<close> the filter \<open>p\<close> turns the object \<open>z\<close> into \<open>v\<close>.\<close>

definition decodes :: "'s xview \<Rightarrow> ('s, 'a) xdrproc \<Rightarrow> 'a \<Rightarrow> byte list \<Rightarrow> 'a \<Rightarrow> bool" where
  "decodes sv p z bs v \<longleftrightarrow> (\<forall>x rest. rready sv x \<and> 4 dvd sv_rp sv (x_st x) \<and> sv_rd sv (x_st x) = bs @ rest \<longrightarrow>
     (\<exists>x'. p x z = Inr (True, v, x') \<and> rready sv x' \<and> 4 dvd sv_rp sv (x_st x')
        \<and> sv_rp sv (x_st x') = sv_rp sv (x_st x) + length bs \<and> sv_rd sv (x_st x') = rest))"

text \<open>Over any bytes \<open>p\<close> turns \<open>z\<close> into an object that satisfies \<open>P\<close>, or fails.\<close>

definition decodes_safe :: "'s xview \<Rightarrow> ('s, 'a) xdrproc \<Rightarrow> 'a \<Rightarrow> ('a \<Rightarrow> bool) \<Rightarrow> bool" where
  "decodes_safe sv p z P \<longleftrightarrow> (\<forall>x. rready sv x \<longrightarrow> (\<exists>r v x'. p x z = Inr (r, v, x') \<and> (r \<longrightarrow> P v \<and> rready sv x')))"

locale xdr_stream =
  fixes sv :: "'s xview"
  assumes putlong: "sv_winv sv s \<Longrightarrow> 4 dvd length (sv_wr sv s) \<Longrightarrow>
      \<exists>s'. x_putlong (sv_ops sv) s w = Inr (4 \<le> sv_room sv s, s')
        \<and> (4 \<le> sv_room sv s \<longrightarrow> sv_winv sv s' \<and> sv_wr sv s' = sv_wr sv s @ put4 w \<and> sv_room sv s' = sv_room sv s - 4)"
    and putbytes: "sv_winv sv s \<Longrightarrow> n < 2 ^ 31 \<Longrightarrow> n \<le> length bs \<Longrightarrow>
      \<exists>s'. x_putbytes (sv_ops sv) s bs (of_nat n) = Inr (n \<le> sv_room sv s, s')
        \<and> (n \<le> sv_room sv s \<longrightarrow> sv_winv sv s' \<and> sv_wr sv s' = sv_wr sv s @ take n bs \<and> sv_room sv s' = sv_room sv s - n)"
    and getlong: "sv_rinv sv s \<Longrightarrow>
      \<exists>r s'. x_getlong (sv_ops sv) s = Inr (r, s') \<and> (r \<noteq> None \<longrightarrow> sv_rinv sv s')
        \<and> (4 dvd sv_rp sv s \<and> 4 \<le> length (sv_rd sv s) \<longrightarrow>
             r = Some (get4 (sv_rd sv s)) \<and> sv_rd sv s' = drop 4 (sv_rd sv s) \<and> sv_rp sv s' = sv_rp sv s + 4)"
    and getbytes: "sv_rinv sv s \<Longrightarrow> n < 2 ^ 31 \<Longrightarrow> n \<le> length buf \<Longrightarrow>
      \<exists>r buf' s'. x_getbytes (sv_ops sv) s buf (of_nat n) = Inr (r, buf', s') \<and> length buf' = length buf \<and> drop n buf' = drop n buf
        \<and> (r \<longrightarrow> sv_rinv sv s')
        \<and> (n \<le> length (sv_rd sv s) \<longrightarrow>
             r \<and> take n buf' = take n (sv_rd sv s) \<and> sv_rd sv s' = drop n (sv_rd sv s) \<and> sv_rp sv s' = sv_rp sv s + n)"
begin

lemma PUTLONG:
  assumes "wready sv x"
  shows "\<exists>x'. XDR_PUTLONG x w = Inr (4 \<le> sv_room sv (x_st x), x') \<and> x_op x' = XDR_ENCODE
    \<and> (4 \<le> sv_room sv (x_st x) \<longrightarrow> wready sv x' \<and> sv_wr sv (x_st x') = sv_wr sv (x_st x) @ put4 w \<and> sv_room sv (x_st x') = sv_room sv (x_st x) - 4)"
  using assms putlong [of "x_st x" w] by (auto simp: wready_def XDR_PUTLONG_def)

lemma GETLONG:
  assumes "rready sv x"
  shows "\<exists>r x'. XDR_GETLONG x = Inr (r, x') \<and> (r \<noteq> None \<longrightarrow> rready sv x')
    \<and> (4 dvd sv_rp sv (x_st x) \<and> 4 \<le> length (sv_rd sv (x_st x)) \<longrightarrow>
         r = Some (get4 (sv_rd sv (x_st x))) \<and> sv_rd sv (x_st x') = drop 4 (sv_rd sv (x_st x)) \<and> sv_rp sv (x_st x') = sv_rp sv (x_st x) + 4)"
  using assms getlong [of "x_st x"] by (auto simp: rready_def XDR_GETLONG_def)

text \<open>A filter that moves one long.\<close>

lemma encodes_putlong:
  assumes "\<And>x. x_op x = XDR_ENCODE \<Longrightarrow> p x v = map_sum id (\<lambda>(r, x'). (r, v, x')) (XDR_PUTLONG x w)"
  shows "encodes sv p v (put4 w)"
  unfolding encodes_def
proof (intro conjI allI impI)
  fix x :: "'s XDR" assume x: "wready sv x"
  show "\<exists>x'. p x v = Inr (length (put4 w) \<le> sv_room sv (x_st x), v, x') \<and> x_op x' = XDR_ENCODE \<and>
      (length (put4 w) \<le> sv_room sv (x_st x) \<longrightarrow> wready sv x' \<and> sv_wr sv (x_st x') = sv_wr sv (x_st x) @ put4 w \<and>
        sv_room sv (x_st x') = sv_room sv (x_st x) - length (put4 w))"
    using PUTLONG [OF x, of w] assms [of x] x by (auto simp: wready_def)
qed simp

lemma decodes_getlong:
  assumes "\<And>x. x_op x = XDR_DECODE \<Longrightarrow> p x z = map_sum id (\<lambda>(r, x'). case r of None \<Rightarrow> (False, z, x') | Some l \<Rightarrow> (True, f l, x')) (XDR_GETLONG x)"
  shows "f w = v \<Longrightarrow> decodes sv p z (put4 w) v" "(\<And>l. P (f l)) \<Longrightarrow> decodes_safe sv p z P"
proof -
  show "decodes sv p z (put4 w) v" if v: "f w = v"
    unfolding decodes_def
  proof (intro allI impI, elim conjE)
    fix x :: "'s XDR" and rest
    assume x: "rready sv x" "4 dvd sv_rp sv (x_st x)" "sv_rd sv (x_st x) = put4 w @ rest"
    then obtain x' where "XDR_GETLONG x = Inr (Some w, x')" "rready sv x'" "sv_rd sv (x_st x') = rest" "sv_rp sv (x_st x') = sv_rp sv (x_st x) + 4"
      using GETLONG [OF x(1)] by (auto simp: get4_put4)
    then show "\<exists>x'. p x z = Inr (True, v, x') \<and> rready sv x' \<and> 4 dvd sv_rp sv (x_st x')
        \<and> sv_rp sv (x_st x') = sv_rp sv (x_st x) + length (put4 w) \<and> sv_rd sv (x_st x') = rest"
      using assms [of x] x v by (simp add: rready_def)
  qed
  show "decodes_safe sv p z P" if "\<And>l. P (f l)"
    unfolding decodes_safe_def
  proof (intro allI impI)
    fix x :: "'s XDR" assume x: "rready sv x"
    obtain r x' where "XDR_GETLONG x = Inr (r, x')" "r \<noteq> None \<longrightarrow> rready sv x'" using GETLONG [OF x] by blast
    then show "\<exists>r v x'. p x z = Inr (r, v, x') \<and> (r \<longrightarrow> P v \<and> rready sv x')"
      using assms [of x] x that by (cases r) (auto simp: rready_def)
  qed
qed

lemmas long_defs = xdr_long_def xdr_u_long_def xdr_int_def xdr_u_int_def xdr_enum_def xdr_short_def xdr_u_short_def xdr_bool_def

lemma encodes_longs:
  "encodes sv xdr_long w (put4 w)" "encodes sv xdr_u_long w (put4 w)" "encodes sv xdr_int w (put4 w)" "encodes sv xdr_u_int w (put4 w)"
  "encodes sv xdr_enum w (put4 w)" "encodes sv xdr_short h (put4 (scast h))" "encodes sv xdr_u_short h (put4 (ucast h))"
  "encodes sv xdr_bool w (put4 (if w \<noteq> 0 then 1 else 0))"
  by (rule encodes_putlong, simp add: long_defs XDR_TRUE_def XDR_FALSE_def)+

lemma decodes_longs:
  "decodes sv xdr_long z (put4 w) w" "decodes sv xdr_u_long z (put4 w) w" "decodes sv xdr_int z (put4 w) w" "decodes sv xdr_u_int z (put4 w) w"
  "decodes sv xdr_enum z (put4 w) w" "decodes sv xdr_short y (put4 (scast h)) h" "decodes sv xdr_u_short y (put4 (ucast h)) h"
  "decodes sv xdr_bool z (put4 w) (if w = 0 then 0 else 1)"
  by (rule decodes_getlong(1), simp add: long_defs XDR_TRUE_def XDR_FALSE_def, simp add: short_long XDR_FALSE_def)+

lemma safe_longs:
  "decodes_safe sv xdr_long z (\<lambda>_. True)" "decodes_safe sv xdr_u_int z (\<lambda>_. True)" "decodes_safe sv xdr_int z (\<lambda>_. True)"
  "decodes_safe sv xdr_short y (\<lambda>_. True)" "decodes_safe sv xdr_u_short y (\<lambda>_. True)" "decodes_safe sv xdr_bool z (\<lambda>w. w = 0 \<or> w = 1)"
  by (rule decodes_getlong(2), simp add: long_defs XDR_TRUE_def XDR_FALSE_def, simp)+

lemma char_filter:
  "encodes sv xdr_char c (put4 (scast c))" "decodes sv xdr_char d (put4 (scast c)) c" "decodes_safe sv xdr_char d (\<lambda>_. True)"
proof -
  show "encodes sv xdr_char c (put4 (scast c))"
    using encodes_longs(3) [of "scast c"] by (fastforce simp: encodes_def xdr_char_def short_long)
  show "decodes sv xdr_char d (put4 (scast c)) c"
    using decodes_longs(3) [of "scast d" "scast c"] unfolding decodes_def xdr_char_def by (fastforce simp: short_long)
  show "decodes_safe sv xdr_char d (\<lambda>_. True)"
    using safe_longs(3) [of "scast d"] unfolding decodes_safe_def xdr_char_def by fastforce
qed

text \<open>One filter after another.\<close>

lemma map_sum_Inr: "map_sum id f m = Inr y \<longleftrightarrow> (\<exists>a. m = Inr a \<and> f a = y)"
  by (cases m) auto

lemma map_sum_ext: "(\<And>a. f a = g a) \<Longrightarrow> map_sum id f m = map_sum id g m"
  by (cases m) auto

lemma map_sum_comp: "map_sum id f (map_sum id g m) = map_sum id (\<lambda>a. f (g a)) m"
  by (cases m) auto

lemma encodes_then:
  assumes p: "encodes sv p a bs" and q: "encodes sv q b cs"
    and rt: "\<And>x x1 t x2. wready sv x \<Longrightarrow> p x a = Inr (True, a, x1) \<Longrightarrow> wready sv x1 \<Longrightarrow> q x1 b = Inr (t, b, x2) \<Longrightarrow> x_op x2 = XDR_ENCODE
      \<Longrightarrow> r x v = Inr (t, v, x2)"
    and rf: "\<And>x x1. wready sv x \<Longrightarrow> p x a = Inr (False, a, x1) \<Longrightarrow> x_op x1 = XDR_ENCODE \<Longrightarrow> r x v = Inr (False, v, x1)"
  shows "encodes sv r v (bs @ cs)"
  unfolding encodes_def
proof (intro conjI allI impI)
  show "4 dvd length (bs @ cs)" using p q by (simp add: encodes_def)
  fix x :: "'s XDR" assume x: "wready sv x"
  obtain x1 where x1: "p x a = Inr (length bs \<le> sv_room sv (x_st x), a, x1)" "x_op x1 = XDR_ENCODE" "length bs \<le> sv_room sv (x_st x) \<longrightarrow> wready sv x1
      \<and> sv_wr sv (x_st x1) = sv_wr sv (x_st x) @ bs \<and> sv_room sv (x_st x1) = sv_room sv (x_st x) - length bs"
    using p x unfolding encodes_def by blast
  show "\<exists>x'. r x v = Inr (length (bs @ cs) \<le> sv_room sv (x_st x), v, x') \<and> x_op x' = XDR_ENCODE \<and> (length (bs @ cs) \<le> sv_room sv (x_st x) \<longrightarrow> wready sv x'
      \<and> sv_wr sv (x_st x') = sv_wr sv (x_st x) @ bs @ cs \<and> sv_room sv (x_st x') = sv_room sv (x_st x) - length (bs @ cs))"
  proof (cases "length bs \<le> sv_room sv (x_st x)")
    case True
    then have x1': "p x a = Inr (True, a, x1)" "wready sv x1" using x1 by simp_all
    then obtain x2 where x2: "q x1 b = Inr (length cs \<le> sv_room sv (x_st x1), b, x2)" "x_op x2 = XDR_ENCODE" "length cs \<le> sv_room sv (x_st x1) \<longrightarrow> wready sv x2
        \<and> sv_wr sv (x_st x2) = sv_wr sv (x_st x1) @ cs \<and> sv_room sv (x_st x2) = sv_room sv (x_st x1) - length cs"
      using q unfolding encodes_def by blast
    have fits: "length (bs @ cs) \<le> sv_room sv (x_st x) \<longleftrightarrow> length cs \<le> sv_room sv (x_st x1)" using True x1(3) by auto
    show ?thesis unfolding fits using True x1(3) x2(2,3) rt [OF x x1' x2(1,2)] by auto
  next
    case False
    then have "r x v = Inr (False, v, x1)" using x1(1,2) rf [OF x] by auto
    then show ?thesis using False x1(2) by auto
  qed
qed

lemma decodes_then:
  assumes p: "decodes sv p z1 bs a" and q: "decodes sv q z2 cs b"
    and r: "\<And>x x1 x2. rready sv x \<Longrightarrow> p x z1 = Inr (True, a, x1) \<Longrightarrow> rready sv x1 \<Longrightarrow> q (x1\<lparr>x_mem := h x1\<rparr>) z2 = Inr (True, b, x2)
      \<Longrightarrow> rready sv x2 \<Longrightarrow> r x z = Inr (True, v, x2)"
  shows "decodes sv r z (bs @ cs) v"
  unfolding decodes_def
proof (intro allI impI, elim conjE)
  fix x :: "'s XDR" and rest
  assume x: "rready sv x" "4 dvd sv_rp sv (x_st x)" "sv_rd sv (x_st x) = (bs @ cs) @ rest"
  obtain x1 where x1: "p x z1 = Inr (True, a, x1)" "rready sv x1" "4 dvd sv_rp sv (x_st x1)" "sv_rp sv (x_st x1) = sv_rp sv (x_st x) + length bs"
    "sv_rd sv (x_st x1) = cs @ rest" using p x unfolding decodes_def by (metis append_assoc)
  define y where "y = x1\<lparr>x_mem := h x1\<rparr>"
  have y: "rready sv y" "x_st y = x_st x1" using x1(2) by (simp_all add: y_def rready_def)
  obtain x2 where x2: "q y z2 = Inr (True, b, x2)" "rready sv x2" "4 dvd sv_rp sv (x_st x2)" "sv_rp sv (x_st x2) = sv_rp sv (x_st x1) + length cs"
    "sv_rd sv (x_st x2) = rest" using q x1 y unfolding decodes_def by metis
  then show "\<exists>x'. r x z = Inr (True, v, x') \<and> rready sv x' \<and> 4 dvd sv_rp sv (x_st x')
      \<and> sv_rp sv (x_st x') = sv_rp sv (x_st x) + length (bs @ cs) \<and> sv_rd sv (x_st x') = rest"
    using x1 r [OF x(1) x1(1,2) x2(1) [unfolded y_def] x2(2)] by simp
qed

lemma decodes_void: "decodes sv xdr_void v [] v"
  by (simp add: decodes_def xdr_void_def)

text \<open>The outcome of a filter that satisfies \<open>decodes_safe\<close>.\<close>

abbreviation outcome_safe :: "('a \<Rightarrow> bool) \<Rightarrow> (bool \<times> 'a \<times> 's XDR) kres \<Rightarrow> bool" where
  "outcome_safe R res \<equiv> (\<exists>t v x'. res = Inr (t, v, x') \<and> (t \<longrightarrow> R v \<and> rready sv x'))"

lemma rready_mem [simp]: "rready sv (x\<lparr>x_mem := m\<rparr>) \<longleftrightarrow> rready sv x"
  by (simp add: rready_def)

lemma safe_outcome:
  assumes "decodes_safe sv q z Q" "rready sv x" "\<And>t b x'. q x z = Inr (t, b, x') \<Longrightarrow> t \<longrightarrow> Q b \<and> rready sv x' \<Longrightarrow> outcome_safe R res"
  shows "outcome_safe R res"
  using assms unfolding decodes_safe_def by blast

lemma safe_then:
  assumes p: "decodes_safe sv p z1 P"
    and rt: "\<And>x a x1. rready sv x \<Longrightarrow> p x z1 = Inr (True, a, x1) \<Longrightarrow> P a \<Longrightarrow> rready sv x1 \<Longrightarrow> outcome_safe R (r x z)"
    and rf: "\<And>x a x1. rready sv x \<Longrightarrow> p x z1 = Inr (False, a, x1) \<Longrightarrow> \<exists>b x'. r x z = Inr (False, b, x')"
  shows "decodes_safe sv r z R"
  unfolding decodes_safe_def
proof (intro allI impI)
  fix x :: "'s XDR" assume x: "rready sv x"
  obtain t a x1 where x1: "p x z1 = Inr (t, a, x1)" "t \<longrightarrow> P a \<and> rready sv x1" using p x unfolding decodes_safe_def by blast
  show "outcome_safe R (r x z)"
    using x1 rt [OF x, of a x1] rf [OF x, of a x1] by (cases t) auto
qed

text \<open>Opaque bytes, with the padding to whole units.\<close>

lemma PUTBYTES:
  assumes "x_ops x = sv_ops sv" "sv_winv sv (x_st x)" "n < 2 ^ 31" "n \<le> length bs"
  shows "\<exists>s'. XDR_PUTBYTES x bs (of_nat n) = Inr (n \<le> sv_room sv (x_st x), x\<lparr>x_st := s'\<rparr>)
    \<and> (n \<le> sv_room sv (x_st x) \<longrightarrow> sv_winv sv s' \<and> sv_wr sv s' = sv_wr sv (x_st x) @ take n bs \<and> sv_room sv s' = sv_room sv (x_st x) - n)"
  using putbytes [OF assms(2,3,4)] assms(1) by (auto simp: XDR_PUTBYTES_def)

lemma GETBYTES:
  assumes "rready sv x" "n < 2 ^ 31" "n \<le> length buf"
  shows "\<exists>r buf' x'. XDR_GETBYTES x buf (of_nat n) = Inr (r, buf', x') \<and> length buf' = length buf \<and> drop n buf' = drop n buf \<and> (r \<longrightarrow> rready sv x')
    \<and> (n \<le> length (sv_rd sv (x_st x)) \<longrightarrow> r \<and> take n buf' = take n (sv_rd sv (x_st x)) \<and> sv_rd sv (x_st x') = drop n (sv_rd sv (x_st x))
         \<and> sv_rp sv (x_st x') = sv_rp sv (x_st x) + n)"
  using getbytes [OF _ assms(2,3), of "x_st x"] assms(1) by (auto simp: rready_def XDR_GETBYTES_def)

lemma of_nat_zero: "n < 2 ^ 32 \<Longrightarrow> (of_nat n :: 32 word) = 0 \<longleftrightarrow> n = 0"
proof
  assume "n < 2 ^ 32" and z: "(of_nat n :: 32 word) = 0"
  then have "unat (of_nat n :: 32 word) = n" by (intro of_nat_less)
  then show "n = 0" unfolding z by simp
qed simp

lemma pad_zero: "(of_nat (pad n) :: 32 word) = 0 \<longleftrightarrow> pad n = 0" "pad 0 = 0" "pad n < 2 ^ 31"
proof -
  have "pad n < 2 ^ 32" using pad_less [of n] by simp
  then show "(of_nat (pad n) :: 32 word) = 0 \<longleftrightarrow> pad n = 0" by (rule of_nat_zero)
  show "pad n < 2 ^ 31" using pad_less [of n] by simp
qed (simp add: pad_def)

lemma encodes_opaque:
  assumes n: "n < 2 ^ 31" "n \<le> length bs"
  shows "encodes sv (\<lambda>x cp. xdr_opaque x cp (of_nat n)) bs (take n bs @ replicate (pad n) 0)"
  unfolding encodes_def
proof (intro conjI allI impI)
  show "4 dvd length (take n bs @ replicate (pad n) 0)" using n by simp
  fix x :: "'s XDR" assume x: "wready sv x"
  let ?all = "take n bs @ replicate (pad n) (0 :: byte)"
  let ?goal = "\<exists>x'. xdr_opaque x bs (of_nat n) = Inr (length ?all \<le> sv_room sv (x_st x), bs, x') \<and> x_op x' = XDR_ENCODE \<and> (length ?all \<le> sv_room sv (x_st x) \<longrightarrow>
      wready sv x' \<and> sv_wr sv (x_st x') = sv_wr sv (x_st x) @ ?all \<and> sv_room sv (x_st x') = sv_room sv (x_st x) - length ?all)"
  obtain s1 where s1: "XDR_PUTBYTES x bs (of_nat n) = Inr (n \<le> sv_room sv (x_st x), x\<lparr>x_st := s1\<rparr>)" "n \<le> sv_room sv (x_st x) \<longrightarrow> sv_winv sv s1
      \<and> sv_wr sv s1 = sv_wr sv (x_st x) @ take n bs \<and> sv_room sv s1 = sv_room sv (x_st x) - n"
    using PUTBYTES [of x n bs] x n by (auto simp: wready_def)
  have len: "length ?all = n + pad n" "4 dvd n + pad n" using n by simp_all
  have r: "rndup_left (of_nat n) = of_nat (pad n)" by (rule rndup_left_pad) (use n in simp)
  consider "n = 0" | "n \<noteq> 0" "\<not> n \<le> sv_room sv (x_st x)" | "n \<noteq> 0" "n \<le> sv_room sv (x_st x)" "pad n = 0" | "n \<noteq> 0" "n \<le> sv_room sv (x_st x)" "pad n \<noteq> 0" by blast
  then show ?goal
  proof cases
    case 1
    then show ?thesis using x by (simp add: xdr_opaque_def pad_zero wready_def)
  next
    case 2
    then have "xdr_opaque x bs (of_nat n) = Inr (False, bs, x\<lparr>x_st := s1\<rparr>)" using s1(1) x n of_nat_zero [of n] by (simp add: xdr_opaque_def wready_def)
    then show ?thesis using 2 len x by (auto simp: wready_def)
  next
    case 3
    then have "xdr_opaque x bs (of_nat n) = Inr (True, bs, x\<lparr>x_st := s1\<rparr>)" using s1(1) x n of_nat_zero [of n] r by (simp add: xdr_opaque_def wready_def)
    then show ?thesis using 3 len s1(2) x by (auto simp: wready_def)
  next
    case 4
    obtain s2 where s2: "XDR_PUTBYTES (x\<lparr>x_st := s1\<rparr>) (replicate 4 0) (of_nat (pad n)) = Inr (pad n \<le> sv_room sv s1, x\<lparr>x_st := s2\<rparr>)"
      "pad n \<le> sv_room sv s1 \<longrightarrow> sv_winv sv s2 \<and> sv_wr sv s2 = sv_wr sv s1 @ take (pad n) (replicate 4 0) \<and> sv_room sv s2 = sv_room sv s1 - pad n"
      using PUTBYTES [of "x\<lparr>x_st := s1\<rparr>" "pad n" "replicate 4 0"] 4 s1(2) x pad_less [of n] pad_zero(3) [of n] by (auto simp: wready_def)
    have "xdr_opaque x bs (of_nat n) = Inr (pad n \<le> sv_room sv s1, bs, x\<lparr>x_st := s2\<rparr>)"
      using s1(1) s2(1) x n of_nat_zero [of n] r 4 pad_zero(1) [of n] by (simp add: xdr_opaque_def wready_def)
    moreover have "pad n \<le> sv_room sv s1 \<longleftrightarrow> n + pad n \<le> sv_room sv (x_st x)" using s1(2) 4(2) by auto
    ultimately show ?thesis using 4 len s1(2) s2(2) x pad_less [of n] by (auto simp: wready_def min_def)
  qed
qed

lemma decodes_opaque:
  assumes n: "n < 2 ^ 31" "n \<le> length z" and bs: "length bs = n" "length ps = pad n"
  shows "decodes sv (\<lambda>x cp. xdr_opaque x cp (of_nat n)) z (bs @ ps) (bs @ drop n z)"
  unfolding decodes_def
proof (intro allI impI, elim conjE)
  fix x :: "'s XDR" and rest
  assume x: "rready sv x" "4 dvd sv_rp sv (x_st x)" "sv_rd sv (x_st x) = (bs @ ps) @ rest"
  let ?goal = "\<exists>x'. xdr_opaque x z (of_nat n) = Inr (True, bs @ drop n z, x') \<and> rready sv x' \<and> 4 dvd sv_rp sv (x_st x')
      \<and> sv_rp sv (x_st x') = sv_rp sv (x_st x) + length (bs @ ps) \<and> sv_rd sv (x_st x') = rest"
  have r: "rndup_left (of_nat n) = of_nat (pad n)" by (rule rndup_left_pad) (use n in simp)
  obtain buf x1 where x1: "XDR_GETBYTES x z (of_nat n) = Inr (True, buf, x1)" "rready sv x1" "take n buf = bs" "drop n buf = drop n z"
    "sv_rd sv (x_st x1) = ps @ rest" "sv_rp sv (x_st x1) = sv_rp sv (x_st x) + n"
    using GETBYTES [OF x(1) n] x(3) bs by auto
  have buf: "buf = bs @ drop n z" using x1(3,4) append_take_drop_id [of n buf] by simp
  have op: "x_op x = XDR_DECODE" using x(1) by (simp add: rready_def)
  consider "n = 0" | "n \<noteq> 0" "pad n = 0" | "n \<noteq> 0" "pad n \<noteq> 0" by blast
  then show ?goal
  proof cases
    case 1
    then show ?thesis using x bs by (simp add: xdr_opaque_def pad_zero)
  next
    case 2
    then show ?thesis using x1 op r of_nat_zero [of n] n bs buf pad_dvd [of n] x(2) by (simp add: xdr_opaque_def)
  next
    case 3
    obtain c x2 where x2: "XDR_GETBYTES x1 (replicate 16 0) (of_nat (pad n)) = Inr (True, c, x2)" "rready sv x2" "sv_rd sv (x_st x2) = rest"
      "sv_rp sv (x_st x2) = sv_rp sv (x_st x1) + pad n"
      using GETBYTES [OF x1(2), of "pad n" "replicate 16 0"] x1(5) bs pad_less [of n] by auto
    have "xdr_opaque x z (of_nat n) = Inr (True, bs @ drop n z, x2)"
      using x1(1) x2(1) op r of_nat_zero [of n] n 3 pad_zero(1) [of n] buf by (simp add: xdr_opaque_def)
    moreover have "4 dvd sv_rp sv (x_st x) + n + pad n" using x(2) pad_dvd [of n] by (metis add.assoc dvd_add)
    ultimately show ?thesis using x2 x1(6) bs by simp
  qed
qed

lemma safe_opaque:
  assumes n: "n < 2 ^ 31" "n \<le> length z"
  shows "decodes_safe sv (\<lambda>x cp. xdr_opaque x cp (of_nat n)) z (\<lambda>v. length v = length z \<and> drop n v = drop n z)"
  unfolding decodes_safe_def
proof (intro allI impI)
  fix x :: "'s XDR" assume x: "rready sv x"
  have r: "rndup_left (of_nat n) = of_nat (pad n)" by (rule rndup_left_pad) (use n in simp)
  have op: "x_op x = XDR_DECODE" using x by (simp add: rready_def)
  obtain t buf x1 where x1: "XDR_GETBYTES x z (of_nat n) = Inr (t, buf, x1)" "length buf = length z" "drop n buf = drop n z" "t \<longrightarrow> rready sv x1"
    using GETBYTES [OF x n] by blast
  show "\<exists>r v x'. xdr_opaque x z (of_nat n) = Inr (r, v, x') \<and> (r \<longrightarrow> (length v = length z \<and> drop n v = drop n z) \<and> rready sv x')"
  proof (cases "n \<noteq> 0 \<and> t \<and> pad n \<noteq> 0")
    case True
    then obtain t2 c x2 where "XDR_GETBYTES x1 (replicate 16 0) (of_nat (pad n)) = Inr (t2, c, x2)" "t2 \<longrightarrow> rready sv x2"
      using GETBYTES [of x1 "pad n" "replicate 16 0"] x1(4) pad_less [of n] by auto
    then show ?thesis using True x1 op r of_nat_zero [of n] n pad_zero(1) [of n] by (simp add: xdr_opaque_def)
  next
    case False
    then show ?thesis using x x1 op r of_nat_zero [of n] n pad_zero(1) [of n] by (cases t) (auto simp: xdr_opaque_def)
  qed
qed

text \<open>A filter that calls another one, after changing no more than the log of the allocator.\<close>

text \<open>A longlong in two longs, the high one first.\<close>

lemma long_encoded: "x_op x = XDR_ENCODE \<Longrightarrow> xdr_long x w = Inr (t, v, x1) \<longleftrightarrow> XDR_PUTLONG x w = Inr (t, x1) \<and> v = w"
  by (cases "XDR_PUTLONG x w") (auto simp: xdr_long_def)

lemma long_decoded:
  "x_op x = XDR_DECODE \<Longrightarrow> xdr_long x z = Inr (True, a, x1) \<longleftrightarrow> XDR_GETLONG x = Inr (Some a, x1)"
  "x_op x = XDR_DECODE \<Longrightarrow> xdr_long x z = Inr (False, a, x1) \<longleftrightarrow> XDR_GETLONG x = Inr (None, x1) \<and> a = z"
  by (cases "XDR_GETLONG x"; auto simp: xdr_long_def split: option.splits)+

lemma hyper_filter:
  "encodes sv xdr_longlong_t h (put4 (hi_long h) @ put4 (ucast h))" "decodes sv xdr_longlong_t z (put4 (hi_long h) @ put4 (ucast h)) h"
  "decodes_safe sv xdr_longlong_t z (\<lambda>_. True)"
proof -
  show "encodes sv xdr_longlong_t h (put4 (hi_long h) @ put4 (ucast h))"
    by (rule encodes_then [OF encodes_longs(1) encodes_longs(1)]) (auto simp: wready_def xdr_longlong_t_def long_encoded)
  show "decodes sv xdr_longlong_t z (put4 (hi_long h) @ put4 (ucast h)) h"
    by (rule decodes_then [where h = x_mem, OF decodes_longs(1) [of 0] decodes_longs(1) [of 0]])
      (auto simp: rready_def xdr_longlong_t_def long_decoded hyper_halves)
  show "decodes_safe sv xdr_longlong_t z (\<lambda>_. True)"
  proof (rule safe_then [OF safe_longs(1) [of 0]])
    fix x x1 :: "'s XDR" and a
    assume x: "rready sv x" "xdr_long x 0 = Inr (True, a, x1)" "rready sv x1"
    obtain l x2 where "XDR_GETLONG x1 = Inr (l, x2)" "l \<noteq> None \<longrightarrow> rready sv x2" using GETLONG [OF x(3)] by blast
    then show "outcome_safe (\<lambda>_. True) (xdr_longlong_t x z)"
      using x by (cases l) (auto simp: rready_def xdr_longlong_t_def long_decoded)
  qed (auto simp: rready_def xdr_longlong_t_def long_decoded)
qed

text \<open>Counted bytes.\<close>

lemma u_int_long: "xdr_u_int = xdr_long"
  by (intro ext) (simp add: xdr_u_int_def xdr_u_long_def xdr_long_def split: xdr_op.split)

lemma of_nat_unat: "(of_nat (unat n) :: 32 word) = n"
  by simp

lemma encodes_bytes:
  assumes "unat n < 2 ^ 31" "n \<le> maxsize" "unat n \<le> length (deref cp)"
  shows "encodes sv (xdr_bytes junk maxsize) (cp, n) (put4 n @ take (unat n) (deref cp) @ replicate (pad (unat n)) 0)"
  by (rule encodes_then [OF encodes_longs(4) encodes_opaque [OF assms(1,3)]]) (use assms(2) in \<open>auto simp: xdr_bytes_def wready_def not_less\<close>)

lemma decodes_bytes:
  assumes n: "unat n < 2 ^ 31" "n \<le> maxsize" "length bs = unat n"
  shows "decodes sv (xdr_bytes junk maxsize) (None, 0) (put4 n @ bs @ replicate (pad (unat n)) 0) (if n = 0 then None else Some bs, n)"
proof (cases "n = 0")
  case True
  then have "bs @ replicate (pad (unat n)) 0 = []" using n(3) by (simp add: pad_zero)
  then show ?thesis
    by (simp only: True) (rule decodes_then [where h = x_mem, OF decodes_longs(4) [of 0] decodes_void [of "()"]],
        auto simp: xdr_bytes_def rready_def xdr_void_def)
next
  case False
  have "decodes sv (\<lambda>x cp. xdr_opaque x cp n) (map junk [0 ..< unat n]) (bs @ replicate (pad (unat n)) 0) bs"
    using decodes_opaque [OF n(1), of "map junk [0 ..< unat n]" bs "replicate (pad (unat n)) 0"] n(3) by simp
  then show ?thesis
    by (rule decodes_then [where h = "\<lambda>x. MemAlloc n # x_mem x", OF decodes_longs(4) [of 0]])
      (use False n(2) in \<open>auto simp: xdr_bytes_def rready_def mem_alloc_def not_less\<close>)
qed

lemma safe_bytes:
  assumes m: "unat maxsize < 2 ^ 31"
  shows "decodes_safe sv (xdr_bytes junk maxsize) (None, 0)
    (\<lambda>(cp, n). n \<le> maxsize \<and> (case cp of None \<Rightarrow> n = 0 | Some bs \<Rightarrow> n \<noteq> 0 \<and> length bs = unat n))" (is "decodes_safe sv _ _ ?R")
proof (rule safe_then [OF safe_longs(2) [of 0]])
  fix x x1 :: "'s XDR" and n
  assume x: "rready sv x" "xdr_u_int x 0 = Inr (True, n, x1)" "rready sv x1"
  let ?x2 = "x1\<lparr>x_mem := MemAlloc n # x_mem x1\<rparr>" and ?z = "map junk [0 ..< unat n]"
  consider "n > maxsize" | "n = 0" "n \<le> maxsize" | "n \<noteq> 0" "n \<le> maxsize" by force
  then show "outcome_safe ?R (xdr_bytes junk maxsize x (None, 0))"
  proof cases
    case 3
    have "unat n < 2 ^ 31" using 3(2) m by (simp add: word_le_nat_alt)
    then have o: "decodes_safe sv (\<lambda>x cp. xdr_opaque x cp n) ?z (\<lambda>v. length v = unat n)"
      using safe_opaque [of "unat n" ?z] by (simp add: decodes_safe_def) fast
    show ?thesis
      by (rule safe_outcome [OF o, of ?x2]) (use x 3 in \<open>auto simp: xdr_bytes_def rready_def mem_alloc_def not_less\<close>)
  qed (use x in \<open>auto simp: xdr_bytes_def rready_def\<close>)
qed (auto simp: xdr_bytes_def)

text \<open>Strings.\<close>

lemma strlen_ended: "0 \<notin> set bs \<Longrightarrow> strlen (bs @ [0]) = Inr (of_nat (length bs))"
proof -
  assume "0 \<notin> set bs"
  then have "takeWhile (\<lambda>c. c \<noteq> 0) (bs @ [0]) = bs" by (induction bs) auto
  then show ?thesis by (simp add: strlen_def)
qed

lemma strlen_full:
  assumes "length v = Suc n" "drop n v = [0]" "n < 2 ^ 32"
  shows "\<exists>l. strlen v = Inr l \<and> (l = of_nat n \<longrightarrow> (\<exists>bs. v = bs @ [0] \<and> 0 \<notin> set bs \<and> length bs = n))"
proof -
  define bs where "bs = take n v"
  have v: "v = bs @ [0]" "length bs = n" using assms(1,2) append_take_drop_id [of n v] by (simp_all add: bs_def)
  let ?t = "takeWhile (\<lambda>c. c \<noteq> 0) v"
  have "(of_nat (length ?t) :: 32 word) \<noteq> of_nat n" if z: "0 \<in> set bs"
  proof -
    have "length ?t < length bs" using z unfolding v(1) by (induction bs) auto
    then have less: "length ?t < n" using v(2) by simp
    then have "unat (of_nat (length ?t) :: 32 word) \<noteq> unat (of_nat n :: 32 word)" using assms(3) by simp
    then show ?thesis by auto
  qed
  then show ?thesis using v by (auto simp: strlen_def)
qed

lemma encodes_string:
  assumes n: "length bs < 2 ^ 31" "of_nat (length bs) \<le> maxsize" "0 \<notin> set bs"
  shows "encodes sv (xdr_string junk maxsize) (Some (bs @ [0])) (put4 (of_nat (length bs)) @ bs @ replicate (pad (length bs)) 0)"
proof -
  have "encodes sv (\<lambda>x cp. xdr_opaque x cp (of_nat (length bs))) (bs @ [0]) (bs @ replicate (pad (length bs)) 0)"
    using encodes_opaque [OF n(1), of "bs @ [0]"] by simp
  then show ?thesis
    by (rule encodes_then [OF encodes_longs(4)]) (use n(2) in \<open>auto simp: xdr_string_def wready_def strlen_ended [OF n(3)] not_less\<close>)
qed

text \<open>The buffer into which a string of \<open>n\<close> bytes is decoded.\<close>

lemma string_buffer:
  assumes "n < 2 ^ 31"
  shows "length ((map junk [0 ..< Suc n])[n := 0]) = Suc n" "drop n ((map junk [0 ..< Suc n])[n := 0]) = [0]"
    "unat (of_nat n + 1 :: 32 word) = Suc n" "(of_nat n + 1 :: 32 word) \<noteq> 0"
proof -
  show "length ((map junk [0 ..< Suc n])[n := 0]) = Suc n" by simp
  show "drop n ((map junk [0 ..< Suc n])[n := 0]) = [0]" by (simp add: drop_update_cancel list_update_append)
  show u: "unat (of_nat n + 1 :: 32 word) = Suc n" using assms of_nat_less [of "Suc n"] by (simp add: add.commute)
  then show "(of_nat n + 1 :: 32 word) \<noteq> 0" by auto
qed

lemma string_decode_eq:
  assumes "n < 2 ^ 31" and "xdr_opaque (x\<lparr>x_mem := MemAlloc (of_nat n + 1) # x_mem x\<rparr>) ((map junk [0 ..< Suc n])[n := 0]) (of_nat n) = Inr (t, v, x2)"
    and "t \<longrightarrow> strlen v = Inr l"
  shows "xdr_string_decode junk None (of_nat n) x =
    (if t \<and> l = of_nat n then Inr (True, Some v, x2) else Inr (False, None, mem_free (of_nat n + 1) x2))"
proof -
  have "unat (of_nat n :: 32 word) = n" using assms(1) by simp
  then show ?thesis using assms(2,3) string_buffer [OF assms(1)]
    by (cases t) (simp_all del: upt_Suc add: xdr_string_decode_def mem_alloc_def Let_def)
qed

lemma decodes_string:
  assumes n: "length bs < 2 ^ 31" "of_nat (length bs) \<le> maxsize" "0 \<notin> set bs"
  shows "decodes sv (xdr_string junk maxsize) None (put4 (of_nat (length bs)) @ bs @ replicate (pad (length bs)) 0) (Some (bs @ [0]))"
proof -
  let ?n = "length bs" and ?z = "(map junk [0 ..< Suc (length bs)])[length bs := 0]"
  have "decodes sv (\<lambda>x cp. xdr_opaque x cp (of_nat ?n)) ?z (bs @ replicate (pad ?n) 0) (bs @ [0])"
    using decodes_opaque [OF n(1), of ?z bs "replicate (pad ?n) 0"] string_buffer(2) [OF n(1), of junk] by simp
  then show ?thesis
  proof (rule decodes_then [where h = "\<lambda>x. MemAlloc (of_nat ?n + 1) # x_mem x", OF decodes_longs(4) [of 0]])
    fix x x1 x2 :: "'s XDR"
    assume x: "rready sv x" "xdr_u_int x 0 = Inr (True, of_nat ?n, x1)" "rready sv x1"
      "xdr_opaque (x1\<lparr>x_mem := MemAlloc (of_nat ?n + 1) # x_mem x1\<rparr>) ?z (of_nat ?n) = Inr (True, bs @ [0], x2)"
    have "xdr_string_decode junk None (of_nat ?n) x1 = Inr (True, Some (bs @ [0]), x2)"
      using string_decode_eq [OF n(1) x(4) impI, OF strlen_ended [OF n(3)]] by simp
    then show "xdr_string junk maxsize x None = Inr (True, Some (bs @ [0]), x2)"
      using x(1-3) n(2) by (simp add: xdr_string_def rready_def not_less)
  qed
qed

lemma safe_string:
  assumes m: "unat maxsize < 2 ^ 31"
  shows "decodes_safe sv (xdr_string junk maxsize) None
    (\<lambda>cp. \<exists>bs. cp = Some (bs @ [0]) \<and> 0 \<notin> set bs \<and> length bs \<le> unat maxsize)" (is "decodes_safe sv _ _ ?R")
proof (rule safe_then [OF safe_longs(2) [of 0]])
  fix x x1 :: "'s XDR" and w
  assume x: "rready sv x" "xdr_u_int x 0 = Inr (True, w, x1)" "rready sv x1"
  show "outcome_safe ?R (xdr_string junk maxsize x None)"
  proof (cases "w > maxsize")
    case False
    define n where "n = unat w"
    have n: "w = of_nat n" "n < 2 ^ 31" "n \<le> unat maxsize" using False m by (simp_all add: n_def word_less_nat_alt)
    let ?z = "(map junk [0 ..< Suc n])[n := 0]" and ?x2 = "x1\<lparr>x_mem := MemAlloc (of_nat n + 1) # x_mem x1\<rparr>"
    have eq: "xdr_string junk maxsize x None = xdr_string_decode junk None (of_nat n) x1"
      using x False n(1) by (simp add: xdr_string_def rready_def)
    have o: "decodes_safe sv (\<lambda>x cp. xdr_opaque x cp (of_nat n)) ?z (\<lambda>v. length v = Suc n \<and> drop n v = [0])"
      using safe_opaque [OF n(2), of ?z] string_buffer(2) [OF n(2), of junk] by simp
    show ?thesis
    proof (rule safe_outcome [OF o, of ?x2])
      fix t v x' assume t: "xdr_opaque ?x2 ?z (of_nat n) = Inr (t, v, x')" "t \<longrightarrow> (length v = Suc n \<and> drop n v = [0]) \<and> rready sv x'"
      obtain l where l: "t \<longrightarrow> strlen v = Inr l \<and> (l = of_nat n \<longrightarrow> (\<exists>bs. v = bs @ [0] \<and> 0 \<notin> set bs \<and> length bs = n))"
        using strlen_full [of v n] t(2) n(2) by fastforce
      show ?thesis unfolding eq using string_decode_eq [OF n(2) t(1), of l] l t(2) n(3) by (cases "t \<and> l = of_nat n") auto
    qed (use x in simp)
  qed (use x in \<open>auto simp: xdr_string_def rready_def\<close>)
qed (auto simp: xdr_string_def rready_def)

text \<open>Arrays.\<close>

lemma encodes_void: "encodes sv xdr_void v []"
  by (simp add: encodes_def xdr_void_def) (simp add: wready_def)

lemma encodes_loop:
  "\<forall>v \<in> set vs. encodes sv p v (e v) \<Longrightarrow> encodes sv (\<lambda>x t. array_loop p (length vs) x t) vs (concat (map e vs))"
proof (induction vs)
  case Nil
  show ?case using encodes_void [of "[]"] by (simp add: encodes_def xdr_void_def)
next
  case (Cons v vs)
  then have "encodes sv p v (e v)" "encodes sv (\<lambda>x t. array_loop p (length vs) x t) vs (concat (map e vs))" by simp_all
  from encodes_then [OF this, of "\<lambda>x t. array_loop p (length (v # vs)) x t" "v # vs"] show ?case by simp
qed

lemma decodes_loop:
  "\<forall>v \<in> set vs. decodes sv p z (e v) v \<Longrightarrow>
   decodes sv (\<lambda>x t. array_loop p (length vs) x t) (replicate (length vs) z) (concat (map e vs)) vs"
proof (induction vs)
  case Nil
  show ?case using decodes_void [of "[]"] by (simp add: decodes_def xdr_void_def)
next
  case (Cons v vs)
  then have "decodes sv p z (e v) v" "decodes sv (\<lambda>x t. array_loop p (length vs) x t) (replicate (length vs) z) (concat (map e vs)) vs" by simp_all
  from decodes_then [OF this, where h = x_mem, of "\<lambda>x t. array_loop p (length (v # vs)) x t" "replicate (length (v # vs)) z" "v # vs"]
  show ?case by simp
qed

lemma safe_loop:
  assumes p: "decodes_safe sv p z P"
  shows "decodes_safe sv (\<lambda>x t. array_loop p n x t) (replicate n z) (\<lambda>vs. length vs = n \<and> (\<forall>v \<in> set vs. P v))"
proof (induction n)
  case 0
  show ?case by (auto simp: decodes_safe_def)
next
  case (Suc n)
  show ?case
  proof (rule safe_then [OF p])
    fix x x1 :: "'s XDR" and a
    assume x: "rready sv x" "p x z = Inr (True, a, x1)" "P a" "rready sv x1"
    show "outcome_safe (\<lambda>vs. length vs = Suc n \<and> (\<forall>v \<in> set vs. P v)) (array_loop p (Suc n) x (replicate (Suc n) z))"
      by (rule safe_outcome [OF Suc x(4)]) (use x(2,3) in auto)
  qed auto
qed

lemma encodes_array:
  assumes "unat c = length vs" "c \<le> maxsize" "\<forall>v \<in> set vs. encodes sv p v (e v)" "cp = Some vs \<or> cp = None \<and> vs = []"
  shows "encodes sv (xdr_array elsize z p maxsize) (cp, c) (put4 c @ concat (map e vs))"
proof -
  have "deref cp = vs" using assms(4) by auto
  then show ?thesis
    by (intro encodes_then [OF encodes_longs(4) encodes_loop [OF assms(3)]])
      (use assms(1,2,4) in \<open>auto simp: xdr_array_def wready_def not_less split: option.splits\<close>)
qed

text \<open>The memory for \<open>c\<close> elements holds \<open>c\<close> elements when its size does not overflow.\<close>

lemma array_fits:
  assumes "elsize > 0" "unat (maxsize :: 32 word) * unat elsize < 2 ^ 32" "c \<le> maxsize"
  shows "unat (c * elsize) div unat elsize = unat c"
proof -
  have "unat c \<le> unat maxsize" using assms(3) by (simp add: word_le_nat_alt)
  then have "unat c * unat elsize < 2 ^ 32" by (rule le_less_trans [OF mult_le_mono1 assms(2)])
  then have "unat (c * elsize) = unat c * unat elsize" by (simp add: unat_word_ariths)
  moreover have "0 < unat elsize" using assms(1) by (simp add: word_less_nat_alt)
  ultimately show ?thesis by simp
qed

lemma decodes_array:
  assumes c: "unat c = length vs" "c \<le> maxsize" "elsize > 0" "unat maxsize * unat elsize < 2 ^ 32"
    and p: "\<forall>v \<in> set vs. decodes sv p z (e v) v"
  shows "decodes sv (xdr_array elsize z p maxsize) (None, 0) (put4 c @ concat (map e vs)) (if c = 0 then None else Some vs, c)"
proof (cases "c = 0")
  case True
  then have "concat (map e vs) = []" using c(1) by simp
  then show ?thesis
    by (simp only: True) (rule decodes_then [where h = x_mem, OF decodes_longs(4) [of 0] decodes_void [of "()"]],
        auto simp: xdr_array_def rready_def xdr_void_def)
next
  case False
  have f: "unat (c * elsize) div unat elsize = length vs" using array_fits [OF c(3,4,2)] c(1) by simp
  show ?thesis
    by (rule decodes_then [where h = "\<lambda>x. MemAlloc (c * elsize) # x_mem x", OF decodes_longs(4) [of 0] decodes_loop [OF p]])
      (use False c(1,2) f in \<open>auto simp: xdr_array_def rready_def not_less\<close>)
qed

lemma safe_array:
  assumes m: "elsize > 0" "unat maxsize * unat elsize < 2 ^ 32" and p: "decodes_safe sv p z P"
  shows "decodes_safe sv (xdr_array elsize z p maxsize) (None, 0)
    (\<lambda>(cp, c). c \<le> maxsize \<and> (case cp of None \<Rightarrow> c = 0 | Some vs \<Rightarrow> c \<noteq> 0 \<and> length vs = unat c \<and> (\<forall>v \<in> set vs. P v)))" (is "decodes_safe sv _ _ ?R")
proof (rule safe_then [OF safe_longs(2) [of 0]])
  fix x x1 :: "'s XDR" and c
  assume x: "rready sv x" "xdr_u_int x 0 = Inr (True, c, x1)" "rready sv x1"
  consider "c > maxsize" | "c = 0" "c \<le> maxsize" | "c \<noteq> 0" "c \<le> maxsize" by force
  then show "outcome_safe ?R (xdr_array elsize z p maxsize x (None, 0))"
  proof cases
    case 3
    have f: "unat (c * elsize) div unat elsize = unat c" by (rule array_fits [OF m 3(2)])
    let ?x2 = "x1\<lparr>x_mem := MemAlloc (c * elsize) # x_mem x1\<rparr>"
    show ?thesis
    proof (rule safe_outcome [OF safe_loop [OF p, of "unat c"], of ?x2])
      fix t vs x' assume "array_loop p (unat c) ?x2 (replicate (unat c) z) = Inr (t, vs, x')"
        "t \<longrightarrow> (length vs = unat c \<and> (\<forall>v \<in> set vs. P v)) \<and> rready sv x'"
      then show ?thesis using x 3 f
        by (cases t; cases "x_op x' = XDR_FREE") (auto simp: xdr_array_def rready_def not_less)
    qed (use x in simp)
  qed (use x in \<open>auto simp: xdr_array_def rready_def\<close>)
qed (auto simp: xdr_array_def)

text \<open>Pointers, which may be null.\<close>

lemma encodes_pointer:
  "encodes sv (xdr_pointer sz z p) None (put4 0)"
  "encodes sv p v bs \<Longrightarrow> encodes sv (xdr_pointer sz z p) (Some v) (put4 1 @ bs)"
proof -
  show "encodes sv (xdr_pointer sz z p) None (put4 0)"
    using encodes_then [OF encodes_longs(8) [of 0] encodes_void [of "()"], of "xdr_pointer sz z p" None]
    by (auto simp: xdr_pointer_def xdr_void_def)
  have b: "encodes sv xdr_bool 1 (put4 1)" using encodes_longs(8) [of 1] by simp
  assume p: "encodes sv p v bs"
  show "encodes sv (xdr_pointer sz z p) (Some v) (put4 1 @ bs)"
    by (rule encodes_then [OF b p]) (auto simp: xdr_pointer_def xdr_reference_def)
qed

lemma decodes_pointer:
  "decodes sv (xdr_pointer sz z p) None (put4 0) None"
  "decodes sv p z bs v \<Longrightarrow> decodes sv (xdr_pointer sz z p) None (put4 1 @ bs) (Some v)"
proof -
  have b: "decodes sv xdr_bool 0 (put4 0) 0" "decodes sv xdr_bool 0 (put4 1) 1" using decodes_longs(8) [of 0 0] decodes_longs(8) [of 0 1] by simp_all
  show "decodes sv (xdr_pointer sz z p) None (put4 0) None"
    using decodes_then [OF b(1) decodes_void [of "()"], where h = x_mem, of "xdr_pointer sz z p" None None]
    by (auto simp: xdr_pointer_def xdr_void_def)
  assume p: "decodes sv p z bs v"
  show "decodes sv (xdr_pointer sz z p) None (put4 1 @ bs) (Some v)"
    by (rule decodes_then [OF b(2) p, where h = "\<lambda>x. MemAlloc sz # x_mem x"]) (auto simp: xdr_pointer_def xdr_reference_def rready_def)
qed

lemma safe_pointer:
  assumes p: "decodes_safe sv p z P"
  shows "decodes_safe sv (xdr_pointer sz z p) None (\<lambda>v. case v of None \<Rightarrow> True | Some w \<Rightarrow> P w)" (is "decodes_safe sv _ _ ?R")
proof (rule safe_then [OF safe_longs(6) [of 0]])
  fix x x1 :: "'s XDR" and a
  assume x: "rready sv x" "xdr_bool x 0 = Inr (True, a, x1)" "rready sv x1"
  show "outcome_safe ?R (xdr_pointer sz z p x None)"
    by (rule safe_outcome [OF p, of "x1\<lparr>x_mem := MemAlloc sz # x_mem x1\<rparr>"])
      (use x in \<open>auto simp: xdr_pointer_def xdr_reference_def rready_def\<close>)
qed (auto simp: xdr_pointer_def)

end

end
