(* ===== verification/Xdr_Univ.thy ===== *)
theory Xdr_Univ
  imports Xdr_Type
begin

text \<open>
  The types that XDR filters can be built for. A protocol's filter is put together from those of
  \<^verbatim>\<open>rpc/xdr.c\<close>, \<^verbatim>\<open>rpc/xdr_array.c\<close> and \<^verbatim>\<open>rpc/xdr_refer.c\<close> as the type is from its parts; \<open>xdr_ty\<close> does
  that from a description of the type, on values of one datatype. \<open>wt\<close> says which values the type
  has, \<open>enc\<close> which bytes the XDR standard gives for them, \<open>zero_val\<close> the object that cleared memory
  holds. For types with \<open>sane\<close> bounds a filter encodes and decodes as \<open>enc\<close> says, on every stream.
\<close>

section \<open>Types and values\<close>

datatype xty =
    TVoid | TLong | TULong | TInt | TUInt | TEnum | TBool | TShort | TUShort | TChar | THyper | TUHyper
  | TOpaque nat
  | TBytes "32 word"
  | TString "32 word"
  | TArray xty "32 word" "32 word"
  | TPtr xty "32 word"
  | TPair xty xty
  | TUnion "(32 word \<times> xty) list" "xty option"

datatype xval =
    is_void: VVoid
  | is_long: VLong (v_long: "32 word")
  | is_short: VShort (v_short: "16 word")
  | is_char: VChar (v_char: byte)
  | is_hyper: VHyper (v_hyper: "64 word")
  | is_opaque: VOpaque (v_opaque: "byte list")
  | is_bytes: VBytes (v_bytes: "byte list option \<times> 32 word")
  | is_string: VString (v_string: "byte list option")
  | is_array: VArray (v_array: "xval list option \<times> 32 word")
  | is_ptr: VPtr (v_ptr: "xval option")
  | is_pair: VPair (v_pair: "xval \<times> xval")
  | is_union: VUnion (v_union: "32 word \<times> xval option")

text \<open>A filter for the objects that a constructor holds.\<close>

definition via :: "(xval \<Rightarrow> bool) \<Rightarrow> (xval \<Rightarrow> 'a) \<Rightarrow> ('a \<Rightarrow> xval) \<Rightarrow> ('s, 'a) xdrproc \<Rightarrow> ('s, xval) xdrproc" where
  "via is sel con p x v = (if is v then map_sum id (\<lambda>(r, a, x'). (r, con a, x')) (p x (sel v)) else Inl (Wild ''type''))"

text \<open>The fields of a structure, one after the other, until one fails.\<close>

definition fields2 :: "('s, 'a) xdrproc \<Rightarrow> ('s, 'b) xdrproc \<Rightarrow> ('s, 'a \<times> 'b) xdrproc" where
  "fields2 p q x ab =
     (case p x (fst ab) of
        Inl f \<Rightarrow> Inl f
      | Inr (False, a, x1) \<Rightarrow> Inr (False, (a, snd ab), x1)
      | Inr (True, a, x1) \<Rightarrow> map_sum id (\<lambda>(r, b, x2). (r, (a, b), x2)) (q x1 (snd ab)))"

text \<open>An arm of a union works on the memory of the union, which is clear (\<open>None\<close>) to start with.\<close>

definition arm :: "'a \<Rightarrow> ('s, 'a) xdrproc \<Rightarrow> ('s, 'a option) xdrproc" where
  "arm zero p x u = map_sum id (\<lambda>(r, a, x'). (r, Some a, x')) (p x (case u of None \<Rightarrow> zero | Some a \<Rightarrow> a))"

primrec zero_val :: "xty \<Rightarrow> xval" where
  "zero_val TVoid = VVoid"
| "zero_val TLong = VLong 0" | "zero_val TULong = VLong 0" | "zero_val TInt = VLong 0" | "zero_val TUInt = VLong 0"
| "zero_val TEnum = VLong 0" | "zero_val TBool = VLong 0"
| "zero_val TShort = VShort 0" | "zero_val TUShort = VShort 0"
| "zero_val TChar = VChar 0"
| "zero_val THyper = VHyper 0" | "zero_val TUHyper = VHyper 0"
| "zero_val (TOpaque n) = VOpaque (replicate n 0)"
| "zero_val (TBytes m) = VBytes (None, 0)"
| "zero_val (TString m) = VString None"
| "zero_val (TArray t es m) = VArray (None, 0)"
| "zero_val (TPtr t sz) = VPtr None"
| "zero_val (TPair t u) = VPair (zero_val t, zero_val u)"
| "zero_val (TUnion cs df) = VUnion (0, None)"

primrec xdr_ty :: "(nat \<Rightarrow> byte) \<Rightarrow> xty \<Rightarrow> ('s, xval) xdrproc" where
  "xdr_ty junk TVoid = xdr_void"
| "xdr_ty junk TLong = via is_long v_long VLong xdr_long"
| "xdr_ty junk TULong = via is_long v_long VLong xdr_u_long"
| "xdr_ty junk TInt = via is_long v_long VLong xdr_int"
| "xdr_ty junk TUInt = via is_long v_long VLong xdr_u_int"
| "xdr_ty junk TEnum = via is_long v_long VLong xdr_enum"
| "xdr_ty junk TBool = via is_long v_long VLong xdr_bool"
| "xdr_ty junk TShort = via is_short v_short VShort xdr_short"
| "xdr_ty junk TUShort = via is_short v_short VShort xdr_u_short"
| "xdr_ty junk TChar = via is_char v_char VChar xdr_char"
| "xdr_ty junk THyper = via is_hyper v_hyper VHyper xdr_longlong_t"
| "xdr_ty junk TUHyper = via is_hyper v_hyper VHyper xdr_u_longlong_t"
| "xdr_ty junk (TOpaque n) = via is_opaque v_opaque VOpaque (\<lambda>x cp. xdr_opaque x cp (of_nat n))"
| "xdr_ty junk (TBytes m) = via is_bytes v_bytes VBytes (xdr_bytes junk m)"
| "xdr_ty junk (TString m) = via is_string v_string VString (xdr_string junk m)"
| "xdr_ty junk (TArray t es m) = via is_array v_array VArray (xdr_array es (zero_val t) (xdr_ty junk t) m)"
| "xdr_ty junk (TPtr t sz) = via is_ptr v_ptr VPtr (xdr_pointer sz (zero_val t) (xdr_ty junk t))"
| "xdr_ty junk (TPair t u) = via is_pair v_pair VPair (fields2 (xdr_ty junk t) (xdr_ty junk u))"
| "xdr_ty junk (TUnion cs df) = via is_union v_union VUnion
     (xdr_union (map (map_prod id (\<lambda>t. arm (zero_val t) (xdr_ty junk t))) cs)
       (map_option (\<lambda>t. arm (zero_val t) (xdr_ty junk t)) df))"

text \<open>What the parts of a union give: those of the arm for the discriminant, or those of the default.\<close>

definition pick :: "(32 word \<times> 'b) list \<Rightarrow> 'b option \<Rightarrow> 32 word \<Rightarrow> 'b option" where
  "pick cs df d = (case map_of cs d of Some b \<Rightarrow> Some b | None \<Rightarrow> df)"

primrec wt :: "xty \<Rightarrow> xval \<Rightarrow> bool" where
  "wt TVoid v \<longleftrightarrow> v = VVoid"
| "wt TLong v \<longleftrightarrow> is_long v" | "wt TULong v \<longleftrightarrow> is_long v" | "wt TInt v \<longleftrightarrow> is_long v" | "wt TUInt v \<longleftrightarrow> is_long v" | "wt TEnum v \<longleftrightarrow> is_long v"
| "wt TBool v \<longleftrightarrow> v = VLong 0 \<or> v = VLong 1"
| "wt TShort v \<longleftrightarrow> is_short v" | "wt TUShort v \<longleftrightarrow> is_short v"
| "wt TChar v \<longleftrightarrow> is_char v"
| "wt THyper v \<longleftrightarrow> is_hyper v" | "wt TUHyper v \<longleftrightarrow> is_hyper v"
| "wt (TOpaque n) v \<longleftrightarrow> is_opaque v \<and> length (v_opaque v) = n"
| "wt (TBytes m) v \<longleftrightarrow> is_bytes v \<and> (case v_bytes v of (cp, n) \<Rightarrow> n \<le> m \<and> (case cp of None \<Rightarrow> n = 0 | Some bs \<Rightarrow> n \<noteq> 0 \<and> length bs = unat n))"
| "wt (TString m) v \<longleftrightarrow> is_string v \<and> (case v_string v of None \<Rightarrow> False | Some s \<Rightarrow> s \<noteq> [] \<and> last s = 0 \<and> 0 \<notin> set (butlast s) \<and> length s \<le> Suc (unat m))"
| "wt (TArray t es m) v \<longleftrightarrow> is_array v \<and> (case v_array v of (cp, n) \<Rightarrow> n \<le> m \<and> (case cp of None \<Rightarrow> n = 0 | Some vs \<Rightarrow> n \<noteq> 0 \<and> length vs = unat n \<and> (\<forall>u \<in> set vs. wt t u)))"
| "wt (TPtr t sz) v \<longleftrightarrow> is_ptr v \<and> (case v_ptr v of None \<Rightarrow> True | Some u \<Rightarrow> wt t u)"
| "wt (TPair t u) v \<longleftrightarrow> is_pair v \<and> wt t (fst (v_pair v)) \<and> wt u (snd (v_pair v))"
| "wt (TUnion cs df) v \<longleftrightarrow> is_union v \<and> (case v_union v of (d, None) \<Rightarrow> False
     | (d, Some u) \<Rightarrow> (case pick (map (map_prod id wt) cs) (map_option wt df) d of None \<Rightarrow> False | Some P \<Rightarrow> P u))"

primrec enc :: "xty \<Rightarrow> xval \<Rightarrow> byte list" where
  "enc TVoid v = []"
| "enc TLong v = put4 (v_long v)" | "enc TULong v = put4 (v_long v)" | "enc TInt v = put4 (v_long v)" | "enc TUInt v = put4 (v_long v)"
| "enc TEnum v = put4 (v_long v)" | "enc TBool v = put4 (v_long v)"
| "enc TShort v = put4 (scast (v_short v))" | "enc TUShort v = put4 (ucast (v_short v))"
| "enc TChar v = put4 (scast (v_char v))"
| "enc THyper v = put4 (hi_long (v_hyper v)) @ put4 (ucast (v_hyper v))" | "enc TUHyper v = put4 (hi_long (v_hyper v)) @ put4 (ucast (v_hyper v))"
| "enc (TOpaque n) v = v_opaque v @ replicate (pad n) 0"
| "enc (TBytes m) v = (case v_bytes v of (cp, n) \<Rightarrow> put4 n @ deref cp @ replicate (pad (unat n)) 0)"
| "enc (TString m) v = (let s = butlast (deref (v_string v)) in put4 (of_nat (length s)) @ s @ replicate (pad (length s)) 0)"
| "enc (TArray t es m) v = (case v_array v of (cp, n) \<Rightarrow> put4 n @ concat (map (enc t) (deref cp)))"
| "enc (TPtr t sz) v = (case v_ptr v of None \<Rightarrow> put4 0 | Some u \<Rightarrow> put4 1 @ enc t u)"
| "enc (TPair t u) v = enc t (fst (v_pair v)) @ enc u (snd (v_pair v))"
| "enc (TUnion cs df) v = (case v_union v of (d, u) \<Rightarrow>
     put4 d @ (case pick (map (map_prod id enc) cs) (map_option enc df) d of None \<Rightarrow> [] | Some e \<Rightarrow> (case u of None \<Rightarrow> [] | Some w \<Rightarrow> e w)))"

text \<open>Lengths are less than \<open>2\<^sup>3\<^sup>1\<close>, since the streams take them for signed, and the memory for an array does not overflow.\<close>

primrec sane :: "xty \<Rightarrow> bool" where
  "sane TVoid \<longleftrightarrow> True" | "sane TLong \<longleftrightarrow> True" | "sane TULong \<longleftrightarrow> True" | "sane TInt \<longleftrightarrow> True" | "sane TUInt \<longleftrightarrow> True" | "sane TEnum \<longleftrightarrow> True"
| "sane TBool \<longleftrightarrow> True" | "sane TShort \<longleftrightarrow> True" | "sane TUShort \<longleftrightarrow> True" | "sane TChar \<longleftrightarrow> True" | "sane THyper \<longleftrightarrow> True" | "sane TUHyper \<longleftrightarrow> True"
| "sane (TOpaque n) \<longleftrightarrow> n < 2 ^ 31"
| "sane (TBytes m) \<longleftrightarrow> unat m < 2 ^ 31"
| "sane (TString m) \<longleftrightarrow> unat m < 2 ^ 31"
| "sane (TArray t es m) \<longleftrightarrow> sane t \<and> es > 0 \<and> unat m * unat es < 2 ^ 32"
| "sane (TPtr t sz) \<longleftrightarrow> sane t"
| "sane (TPair t u) \<longleftrightarrow> sane t \<and> sane u"
| "sane (TUnion cs df) \<longleftrightarrow> (\<forall>p \<in> set (map (map_prod id sane) cs). snd p) \<and> (case map_option sane df of None \<Rightarrow> True | Some b \<Rightarrow> b)"

section \<open>The filters of a type\<close>

lemma find_choice_map_of: "find_choice d cs = map_of cs d"
  by (induction d cs rule: find_choice.induct) auto

lemma u_longlong: "xdr_u_longlong_t = xdr_longlong_t"
  by (intro ext) (simp add: xdr_u_longlong_t_def xdr_longlong_t_def)

lemma map_of_map_prod: "map_of (map (map_prod id f) cs) d = map_option f (map_of cs d)"
  by (induction cs) auto

lemma pick_map: "pick (map (map_prod id f) cs) (map_option f df) d = map_option f (pick cs df d)"
  by (cases "map_of cs d") (simp_all add: pick_def map_of_map_prod)

lemma pick_in: "pick cs df d = Some t \<Longrightarrow> (\<exists>p \<in> set cs. snd p = t) \<or> df = Some t"
  by (cases "map_of cs d") (auto simp: pick_def dest!: map_of_SomeD intro!: bexI [of _ "(d, t)"])

lemma map_sum_twice: "map_sum id f (map_sum id g m) = map_sum id (\<lambda>a. f (g a)) m"
  by (cases m) auto

lemma union_eq:
  "xdr_union (map (map_prod id (\<lambda>t. arm (zero_val t) (xdr_ty junk t))) cs) (map_option (\<lambda>t. arm (zero_val t) (xdr_ty junk t)) df) x (d, u) =
     (case xdr_enum x d of
        Inl f \<Rightarrow> Inl f
      | Inr (False, d', x1) \<Rightarrow> Inr (False, (d', u), x1)
      | Inr (True, d', x1) \<Rightarrow>
          (case pick cs df d' of
             None \<Rightarrow> Inr (False, (d', u), x1)
           | Some t \<Rightarrow> map_sum id (\<lambda>(r, w, x2). (r, (d', Some w), x2)) (xdr_ty junk t x1 (case u of None \<Rightarrow> zero_val t | Some a \<Rightarrow> a))))"
proof -
  let ?f = "\<lambda>t. arm (zero_val t) (xdr_ty junk t)"
  have pk: "(case find_choice d' (map (map_prod id ?f) cs) of None \<Rightarrow> map_option ?f df | Some p \<Rightarrow> Some p) = map_option ?f (pick cs df d')" for d'
    by (simp add: find_choice_map_of map_of_map_prod pick_def split: option.split)
  show ?thesis
  proof (cases "xdr_enum x d")
    case (Inr r)
    then obtain t d' x1 where r: "xdr_enum x d = Inr (t, d', x1)" by (cases r) auto
    show ?thesis
      by (cases t; cases "pick cs df d'")
        (simp_all add: xdr_union_def pk r arm_def map_sum_twice split_def)
  qed (simp add: xdr_union_def)
qed

context xdr_stream
begin

lemma encodes_via: "encodes sv p a bs \<Longrightarrow> is (con a) \<Longrightarrow> sel (con a) = a \<Longrightarrow> encodes sv (via is sel con p) (con a) bs"
  unfolding encodes_def via_def by fastforce

lemma decodes_via: "decodes sv p z bs a \<Longrightarrow> is (con z) \<Longrightarrow> sel (con z) = z \<Longrightarrow> decodes sv (via is sel con p) (con z) bs (con a)"
  unfolding decodes_def via_def by fastforce

lemma safe_via:
  assumes "decodes_safe sv p z P" "is (con z)" "sel (con z) = z" "\<And>a. P a \<Longrightarrow> R (con a)"
  shows "decodes_safe sv (via is sel con p) (con z) R"
  unfolding decodes_safe_def via_def using assms unfolding decodes_safe_def by fastforce

lemma encodes_fields2: "encodes sv p a bs \<Longrightarrow> encodes sv q b cs \<Longrightarrow> encodes sv (fields2 p q) (a, b) (bs @ cs)"
  by (erule (1) encodes_then) (auto simp: fields2_def)

lemma decodes_fields2: "decodes sv p y bs a \<Longrightarrow> decodes sv q z cs b \<Longrightarrow> decodes sv (fields2 p q) (y, z) (bs @ cs) (a, b)"
  by (erule (1) decodes_then [where h = x_mem]) (auto simp: fields2_def)

lemma safe_fields2:
  assumes "decodes_safe sv p y P" "decodes_safe sv q z Q"
  shows "decodes_safe sv (fields2 p q) (y, z) (\<lambda>(a, b). P a \<and> Q b)"
proof (rule safe_then [OF assms(1)])
  fix x a x1 assume x: "p x y = Inr (True, a, x1)" "P a" "rready sv x1"
  show "outcome_safe (\<lambda>(a, b). P a \<and> Q b) (fields2 p q x (y, z))"
    by (rule safe_outcome [OF assms(2) x(3)]) (use x(1,2) in \<open>auto simp: fields2_def\<close>)
qed (auto simp: fields2_def)

lemma encodes_union:
  assumes "pick cs df d = Some t" "encodes sv (xdr_ty junk t) w bs"
  shows "encodes sv (xdr_union (map (map_prod id (\<lambda>t. arm (zero_val t) (xdr_ty junk t))) cs) (map_option (\<lambda>t. arm (zero_val t) (xdr_ty junk t)) df))
    (d, Some w) (put4 d @ bs)"
  by (rule encodes_then [OF encodes_longs(5) assms(2)]) (auto simp: union_eq assms(1))

lemma decodes_union:
  assumes "pick cs df d = Some t" "decodes sv (xdr_ty junk t) (zero_val t) bs w"
  shows "decodes sv (xdr_union (map (map_prod id (\<lambda>t. arm (zero_val t) (xdr_ty junk t))) cs) (map_option (\<lambda>t. arm (zero_val t) (xdr_ty junk t)) df))
    (0, None) (put4 d @ bs) (d, Some w)"
  by (rule decodes_then [where h = x_mem, OF decodes_longs(5) [of 0] assms(2)]) (auto simp: union_eq assms(1))

lemma safe_enum: "decodes_safe sv xdr_enum z (\<lambda>_. True)"
  using safe_longs(1) by (simp add: decodes_safe_def xdr_enum_def)

lemma safe_union:
  assumes "\<And>d t. pick cs df d = Some t \<Longrightarrow> decodes_safe sv (xdr_ty junk t) (zero_val t) (P t)"
  shows "decodes_safe sv (xdr_union (map (map_prod id (\<lambda>t. arm (zero_val t) (xdr_ty junk t))) cs) (map_option (\<lambda>t. arm (zero_val t) (xdr_ty junk t)) df))
    (0, None) (\<lambda>(d, u). \<exists>t w. pick cs df d = Some t \<and> u = Some w \<and> P t w)" (is "decodes_safe sv ?p _ ?R")
proof (rule safe_then [OF safe_enum [of 0]])
  fix x x1 :: "'s XDR" and d
  assume x: "xdr_enum x 0 = Inr (True, d, x1)" "rready sv x1"
  show "outcome_safe ?R (?p x (0, None))"
  proof (cases "pick cs df d")
    case (Some t)
    show ?thesis by (rule safe_outcome [OF assms [OF Some] x(2)]) (use x(1) Some in \<open>auto simp: union_eq\<close>)
  qed (use x in \<open>auto simp: union_eq\<close>)
qed (auto simp: union_eq)

lemma wt_string:
  "wt (TString m) v \<longleftrightarrow> (\<exists>bs. v = VString (Some (bs @ [0])) \<and> 0 \<notin> set bs \<and> length bs \<le> unat m)"
proof
  assume w: "wt (TString m) v"
  then obtain s where s: "v = VString (Some s)" "s \<noteq> []" "last s = 0" "0 \<notin> set (butlast s)" "length s \<le> Suc (unat m)"
    by (cases v) (auto split: option.splits)
  then have "s = butlast s @ [0]" using append_butlast_last_id [of s] by simp
  moreover have "length (butlast s) \<le> unat m" using s(5) by simp
  ultimately show "\<exists>bs. v = VString (Some (bs @ [0])) \<and> 0 \<notin> set bs \<and> length bs \<le> unat m" using s(1,4) by blast
qed auto

lemma wt_union:
  "wt (TUnion cs df) v \<longleftrightarrow> (\<exists>d w t. v = VUnion (d, Some w) \<and> pick cs df d = Some t \<and> wt t w)"
  unfolding wt.simps pick_map by (cases v) (auto split: option.splits)

lemma of_nat_le: "n \<le> unat m \<Longrightarrow> of_nat n \<le> (m :: 32 word)"
  using mod_less_eq_dividend [of n "2 ^ 32"] by (simp add: word_le_nat_alt unat_of_nat)

lemma scalar_encodes:
  "encodes sv (xdr_ty junk TLong) (VLong w) (put4 w)" "encodes sv (xdr_ty junk TULong) (VLong w) (put4 w)" "encodes sv (xdr_ty junk TInt) (VLong w) (put4 w)"
  "encodes sv (xdr_ty junk TUInt) (VLong w) (put4 w)" "encodes sv (xdr_ty junk TEnum) (VLong w) (put4 w)"
  "encodes sv (xdr_ty junk TShort) (VShort h) (put4 (scast h))" "encodes sv (xdr_ty junk TUShort) (VShort h) (put4 (ucast h))"
  "encodes sv (xdr_ty junk TChar) (VChar c) (put4 (scast c))"
  "encodes sv (xdr_ty junk THyper) (VHyper l) (put4 (hi_long l) @ put4 (ucast l))" "encodes sv (xdr_ty junk TUHyper) (VHyper l) (put4 (hi_long l) @ put4 (ucast l))"
  unfolding xdr_ty.simps u_longlong by (rule encodes_via [OF encodes_longs(1)] encodes_via [OF encodes_longs(2)] encodes_via [OF encodes_longs(3)]
    encodes_via [OF encodes_longs(4)] encodes_via [OF encodes_longs(5)] encodes_via [OF encodes_longs(6)] encodes_via [OF encodes_longs(7)]
    encodes_via [OF char_filter(1)] encodes_via [OF hyper_filter(1)], simp, simp)+

lemma bool_encodes: "w = 0 \<or> w = 1 \<Longrightarrow> encodes sv (xdr_ty junk TBool) (VLong w) (put4 w)"
  using encodes_via [OF encodes_longs(8) [of w], of is_long VLong v_long] by auto

lemma ty_encodes: "sane t \<Longrightarrow> wt t v \<Longrightarrow> encodes sv (xdr_ty junk t) v (enc t v)"
proof (induction t arbitrary: v)
  case TVoid
  then show ?case using encodes_void by simp
next
  case TBool
  then show ?case using bool_encodes by auto
next
  case (TOpaque n)
  then show ?case
    using encodes_via [OF encodes_opaque [of n "v_opaque v"], of is_opaque VOpaque v_opaque] by (cases v) auto
next
  case (TBytes m)
  then obtain cp n where v: "v = VBytes (cp, n)" "n \<le> m" "length (deref cp) = unat n" by (cases v) (auto split: option.splits)
  have "unat n < 2 ^ 31" using TBytes.prems(1) v(2) by (simp add: word_le_nat_alt)
  then have "encodes sv (xdr_bytes junk m) (cp, n) (put4 n @ deref cp @ replicate (pad (unat n)) 0)"
    using encodes_bytes [of n m cp junk] v by simp
  from encodes_via [OF this, of is_bytes VBytes v_bytes] show ?case using v(1) by simp
next
  case (TString m)
  then obtain bs where v: "v = VString (Some (bs @ [0]))" "0 \<notin> set bs" "length bs \<le> unat m" unfolding wt_string by blast
  have "encodes sv (xdr_string junk m) (Some (bs @ [0])) (put4 (of_nat (length bs)) @ bs @ replicate (pad (length bs)) 0)"
    by (rule encodes_string) (use TString.prems(1) v(2,3) in \<open>simp_all add: of_nat_le\<close>)
  from encodes_via [OF this, of is_string VString v_string] show ?case using v(1) by (simp add: Let_def)
next
  case (TArray t es m)
  then obtain cp n where v: "v = VArray (cp, n)" "n \<le> m" "length (deref cp) = unat n" "\<forall>u \<in> set (deref cp). wt t u" "cp = Some (deref cp) \<or> cp = None \<and> deref cp = []"
    by (cases v) (auto split: option.splits)
  have "encodes sv (xdr_array es (zero_val t) (xdr_ty junk t) m) (cp, n) (put4 n @ concat (map (enc t) (deref cp)))"
    by (rule encodes_array) (use v TArray in auto)
  from encodes_via [OF this, of is_array VArray v_array] show ?case using v(1) by simp
next
  case (TPtr t sz)
  then obtain p where v: "v = VPtr p" "p \<noteq> None \<longrightarrow> wt t (the p)" by (cases v) (auto split: option.splits)
  show ?case
    using v encodes_via [OF encodes_pointer(1), of is_ptr VPtr v_ptr sz "zero_val t" "xdr_ty junk t"]
      encodes_via [OF encodes_pointer(2) [OF TPtr.IH [of "the p"]], of is_ptr VPtr v_ptr sz "zero_val t"] TPtr.prems(1)
    by (cases p) auto
next
  case (TPair t u)
  then obtain a b where v: "v = VPair (a, b)" "wt t a" "wt u b" by (cases v) auto
  show ?case using v encodes_via [OF encodes_fields2 [OF TPair.IH(1) [of a] TPair.IH(2) [of b]], of is_pair VPair v_pair] TPair.prems(1) by simp
next
  case (TUnion cs df)
  then obtain d w t where v: "v = VUnion (d, Some w)" "pick cs df d = Some t" "wt t w"
    unfolding wt_union by blast
  have "sane t" using pick_in [OF v(2)] TUnion.prems(1) by auto
  then have "encodes sv (xdr_ty junk t) w (enc t w)" using pick_in [OF v(2)] v(3) TUnion.IH by (auto simp: snds.simps)
  from encodes_via [OF encodes_union [OF v(2) this], of is_union VUnion v_union] show ?case using v(1,2) by (simp add: pick_map)
qed (auto simp: is_long_def is_short_def is_char_def is_hyper_def scalar_encodes simp del: xdr_ty.simps)

lemma scalar_decodes:
  "decodes sv (xdr_ty junk TLong) (VLong 0) (put4 w) (VLong w)" "decodes sv (xdr_ty junk TULong) (VLong 0) (put4 w) (VLong w)"
  "decodes sv (xdr_ty junk TInt) (VLong 0) (put4 w) (VLong w)" "decodes sv (xdr_ty junk TUInt) (VLong 0) (put4 w) (VLong w)"
  "decodes sv (xdr_ty junk TEnum) (VLong 0) (put4 w) (VLong w)" "decodes sv (xdr_ty junk TBool) (VLong 0) (put4 w) (VLong (if w = 0 then 0 else 1))"
  "decodes sv (xdr_ty junk TShort) (VShort 0) (put4 (scast h)) (VShort h)" "decodes sv (xdr_ty junk TUShort) (VShort 0) (put4 (ucast h)) (VShort h)"
  "decodes sv (xdr_ty junk TChar) (VChar 0) (put4 (scast c)) (VChar c)"
  "decodes sv (xdr_ty junk THyper) (VHyper 0) (put4 (hi_long l) @ put4 (ucast l)) (VHyper l)"
  "decodes sv (xdr_ty junk TUHyper) (VHyper 0) (put4 (hi_long l) @ put4 (ucast l)) (VHyper l)"
  unfolding xdr_ty.simps u_longlong by (rule decodes_via [OF decodes_longs(1)] decodes_via [OF decodes_longs(2)] decodes_via [OF decodes_longs(3)]
    decodes_via [OF decodes_longs(4)] decodes_via [OF decodes_longs(5)] decodes_via [OF decodes_longs(8)] decodes_via [OF decodes_longs(6)]
    decodes_via [OF decodes_longs(7)] decodes_via [OF char_filter(2)] decodes_via [OF hyper_filter(2)], simp, simp)+

lemma bool_decodes: "w = 0 \<or> w = 1 \<Longrightarrow> decodes sv (xdr_ty junk TBool) (VLong 0) (put4 w) (VLong w)"
  using scalar_decodes(6) [of junk w] by auto

lemma ty_decodes: "sane t \<Longrightarrow> wt t v \<Longrightarrow> decodes sv (xdr_ty junk t) (zero_val t) (enc t v) v"
proof (induction t arbitrary: v)
  case TVoid
  then show ?case using decodes_void by simp
next
  case TBool
  then show ?case using bool_decodes by auto
next
  case (TOpaque n)
  then obtain bs where v: "v = VOpaque bs" "length bs = n" by (cases v) auto
  have "decodes sv (\<lambda>x cp. xdr_opaque x cp (of_nat n)) (replicate n 0) (bs @ replicate (pad n) 0) bs"
    using decodes_opaque [of n "replicate n 0" bs "replicate (pad n) 0"] v(2) TOpaque.prems(1) by simp
  from decodes_via [OF this, of is_opaque VOpaque v_opaque] show ?case using v(1) by simp
next
  case (TBytes m)
  then obtain cp n where v: "v = VBytes (cp, n)" "n \<le> m" "length (deref cp) = unat n" "cp = (if n = 0 then None else Some (deref cp))"
    by (cases v) (auto split: option.splits)
  have "unat n < 2 ^ 31" using TBytes.prems(1) v(2) by (simp add: word_le_nat_alt)
  from decodes_bytes [OF this v(2,3), of junk]
  have "decodes sv (xdr_bytes junk m) (None, 0) (put4 n @ deref cp @ replicate (pad (unat n)) 0) (cp, n)" using v(4) by simp
  from decodes_via [OF this, of is_bytes VBytes v_bytes] show ?case using v(1) by simp
next
  case (TString m)
  then obtain bs where v: "v = VString (Some (bs @ [0]))" "0 \<notin> set bs" "length bs \<le> unat m" unfolding wt_string by blast
  have "decodes sv (xdr_string junk m) None (put4 (of_nat (length bs)) @ bs @ replicate (pad (length bs)) 0) (Some (bs @ [0]))"
    by (rule decodes_string) (use TString.prems(1) v(2,3) in \<open>simp_all add: of_nat_le\<close>)
  from decodes_via [OF this, of is_string VString v_string] show ?case using v(1) by (simp add: Let_def)
next
  case (TArray t es m)
  then obtain cp n where v: "v = VArray (cp, n)" "n \<le> m" "unat n = length (deref cp)" "\<forall>u \<in> set (deref cp). wt t u" "cp = (if n = 0 then None else Some (deref cp))"
    by (cases v) (auto split: option.splits)
  have "\<forall>u \<in> set (deref cp). decodes sv (xdr_ty junk t) (zero_val t) (enc t u) u" "es > 0" "unat m * unat es < 2 ^ 32" using v(4) TArray by simp_all
  from decodes_array [OF v(3,2) this(2,3,1)]
  have "decodes sv (xdr_array es (zero_val t) (xdr_ty junk t) m) (None, 0) (put4 n @ concat (map (enc t) (deref cp))) (cp, n)" using v(5) by simp
  from decodes_via [OF this, of is_array VArray v_array] show ?case using v(1) by simp
next
  case (TPtr t sz)
  then obtain p where v: "v = VPtr p" "p \<noteq> None \<longrightarrow> wt t (the p)" by (cases v) (auto split: option.splits)
  show ?case
    using v decodes_via [OF decodes_pointer(1), of is_ptr VPtr v_ptr sz "zero_val t" "xdr_ty junk t"]
      decodes_via [OF decodes_pointer(2) [OF TPtr.IH [of "the p"]], of is_ptr VPtr v_ptr sz] TPtr.prems(1)
    by (cases p) auto
next
  case (TPair t u)
  then obtain a b where v: "v = VPair (a, b)" "wt t a" "wt u b" by (cases v) auto
  show ?case using v decodes_via [OF decodes_fields2 [OF TPair.IH(1) [of a] TPair.IH(2) [of b]], of is_pair VPair v_pair] TPair.prems(1) by simp
next
  case (TUnion cs df)
  then obtain d w t where v: "v = VUnion (d, Some w)" "pick cs df d = Some t" "wt t w"
    unfolding wt_union by blast
  have "sane t" using pick_in [OF v(2)] TUnion.prems(1) by auto
  then have "decodes sv (xdr_ty junk t) (zero_val t) (enc t w) w" using pick_in [OF v(2)] v(3) TUnion.IH by (auto simp: snds.simps)
  from decodes_via [OF decodes_union [OF v(2) this], of is_union VUnion v_union] show ?case using v(1,2) by (simp add: pick_map)
qed (auto simp: is_long_def is_short_def is_char_def is_hyper_def scalar_decodes simp del: xdr_ty.simps)

lemma safe_hyper: "decodes_safe sv xdr_u_longlong_t z (\<lambda>_. True)" "decodes_safe sv xdr_enum y (\<lambda>_. True)" "decodes_safe sv xdr_u_long y (\<lambda>_. True)"
  using hyper_filter(3) [of z] safe_enum [of y] safe_longs(2) [of y] by (simp_all add: u_longlong xdr_u_int_def [abs_def])

lemma ty_safe: "sane t \<Longrightarrow> decodes_safe sv (xdr_ty junk t) (zero_val t) (wt t)"
proof (induction t)
  case TVoid
  show ?case by (auto simp: decodes_safe_def xdr_void_def)
next
  case (TOpaque n)
  have "decodes_safe sv (\<lambda>x cp. xdr_opaque x cp (of_nat n)) (replicate n 0) (\<lambda>v. length v = n \<and> drop n v = [])"
    using safe_opaque [of n "replicate n 0"] TOpaque by simp
  from safe_via [OF this, of is_opaque VOpaque v_opaque] show ?case by simp
next
  case (TBytes m)
  show ?case unfolding zero_val.simps xdr_ty.simps by (rule safe_via [OF safe_bytes]) (use TBytes in auto)
next
  case (TString m)
  show ?case unfolding zero_val.simps xdr_ty.simps by (rule safe_via [OF safe_string]) (use TString in \<open>auto simp: wt_string\<close>)
next
  case (TArray t es m)
  then have t: "es > 0" "unat m * unat es < 2 ^ 32" "decodes_safe sv (xdr_ty junk t) (zero_val t) (wt t)" by simp_all
  show ?case unfolding zero_val.simps xdr_ty.simps by (rule safe_via [OF safe_array [OF t]]) auto
next
  case (TPtr t sz)
  then have t: "decodes_safe sv (xdr_ty junk t) (zero_val t) (wt t)" by simp
  show ?case unfolding zero_val.simps xdr_ty.simps by (rule safe_via [OF safe_pointer [OF t]]) auto
next
  case (TPair t u)
  then have t: "decodes_safe sv (xdr_ty junk t) (zero_val t) (wt t)" "decodes_safe sv (xdr_ty junk u) (zero_val u) (wt u)" by simp_all
  show ?case unfolding zero_val.simps xdr_ty.simps by (rule safe_via [OF safe_fields2 [OF t]]) auto
next
  case (TUnion cs df)
  have "decodes_safe sv (xdr_ty junk t) (zero_val t) (wt t)" if "pick cs df d = Some t" for d t
  proof -
    have "sane t" using pick_in [OF that] TUnion.prems(1) by auto
    then show ?thesis using pick_in [OF that] TUnion.IH by (auto simp: snds.simps)
  qed
  then show ?case unfolding zero_val.simps xdr_ty.simps by (intro safe_via [OF safe_union]) (auto simp: wt_union simp del: wt.simps)
qed (unfold zero_val.simps xdr_ty.simps, (rule safe_via [OF safe_longs(1)] safe_via [OF safe_longs(2)] safe_via [OF safe_longs(3)] safe_via [OF safe_longs(4)]
    safe_via [OF safe_longs(5)] safe_via [OF safe_longs(6)] safe_via [OF char_filter(3)] safe_via [OF hyper_filter(3)]
    safe_via [OF safe_hyper(1)] safe_via [OF safe_hyper(2)] safe_via [OF safe_hyper(3)], auto)+)

end

end
