(* ===== verification/Xdr_Mem.thy ===== *)
theory Xdr_Mem
  imports Xdr_Univ "HOL-Library.Signed_Division"
begin

text \<open>
  The XDR stream on a memory buffer, \<^verbatim>\<open>rpc/xdr_mem.c\<close>. The state has the fields of the handle that the
  stream uses: \<^verbatim>\<open>x_base\<close> and \<^verbatim>\<open>x_private\<close> are addresses, \<^verbatim>\<open>x_handy\<close> is a signed count, and all
  are computed with as the machine does. \<open>mm_buf\<close> is the memory from \<^verbatim>\<open>x_base\<close> on that belongs to the
  buffer; an access outside it is a fault. Longs may be at any address.
\<close>

section \<open>Operations\<close>

record mem_st =
  x_base :: "32 word"
  x_private :: "32 word"
  x_handy :: "32 word"
  mm_buf :: "byte list"

abbreviation mm_off :: "mem_st \<Rightarrow> nat" where
  "mm_off s \<equiv> unat (x_private s - x_base s)"

definition mm_read :: "mem_st \<Rightarrow> nat \<Rightarrow> byte list kres" where
  "mm_read s n = (if mm_off s + n \<le> length (mm_buf s) then Inr (take n (drop (mm_off s) (mm_buf s))) else Inl (Wild ''x_private''))"

definition mm_write :: "mem_st \<Rightarrow> byte list \<Rightarrow> mem_st kres" where
  "mm_write s bs =
     (if mm_off s + length bs \<le> length (mm_buf s)
      then Inr (s\<lparr>mm_buf := take (mm_off s) (mm_buf s) @ bs @ drop (mm_off s + length bs) (mm_buf s)\<rparr>)
      else Inl (Wild ''x_private''))"

definition xdrmem_getlong :: "mem_st \<Rightarrow> (32 word option \<times> mem_st) kres" where
  "xdrmem_getlong s =
     (let s1 = s\<lparr>x_handy := x_handy s - 4\<rparr> in
      if sint (x_handy s1) < 0 then Inr (None, s1)
      else map_sum id (\<lambda>bs. (Some (get4 bs), s1\<lparr>x_private := x_private s1 + 4\<rparr>)) (mm_read s1 4))"

definition xdrmem_putlong :: "mem_st \<Rightarrow> 32 word \<Rightarrow> (bool \<times> mem_st) kres" where
  "xdrmem_putlong s l =
     (let s1 = s\<lparr>x_handy := x_handy s - 4\<rparr> in
      if sint (x_handy s1) < 0 then Inr (False, s1)
      else map_sum id (\<lambda>s2. (True, s2\<lparr>x_private := x_private s2 + 4\<rparr>)) (mm_write s1 (put4 l)))"

definition xdrmem_getbytes :: "mem_st \<Rightarrow> byte list \<Rightarrow> 32 word \<Rightarrow> (bool \<times> byte list \<times> mem_st) kres" where
  "xdrmem_getbytes s addr len =
     (let s1 = s\<lparr>x_handy := x_handy s - len\<rparr> in
      if sint (x_handy s1) < 0 then Inr (False, addr, s1)
      else if length addr < unat len then Inl (Wild ''addr'')
      else map_sum id (\<lambda>bs. (True, bs @ drop (unat len) addr, s1\<lparr>x_private := x_private s1 + len\<rparr>)) (mm_read s1 (unat len)))"

definition xdrmem_putbytes :: "mem_st \<Rightarrow> byte list \<Rightarrow> 32 word \<Rightarrow> (bool \<times> mem_st) kres" where
  "xdrmem_putbytes s addr len =
     (let s1 = s\<lparr>x_handy := x_handy s - len\<rparr> in
      if sint (x_handy s1) < 0 then Inr (False, s1)
      else if length addr < unat len then Inl (Wild ''addr'')
      else map_sum id (\<lambda>s2. (True, s2\<lparr>x_private := x_private s2 + len\<rparr>)) (mm_write s1 (take (unat len) addr)))"

definition xdrmem_getpos :: "xdr_op \<Rightarrow> mem_st \<Rightarrow> 32 word kres" where
  "xdrmem_getpos opr s = Inr (x_private s - x_base s)"

definition xdrmem_setpos :: "xdr_op \<Rightarrow> mem_st \<Rightarrow> 32 word \<Rightarrow> (bool \<times> mem_st) kres" where
  "xdrmem_setpos opr s pos =
     (let newaddr = x_base s + pos; lastaddr = x_private s + x_handy s in
      Inr (if sint newaddr > sint lastaddr then (False, s) else (True, s\<lparr>x_private := newaddr, x_handy := lastaddr - newaddr\<rparr>)))"

text \<open>The result of \<^verbatim>\<open>XDR_INLINE\<close> is the address of the bytes.\<close>

definition xdrmem_inline :: "xdr_op \<Rightarrow> mem_st \<Rightarrow> 32 word \<Rightarrow> 32 word option \<times> mem_st" where
  "xdrmem_inline opr s len =
     (if sint (x_handy s) \<ge> sint len
      then (Some (x_private s), s\<lparr>x_handy := x_handy s - len, x_private := x_private s + len\<rparr>)
      else (None, s))"

definition RNDUP :: "32 word \<Rightarrow> 32 word" where
  "RNDUP n = word_of_int (sint (n + 4 - 1) sdiv 4 * 4)"

definition xdrmem_control :: "mem_st \<Rightarrow> xdr_request \<Rightarrow> 32 word \<Rightarrow> (bool \<times> 32 word \<times> mem_st) kres" where
  "xdrmem_control s request info =
     (case request of
        XDR_PEEK \<Rightarrow>
          if x_handy s < 4 then Inr (False, info, s)
          else map_sum id (\<lambda>bs. (True, get4 bs, s)) (mm_read s 4)
      | XDR_SKIPBYTES \<Rightarrow>
          let len = RNDUP info; s1 = s\<lparr>x_handy := x_handy s - len\<rparr> in
          if sint (x_handy s1) < 0 then Inr (False, info, s1)
          else Inr (True, info, s1\<lparr>x_private := x_private s1 + len\<rparr>)
      | XDR_OTHER _ \<Rightarrow> Inr (False, info, s))"

definition xdrmem_ops :: "mem_st xdr_ops" where
  "xdrmem_ops = \<lparr>x_getlong = xdrmem_getlong, x_putlong = xdrmem_putlong, x_getbytes = xdrmem_getbytes, x_putbytes = xdrmem_putbytes,
     x_getpostn = xdrmem_getpos, x_setpostn = xdrmem_setpos, x_inline = xdrmem_inline, x_control = xdrmem_control\<rparr>"

text \<open>\<open>mem\<close> is the memory at \<open>addr\<close>.\<close>

definition xdrmem_create :: "byte list \<Rightarrow> 32 word \<Rightarrow> 32 word \<Rightarrow> xdr_op \<Rightarrow> mem_st XDR" where
  "xdrmem_create mem addr sz opr =
     \<lparr>x_op = opr, x_ops = xdrmem_ops, x_st = \<lparr>x_base = addr, x_private = addr, x_handy = sz, mm_buf = mem\<rparr>, x_mem = []\<rparr>"

section \<open>A stream\<close>

text \<open>The bytes that are left fit in the buffer, whose size is positive as a signed number.\<close>

definition mm_inv :: "mem_st \<Rightarrow> bool" where
  "mm_inv s \<longleftrightarrow> unat (x_handy s) < 2 ^ 31 \<and> mm_off s + unat (x_handy s) \<le> length (mm_buf s) \<and> length (mm_buf s) < 2 ^ 32"

definition xdrmem_view :: "mem_st xview" where
  "xdrmem_view = \<lparr>sv_ops = xdrmem_ops, sv_winv = mm_inv, sv_wr = (\<lambda>s. take (mm_off s) (mm_buf s)), sv_room = (\<lambda>s. unat (x_handy s)),
     sv_rinv = mm_inv, sv_rd = (\<lambda>s. take (unat (x_handy s)) (drop (mm_off s) (mm_buf s))), sv_rp = mm_off\<rparr>"

lemma sint_int32: "sint (word_of_int i :: 32 word) = signed_take_bit 31 i"
  by transfer simp

lemma signed_sub:
  assumes "unat h < 2 ^ 31" "n < 2 ^ 31"
  shows "sint (h - of_nat n :: 32 word) < 0 \<longleftrightarrow> unat h < n" "n \<le> unat h \<Longrightarrow> unat (h - of_nat n :: 32 word) = unat h - n"
proof -
  define k where "k = unat h"
  then have h: "h = of_nat k" "k < 2 ^ 31" using assms(1) by simp_all
  have "sint (h - of_nat n) = sint (word_of_int (int k - int n) :: 32 word)" unfolding h by simp
  also have "\<dots> = signed_take_bit 31 (int k - int n)" by (simp only: sint_int32)
  also have "\<dots> = int k - int n" by (rule signed_take_bit_int_eq_self) (use h(2) assms(2) in auto)
  finally show "sint (h - of_nat n) < 0 \<longleftrightarrow> unat h < n" unfolding k_def [symmetric] by auto
  assume "n \<le> unat h"
  then show "unat (h - of_nat n) = unat h - n" using assms(2) by (simp add: unat_sub word_le_nat_alt unat_of_nat)
qed

lemma unat_move:
  assumes "unat (p - b :: 32 word) + n < 2 ^ 32"
  shows "unat (p + of_nat n - b :: 32 word) = unat (p - b) + n"
proof -
  have "p + of_nat n - b = (p - b) + of_nat n" by simp
  also have "unat \<dots> = unat (p - b) + n" using assms by (simp add: unat_word_ariths unat_of_nat mod_add_right_eq)
  finally show ?thesis .
qed

lemma mm_move:
  assumes s: "mm_inv s" and n: "n \<le> unat (x_handy s)" "length b = length (mm_buf s)"
  shows "unat (x_private s + of_nat n - x_base s) = mm_off s + n" "unat (x_handy s - of_nat n) = unat (x_handy s) - n"
    "mm_inv (s\<lparr>x_handy := x_handy s - of_nat n, mm_buf := b, x_private := x_private s + of_nat n\<rparr>)"
proof -
  show off: "unat (x_private s + of_nat n - x_base s) = mm_off s + n" by (rule unat_move) (use assms in \<open>auto simp: mm_inv_def\<close>)
  show h: "unat (x_handy s - of_nat n) = unat (x_handy s) - n" by (rule signed_sub) (use assms in \<open>auto simp: mm_inv_def\<close>)
  show "mm_inv (s\<lparr>x_handy := x_handy s - of_nat n, mm_buf := b, x_private := x_private s + of_nat n\<rparr>)"
    using assms off h by (auto simp: mm_inv_def)
qed

text \<open>Reading \<open>n\<close> bytes.\<close>

lemma mm_get:
  assumes s: "mm_inv s" and n: "n < 2 ^ 31" and s': "s' = s\<lparr>x_handy := x_handy s - of_nat n\<rparr>"
  shows "sint (x_handy s') < 0 \<longleftrightarrow> unat (x_handy s) < n"
    "n \<le> unat (x_handy s) \<Longrightarrow> mm_read s' n = Inr (take n (sv_rd xdrmem_view s))"
    "n \<le> unat (x_handy s) \<Longrightarrow> mm_inv (s'\<lparr>x_private := x_private s' + of_nat n\<rparr>)"
    "n \<le> unat (x_handy s) \<Longrightarrow> sv_rd xdrmem_view (s'\<lparr>x_private := x_private s' + of_nat n\<rparr>) = drop n (sv_rd xdrmem_view s)"
    "n \<le> unat (x_handy s) \<Longrightarrow> mm_off (s'\<lparr>x_private := x_private s' + of_nat n\<rparr>) = mm_off s + n"
    "length (sv_rd xdrmem_view s) = unat (x_handy s)"
proof -
  show "sint (x_handy s') < 0 \<longleftrightarrow> unat (x_handy s) < n" using s n signed_sub(1) by (simp add: s' mm_inv_def)
  show "length (sv_rd xdrmem_view s) = unat (x_handy s)" using s by (auto simp: xdrmem_view_def mm_inv_def)
  assume le: "n \<le> unat (x_handy s)"
  note m = mm_move [OF s le refl]
  show "mm_inv (s'\<lparr>x_private := x_private s' + of_nat n\<rparr>)" "mm_off (s'\<lparr>x_private := x_private s' + of_nat n\<rparr>) = mm_off s + n"
    using m by (simp_all add: s')
  show "mm_read s' n = Inr (take n (sv_rd xdrmem_view s))" using s le by (simp add: s' mm_read_def mm_inv_def xdrmem_view_def min_absorb1)
  show "sv_rd xdrmem_view (s'\<lparr>x_private := x_private s' + of_nat n\<rparr>) = drop n (sv_rd xdrmem_view s)"
    using m(1,2) by (simp add: s' xdrmem_view_def drop_take add.commute)
qed

text \<open>Writing bytes.\<close>

lemma mm_put:
  assumes s: "mm_inv s" and n: "length bs < 2 ^ 31" and s': "s' = s\<lparr>x_handy := x_handy s - of_nat (length bs)\<rparr>"
  shows "sint (x_handy s') < 0 \<longleftrightarrow> unat (x_handy s) < length bs"
    "length bs \<le> unat (x_handy s) \<Longrightarrow> \<exists>s2. mm_write s' bs = Inr s2 \<and> mm_inv (s2\<lparr>x_private := x_private s2 + of_nat (length bs)\<rparr>)
       \<and> sv_wr xdrmem_view (s2\<lparr>x_private := x_private s2 + of_nat (length bs)\<rparr>) = sv_wr xdrmem_view s @ bs
       \<and> unat (x_handy s2) = unat (x_handy s) - length bs"
proof -
  show "sint (x_handy s') < 0 \<longleftrightarrow> unat (x_handy s) < length bs" using s n signed_sub(1) by (simp add: s' mm_inv_def)
  assume le: "length bs \<le> unat (x_handy s)"
  define b where "b = take (mm_off s) (mm_buf s) @ bs @ drop (mm_off s + length bs) (mm_buf s)"
  have b: "length b = length (mm_buf s)" "take (mm_off s + length bs) b = take (mm_off s) (mm_buf s) @ bs"
    using s le by (auto simp: b_def mm_inv_def)
  have "mm_write s' bs = Inr (s'\<lparr>mm_buf := b\<rparr>)" using s le by (auto simp: mm_write_def s' mm_inv_def b_def)
  then show "\<exists>s2. mm_write s' bs = Inr s2 \<and> mm_inv (s2\<lparr>x_private := x_private s2 + of_nat (length bs)\<rparr>)
       \<and> sv_wr xdrmem_view (s2\<lparr>x_private := x_private s2 + of_nat (length bs)\<rparr>) = sv_wr xdrmem_view s @ bs
       \<and> unat (x_handy s2) = unat (x_handy s) - length bs"
    using mm_move [OF s le b(1)] b(2) by (simp add: s' xdrmem_view_def)
qed

lemma get4_take: "4 \<le> m \<Longrightarrow> get4 (take m bs) = get4 bs"
proof -
  assume "4 \<le> m"
  then have "m = Suc (Suc (Suc (Suc (m - 4))))" by simp
  then obtain k where "m = Suc (Suc (Suc (Suc k)))" ..
  then show ?thesis by (cases bs rule: get4.cases) auto
qed

interpretation xmem: xdr_stream xdrmem_view
proof
  fix s :: mem_st and w :: "32 word"
  assume s: "sv_winv xdrmem_view s"
  show "\<exists>s'. x_putlong (sv_ops xdrmem_view) s w = Inr (4 \<le> sv_room xdrmem_view s, s') \<and> (4 \<le> sv_room xdrmem_view s \<longrightarrow>
      sv_winv xdrmem_view s' \<and> sv_wr xdrmem_view s' = sv_wr xdrmem_view s @ put4 w \<and> sv_room xdrmem_view s' = sv_room xdrmem_view s - 4)"
    using mm_put [of s "put4 w", OF _ _ refl] s
    by (auto simp: xdrmem_ops_def xdrmem_putlong_def Let_def xdrmem_view_def not_less)
next
  fix s :: mem_st and n and bs :: "byte list"
  assume s: "sv_winv xdrmem_view s" and n: "n < 2 ^ 31" "n \<le> length bs"
  then have l: "length (take n bs) = n" "unat (of_nat n :: 32 word) = n" by simp_all
  show "\<exists>s'. x_putbytes (sv_ops xdrmem_view) s bs (of_nat n) = Inr (n \<le> sv_room xdrmem_view s, s') \<and> (n \<le> sv_room xdrmem_view s \<longrightarrow>
      sv_winv xdrmem_view s' \<and> sv_wr xdrmem_view s' = sv_wr xdrmem_view s @ take n bs \<and> sv_room xdrmem_view s' = sv_room xdrmem_view s - n)"
    using mm_put [of s "take n bs", OF _ _ refl] s n unfolding l(1)
    by (auto simp: xdrmem_ops_def xdrmem_putbytes_def Let_def xdrmem_view_def not_less l(2))
next
  fix s :: mem_st
  assume s: "sv_rinv xdrmem_view s"
  show "\<exists>r s'. x_getlong (sv_ops xdrmem_view) s = Inr (r, s') \<and> (r \<noteq> None \<longrightarrow> sv_rinv xdrmem_view s') \<and>
      (4 dvd sv_rp xdrmem_view s \<and> 4 \<le> length (sv_rd xdrmem_view s) \<longrightarrow>
        r = Some (get4 (sv_rd xdrmem_view s)) \<and> sv_rd xdrmem_view s' = drop 4 (sv_rd xdrmem_view s) \<and> sv_rp xdrmem_view s' = sv_rp xdrmem_view s + 4)"
    using mm_get [of s 4, OF _ _ refl] s
    by (cases "4 \<le> unat (x_handy s)") (auto simp: xdrmem_ops_def xdrmem_getlong_def Let_def xdrmem_view_def not_less get4_take)
next
  fix s :: mem_st and n and buf :: "byte list"
  assume s: "sv_rinv xdrmem_view s" and n: "n < 2 ^ 31" "n \<le> length buf"
  then have l: "unat (of_nat n :: 32 word) = n" by simp
  show "\<exists>r buf' s'. x_getbytes (sv_ops xdrmem_view) s buf (of_nat n) = Inr (r, buf', s') \<and> length buf' = length buf \<and> drop n buf' = drop n buf \<and>
      (r \<longrightarrow> sv_rinv xdrmem_view s') \<and> (n \<le> length (sv_rd xdrmem_view s) \<longrightarrow> r \<and> take n buf' = take n (sv_rd xdrmem_view s) \<and>
        sv_rd xdrmem_view s' = drop n (sv_rd xdrmem_view s) \<and> sv_rp xdrmem_view s' = sv_rp xdrmem_view s + n)"
    using mm_get [of s n, OF _ n(1) refl] s n
    by (cases "n \<le> unat (x_handy s)") (auto simp: xdrmem_ops_def xdrmem_getbytes_def Let_def xdrmem_view_def not_less l)
qed

end
