(* ===== verification/Xdr_Mblk.thy ===== *)
theory Xdr_Mblk
  imports Xdr_Mem
begin

text \<open>
  The XDR stream on a chain of message blocks, \<^verbatim>\<open>rpc/xdr_mblk.c\<close>.

  A block has the bytes of its data block from \<^verbatim>\<open>db_base\<close> to \<^verbatim>\<open>db_lim\<close>; \<^verbatim>\<open>b_rptr\<close> and \<^verbatim>\<open>b_wptr\<close> are offsets from
  \<^verbatim>\<open>db_base\<close>. The state of a stream has the blocks that it has passed, the block that \<^verbatim>\<open>x_base\<close> points to
  with those that follow it by \<^verbatim>\<open>b_cont\<close> (no block when \<^verbatim>\<open>x_base\<close> is null), the signed count \<^verbatim>\<open>x_handy\<close>, the size
  of new blocks, which is in \<^verbatim>\<open>x_private\<close>, and what \<^verbatim>\<open>allocb\<close> and \<^verbatim>\<open>strwaitbuf\<close> are to return. An
  access outside the bytes of a block, or through a null pointer, is a fault.
\<close>

section \<open>Blocks\<close>

record dblk =
  db_base :: "32 word"
  db_data :: "byte list"
  db_ref :: nat
  b_rptr :: nat
  b_wptr :: nat

text \<open>\<^verbatim>\<open>allocb\<close> gives a block of some size; or there is no memory and after a wait it is tried again; or a signal ends the wait.\<close>

datatype alloc_event = AllocBlock "32 word" nat | AllocRetry | AllocIntr

record mblk_st =
  mb_done :: "dblk list"
  mb_chain :: "dblk list"
  mb_handy :: "32 word"
  mb_size :: int
  mb_alloc :: "alloc_event list"

abbreviation db_lim :: "dblk \<Rightarrow> nat" where
  "db_lim m \<equiv> length (db_data m)"

text \<open>\<^verbatim>\<open>bcopy\<close> from \<^verbatim>\<open>b_rptr\<close>, which moves on, and to \<^verbatim>\<open>b_wptr\<close>, which moves on.\<close>

definition blk_get :: "dblk \<Rightarrow> nat \<Rightarrow> (byte list \<times> dblk) kres" where
  "blk_get m n =
     (if b_rptr m + n \<le> db_lim m then Inr (take n (drop (b_rptr m) (db_data m)), m\<lparr>b_rptr := b_rptr m + n\<rparr>)
      else Inl (Wild ''b_rptr''))"

definition blk_put :: "dblk \<Rightarrow> byte list \<Rightarrow> dblk kres" where
  "blk_put m bs =
     (if b_wptr m + length bs \<le> db_lim m
      then Inr (m\<lparr>db_data := take (b_wptr m) (db_data m) @ bs @ drop (b_wptr m + length bs) (db_data m), b_wptr := b_wptr m + length bs\<rparr>)
      else Inl (Wild ''b_wptr''))"

definition blk_left :: "dblk \<Rightarrow> 32 word" where
  "blk_left m = of_nat (b_wptr m) - of_nat (b_rptr m)"

text \<open>The outcomes are those until the wait ends; when there are none left, a signal comes.\<close>

fun alloc_wait :: "alloc_event list \<Rightarrow> dblk option \<times> alloc_event list" where
  "alloc_wait [] = (None, [])"
| "alloc_wait (AllocIntr # es) = (None, es)"
| "alloc_wait (AllocRetry # es) = alloc_wait es"
| "alloc_wait (AllocBlock base lim # es) =
     (Some \<lparr>db_base = base, db_data = replicate lim 0, db_ref = 1, b_rptr = 0, b_wptr = 0\<rparr>, es)"

definition xdrmblk_alloc :: "int \<Rightarrow> alloc_event list \<Rightarrow> dblk option \<times> alloc_event list" where
  "xdrmblk_alloc sz es = (if sz = 0 then (None, es) else alloc_wait es)"

text \<open>
  A block from \<^verbatim>\<open>allocb\<close> has at least the bytes asked for, as the code asserts; for a block that has
  fewer, \<^verbatim>\<open>b_rptr\<close> would come before \<^verbatim>\<open>db_base\<close>, where there is no offset.
\<close>

definition XDRMBLK_SETHANDY :: "dblk \<Rightarrow> int \<Rightarrow> 32 word \<Rightarrow> dblk \<times> 32 word" where
  "XDRMBLK_SETHANDY mp blen adjust =
     (let mpsize = int (db_lim mp);
          ptr = nat (int (b_rptr mp) + (mpsize - blen));
          mp1 = (if mpsize div 2 \<le> blen then mp\<lparr>b_rptr := ptr, b_wptr := ptr\<rparr> else mp)
      in (mp1, of_nat (db_lim mp1) - of_nat (b_rptr mp1) - adjust))"

section \<open>Operations\<close>

fun getlong_loop :: "mblk_st \<Rightarrow> dblk list \<Rightarrow> 32 word \<Rightarrow> dblk \<Rightarrow> dblk list \<Rightarrow> (32 word option \<times> mblk_st) kres" where
  "getlong_loop s done handy m rest =
     (let h = handy - 4 in
      if sint h < 0 then
        if h \<noteq> - 4 then Inr (None, s\<lparr>mb_done := done, mb_chain := m # rest, mb_handy := h\<rparr>)
        else
          case rest of
            [] \<Rightarrow> Inr (None, s\<lparr>mb_done := done @ [m], mb_chain := [], mb_handy := 0\<rparr>)
          | m' # rest' \<Rightarrow> getlong_loop s (done @ [m]) (blk_left m') m' rest'
      else map_sum id (\<lambda>(bs, m1). (Some (get4 bs), s\<lparr>mb_done := done, mb_chain := m1 # rest, mb_handy := h\<rparr>)) (blk_get m 4))"

definition xdrmblk_getlong :: "mblk_st \<Rightarrow> (32 word option \<times> mblk_st) kres" where
  "xdrmblk_getlong s = (case mb_chain s of [] \<Rightarrow> Inr (None, s) | m # rest \<Rightarrow> getlong_loop s (mb_done s) (mb_handy s) m rest)"

text \<open>The next block to write to, \<open>m->b_cont\<close> or a new one, and \<^verbatim>\<open>x_handy\<close> there.\<close>

definition next_block :: "mblk_st \<Rightarrow> 32 word \<Rightarrow> dblk list \<Rightarrow> (dblk \<times> dblk list \<times> 32 word) option \<times> alloc_event list" where
  "next_block s adjust rest =
     (case rest of
        [] \<Rightarrow>
          (case xdrmblk_alloc (mb_size s) (mb_alloc s) of
             (None, es) \<Rightarrow> (None, es)
           | (Some m, es) \<Rightarrow> (case XDRMBLK_SETHANDY m (mb_size s) adjust of (m1, h) \<Rightarrow> (Some (m1, [], h), es)))
      | m # rest' \<Rightarrow> (Some (m, rest', of_nat (db_lim m) - of_nat (b_rptr m) - adjust), mb_alloc s))"

definition xdrmblk_putlong :: "mblk_st \<Rightarrow> 32 word \<Rightarrow> (bool \<times> mblk_st) kres" where
  "xdrmblk_putlong s l =
     (case mb_chain s of
        [] \<Rightarrow> Inr (False, s)
      | m # rest \<Rightarrow>
          let h = mb_handy s - 4 in
          if sint h < 0 then
            (case next_block s 4 rest of
               (None, es) \<Rightarrow> Inr (False, s\<lparr>mb_done := mb_done s @ [m], mb_chain := [], mb_handy := 0, mb_alloc := es\<rparr>)
             | (Some (m', rest', h'), es) \<Rightarrow>
                 map_sum id (\<lambda>m1. (True, s\<lparr>mb_done := mb_done s @ [m], mb_chain := m1 # rest', mb_handy := h', mb_alloc := es\<rparr>)) (blk_put m' (put4 l)))
          else map_sum id (\<lambda>m1. (True, s\<lparr>mb_chain := m1 # rest, mb_handy := h\<rparr>)) (blk_put m (put4 l)))"

text \<open>\<open>off\<close> bytes of \<open>addr\<close> have been read.\<close>

definition copy_in :: "dblk \<Rightarrow> byte list \<Rightarrow> nat \<Rightarrow> nat \<Rightarrow> (dblk \<times> byte list) kres" where
  "copy_in m addr off n =
     (if length addr < off + n then Inl (Wild ''addr'')
      else map_sum id (\<lambda>(bs, m1). (m1, take off addr @ bs @ drop (off + n) addr)) (blk_get m n))"

fun getbytes_loop :: "mblk_st \<Rightarrow> dblk list \<Rightarrow> 32 word \<Rightarrow> dblk \<Rightarrow> dblk list \<Rightarrow> byte list \<Rightarrow> nat \<Rightarrow> 32 word \<Rightarrow> (bool \<times> byte list \<times> mblk_st) kres" where
  "getbytes_loop s done handy m rest addr off len =
     (if sint (handy - len) < 0 then
        case (if sint handy > 0 then copy_in m addr off (unat handy) else Inr (m, addr)) of
          Inl f \<Rightarrow> Inl f
        | Inr (m1, addr1) \<Rightarrow>
            (case rest of
               [] \<Rightarrow> Inr (False, addr1, s\<lparr>mb_done := done @ [m1], mb_chain := [], mb_handy := 0\<rparr>)
             | m' # rest' \<Rightarrow>
                 getbytes_loop s (done @ [m1]) (blk_left m') m' rest' addr1
                   (if sint handy > 0 then off + unat handy else off) (if sint handy > 0 then len - handy else len))
      else map_sum id (\<lambda>(m1, addr1). (True, addr1, s\<lparr>mb_done := done, mb_chain := m1 # rest, mb_handy := handy - len\<rparr>)) (copy_in m addr off (unat len)))"

definition xdrmblk_getbytes :: "mblk_st \<Rightarrow> byte list \<Rightarrow> 32 word \<Rightarrow> (bool \<times> byte list \<times> mblk_st) kres" where
  "xdrmblk_getbytes s addr len =
     (case mb_chain s of [] \<Rightarrow> Inr (False, addr, s) | m # rest \<Rightarrow> getbytes_loop s (mb_done s) (mb_handy s) m rest addr 0 len)"

text \<open>The chain that holds the rest of the bytes, in place of the bytes.\<close>

definition xdrmblk_getmblk :: "mblk_st \<Rightarrow> (bool \<times> (dblk list \<times> 32 word) option \<times> mblk_st) kres" where
  "xdrmblk_getmblk s =
     (case xdrmblk_getlong s of
        Inl f \<Rightarrow> Inl f
      | Inr (None, s1) \<Rightarrow> Inr (False, None, s1)
      | Inr (Some llen, s1) \<Rightarrow>
          let len = fold (\<lambda>m len. len + blk_left m) (mb_chain s1) 0 in
          if sint len < sint llen then Inr (False, Some (mb_chain s1, llen), s1)
          else Inr (True, Some (mb_chain s1, llen), s1\<lparr>mb_done := mb_done s1 @ mb_chain s1, mb_chain := [], mb_handy := 0\<rparr>))"

text \<open>Few bytes are copied one by one, more by \<^verbatim>\<open>bcopy\<close>.\<close>

fun put_each :: "dblk \<Rightarrow> byte list \<Rightarrow> dblk kres" where
  "put_each m [] = Inr m"
| "put_each m (b # bs) = (case blk_put m [b] of Inl f \<Rightarrow> Inl f | Inr m1 \<Rightarrow> put_each m1 bs)"

definition copy_out :: "dblk \<Rightarrow> byte list \<Rightarrow> nat \<Rightarrow> dblk kres" where
  "copy_out m addr n =
     (if length addr < n then Inl (Wild ''addr'')
      else if n < 16 then put_each m (take n addr) else blk_put m (take n addr))"

lemma alloc_wait_less: "alloc_wait es = (Some m, es') \<Longrightarrow> length es' < length es"
  by (induction es rule: alloc_wait.induct) auto

lemma next_block_less:
  "next_block s adjust rest = (Some (m, rest', h), es) \<Longrightarrow> length rest' + length es < length rest + length (mb_alloc s)"
  by (auto simp: next_block_def xdrmblk_alloc_def dest: alloc_wait_less split: list.splits prod.splits option.splits if_splits)

function putbytes_loop :: "mblk_st \<Rightarrow> dblk list \<Rightarrow> 32 word \<Rightarrow> dblk \<Rightarrow> dblk list \<Rightarrow> byte list \<Rightarrow> 32 word \<Rightarrow> (bool \<times> mblk_st) kres" where
  "putbytes_loop s done handy m rest addr len =
     (if sint (handy - len) < 0 then
        case (if sint handy > 0 then copy_out m addr (unat handy) else Inr m) of
          Inl f \<Rightarrow> Inl f
        | Inr m1 \<Rightarrow>
            (case next_block s 0 rest of
               (None, es) \<Rightarrow> Inr (False, s\<lparr>mb_done := done @ [m1], mb_chain := [], mb_handy := 0, mb_alloc := es\<rparr>)
             | (Some (m', rest', h'), es) \<Rightarrow>
                 putbytes_loop (s\<lparr>mb_alloc := es\<rparr>) (done @ [m1]) h' m' rest'
                   (if sint handy > 0 then drop (unat handy) addr else addr) (if sint handy > 0 then len - handy else len))
      else map_sum id (\<lambda>m1. (True, s\<lparr>mb_done := done, mb_chain := m1 # rest, mb_handy := handy - len\<rparr>)) (copy_out m addr (unat len)))"
  by pat_completeness auto
termination
  by (relation "measure (\<lambda>(s, _, _, _, rest, _, _). length rest + length (mb_alloc s))") (auto dest!: next_block_less sym [of _ "next_block _ _ _"])

definition xdrmblk_putbytes :: "mblk_st \<Rightarrow> byte list \<Rightarrow> 32 word \<Rightarrow> (bool \<times> mblk_st) kres" where
  "xdrmblk_putbytes s addr len =
     (case mb_chain s of [] \<Rightarrow> Inr (False, s) | m # rest \<Rightarrow> putbytes_loop s (mb_done s) (mb_handy s) m rest addr len)"

definition xdrmblk_putmblk :: "mblk_st \<Rightarrow> dblk list \<Rightarrow> 32 word \<Rightarrow> (bool \<times> mblk_st) kres" where
  "xdrmblk_putmblk s ms len =
     (case ms of
        [] \<Rightarrow> Inl (Wild ''m'')
      | m # _ \<Rightarrow>
          if (int (b_wptr m) - int (b_rptr m)) mod 4 \<noteq> 0 then Inr (False, s)
          else
            case xdrmblk_putlong s len of
              Inl f \<Rightarrow> Inl f
            | Inr (False, s1) \<Rightarrow> Inr (False, s1)
            | Inr (True, s1) \<Rightarrow>
                (case mb_chain s1 of
                   [] \<Rightarrow> Inl (Wild ''x_base'')
                 | m1 # _ \<Rightarrow> Inr (True, s1\<lparr>mb_done := mb_done s1 @ [m1], mb_chain := ms, mb_handy := 0\<rparr>)))"

definition xdrmblk_getpos :: "xdr_op \<Rightarrow> mblk_st \<Rightarrow> 32 word kres" where
  "xdrmblk_getpos opr s =
     (case mb_chain s of
        [] \<Rightarrow> Inl (Wild ''m'')
      | m # _ \<Rightarrow> Inr (of_nat (if opr = XDR_DECODE then b_rptr m else b_wptr m)))"

text \<open>The new address is compared as an address, and is an offset again.\<close>

definition xdrmblk_setpos :: "xdr_op \<Rightarrow> mblk_st \<Rightarrow> 32 word \<Rightarrow> (bool \<times> mblk_st) kres" where
  "xdrmblk_setpos opr s pos =
     (case mb_chain s of
        [] \<Rightarrow> Inr (False, s)
      | m # rest \<Rightarrow>
          let newaddr = db_base m + pos;
              wptr = db_base m + of_nat (b_wptr m);
              lim = db_base m + of_nat (db_lim m) in
          if opr = XDR_DECODE then
            if newaddr > wptr then Inr (False, s)
            else Inr (True, s\<lparr>mb_chain := m\<lparr>b_rptr := unat (newaddr - db_base m)\<rparr> # rest, mb_handy := wptr - newaddr\<rparr>)
          else
            if newaddr > lim then Inr (False, s)
            else Inr (True, s\<lparr>mb_chain := m\<lparr>b_wptr := unat (newaddr - db_base m)\<rparr> # rest, mb_handy := lim - newaddr\<rparr>))"

definition xdrmblk_inline :: "xdr_op \<Rightarrow> mblk_st \<Rightarrow> 32 word \<Rightarrow> 32 word option \<times> mblk_st" where
  "xdrmblk_inline opr s len =
     (if opr = XDR_FREE then (None, s)
      else if sint (mb_handy s) < sint len then (None, s)
      else
        case mb_chain s of
          [] \<Rightarrow> (None, s)
        | m # rest \<Rightarrow>
            if db_ref m \<noteq> 1 then (None, s)
            else
              let s1 = s\<lparr>mb_handy := mb_handy s - len\<rparr> in
              if opr = XDR_DECODE
              then (Some (db_base m + of_nat (b_rptr m)), s1\<lparr>mb_chain := m\<lparr>b_rptr := unat (of_nat (b_rptr m) + len)\<rparr> # rest\<rparr>)
              else (Some (db_base m + of_nat (b_wptr m)), s1\<lparr>mb_chain := m\<lparr>b_wptr := unat (of_nat (b_wptr m) + len)\<rparr> # rest\<rparr>))"

fun skip_loop :: "mblk_st \<Rightarrow> dblk list \<Rightarrow> 32 word \<Rightarrow> dblk \<Rightarrow> dblk list \<Rightarrow> 32 word \<Rightarrow> bool \<times> mblk_st" where
  "skip_loop s done handy m rest len =
     (if sint (handy - len) < 0 then
        let m1 = (if sint handy > 0 then m\<lparr>b_rptr := b_rptr m + unat handy\<rparr> else m) in
        case rest of
          [] \<Rightarrow> (False, s\<lparr>mb_done := done @ [m1], mb_chain := [], mb_handy := 0\<rparr>)
        | m' # rest' \<Rightarrow> skip_loop s (done @ [m1]) (blk_left m') m' rest' (if sint handy > 0 then len - handy else len)
      else (True, s\<lparr>mb_done := done, mb_chain := m\<lparr>b_rptr := unat (of_nat (b_rptr m) + len)\<rparr> # rest, mb_handy := handy - len\<rparr>))"

definition xdrmblk_control :: "mblk_st \<Rightarrow> xdr_request \<Rightarrow> 32 word \<Rightarrow> (bool \<times> 32 word \<times> mblk_st) kres" where
  "xdrmblk_control s request info =
     (case request of
        XDR_PEEK \<Rightarrow>
          if mb_handy s < 4 then Inr (False, info, s)
          else
            (case mb_chain s of
               [] \<Rightarrow> Inr (False, info, s)
             | m # _ \<Rightarrow> map_sum id (\<lambda>(bs, _). (True, get4 bs, s)) (blk_get m 4))
      | XDR_SKIPBYTES \<Rightarrow>
          (case mb_chain s of
             [] \<Rightarrow> Inr (False, info, s)
           | m # rest \<Rightarrow> (case skip_loop s (mb_done s) (mb_handy s) m rest (RNDUP info) of (r, s1) \<Rightarrow> Inr (r, info, s1)))
      | XDR_OTHER _ \<Rightarrow> Inr (False, info, s))"

definition xdrmblk_ops :: "mblk_st xdr_ops" where
  "xdrmblk_ops = \<lparr>x_getlong = xdrmblk_getlong, x_putlong = xdrmblk_putlong, x_getbytes = xdrmblk_getbytes, x_putbytes = xdrmblk_putbytes,
     x_getpostn = xdrmblk_getpos, x_setpostn = xdrmblk_setpos, x_inline = xdrmblk_inline, x_control = xdrmblk_control\<rparr>"

definition xdrmblk_init :: "dblk list \<Rightarrow> xdr_op \<Rightarrow> int \<Rightarrow> alloc_event list \<Rightarrow> mblk_st XDR kres" where
  "xdrmblk_init ms opr sz es =
     (case ms of
        [] \<Rightarrow> Inl (Wild ''m'')
      | m # _ \<Rightarrow>
          Inr \<lparr>x_op = opr, x_ops = xdrmblk_ops,
               x_st = \<lparr>mb_done = [], mb_chain = ms, mb_handy = (if opr = XDR_DECODE then blk_left m else of_nat (db_lim m)), mb_size = sz, mb_alloc = es\<rparr>,
               x_mem = []\<rparr>)"

end
