(* ===== verification/Xdr_Mblk_Inv.thy ===== *)
theory Xdr_Mblk_Inv
  imports Xdr_Mblk
begin

text \<open>
  The chain of message blocks keeps the contract of an XDR stream, whatever the number and the sizes of the blocks,
  as long as each holds, or has room for, a multiple of four bytes.
\<close>

section \<open>Reading\<close>

definition blk_bytes :: "dblk \<Rightarrow> byte list" where
  "blk_bytes m = take (b_wptr m - b_rptr m) (drop (b_rptr m) (db_data m))"

definition blk_ok :: "dblk \<Rightarrow> bool" where
  "blk_ok m \<longleftrightarrow> b_rptr m \<le> b_wptr m \<and> b_wptr m \<le> db_lim m \<and> db_lim m < 2 ^ 31"

definition chain_bytes :: "dblk list \<Rightarrow> byte list" where
  "chain_bytes ms = concat (map blk_bytes ms)"

definition rps :: "dblk list \<Rightarrow> nat" where
  "rps ms = sum_list (map b_rptr ms)"

text \<open>The blocks end at multiples of four bytes of the stream.\<close>

definition rok :: "dblk list \<Rightarrow> dblk list \<Rightarrow> bool" where
  "rok done ms \<longleftrightarrow> ms \<noteq> [] \<and> (\<forall>b \<in> set ms. blk_ok b) \<and> 4 dvd rps (done @ ms) + (b_wptr (hd ms) - b_rptr (hd ms)) \<and> (\<forall>b \<in> set (tl ms). 4 dvd b_wptr b - b_rptr b)"

definition rinv :: "mblk_st \<Rightarrow> bool" where
  "rinv s \<longleftrightarrow> rok (mb_done s) (mb_chain s) \<and> mb_handy s = blk_left (hd (mb_chain s))"

lemma chain_bytes_simps [simp]: "chain_bytes [] = []" "chain_bytes (m # ms) = blk_bytes m @ chain_bytes ms" "chain_bytes (xs @ ys) = chain_bytes xs @ chain_bytes ys"
  by (simp_all add: chain_bytes_def)

lemma rps_simps [simp]: "rps [] = 0" "rps (m # ms) = b_rptr m + rps ms" "rps (xs @ ys) = rps xs + rps ys"
  by (simp_all add: rps_def)

lemma length_blk_bytes [simp]: "blk_ok m \<Longrightarrow> length (blk_bytes m) = b_wptr m - b_rptr m"
  by (auto simp: blk_bytes_def blk_ok_def)

lemma blk_left_eq:
  assumes "blk_ok m"
  shows "blk_left m = of_nat (b_wptr m - b_rptr m)" "b_wptr m - b_rptr m < 2 ^ 31" "unat (blk_left m) = b_wptr m - b_rptr m"
proof -
  show l: "b_wptr m - b_rptr m < 2 ^ 31" using assms by (auto simp: blk_ok_def)
  show e: "blk_left m = of_nat (b_wptr m - b_rptr m)" using assms by (simp add: blk_left_def blk_ok_def of_nat_diff)
  show "unat (blk_left m) = b_wptr m - b_rptr m" unfolding e using l by (simp add: unat_of_nat)
qed

lemma signed_pos: "n < 2 ^ 31 \<Longrightarrow> sint (of_nat n :: 32 word) > 0 \<longleftrightarrow> n > 0"
proof -
  assume n: "n < 2 ^ 31"
  have "sint (word_of_int (int n) :: 32 word) = int n" unfolding sint_int32 by (rule signed_take_bit_int_eq_self) (use n in auto)
  then show ?thesis by simp
qed

lemma signed_cmp: "k < 2 ^ 31 \<Longrightarrow> n < 2 ^ 31 \<Longrightarrow> sint (of_nat k - of_nat n :: 32 word) < 0 \<longleftrightarrow> k < n"
  using signed_sub(1) [of "of_nat k" n] by (simp add: unat_of_nat)

lemma blk_get_ok:
  assumes m: "blk_ok m" and n: "n \<le> b_wptr m - b_rptr m"
  shows "blk_get m n = Inr (take n (blk_bytes m), m\<lparr>b_rptr := b_rptr m + n\<rparr>)" "blk_ok (m\<lparr>b_rptr := b_rptr m + n\<rparr>)"
    "blk_bytes (m\<lparr>b_rptr := b_rptr m + n\<rparr>) = drop n (blk_bytes m)" "blk_left (m\<lparr>b_rptr := b_rptr m + n\<rparr>) = blk_left m - of_nat n"
proof -
  have le: "b_rptr m + n \<le> b_wptr m" "b_rptr m + n \<le> db_lim m" using m n by (auto simp: blk_ok_def)
  show "blk_get m n = Inr (take n (blk_bytes m), m\<lparr>b_rptr := b_rptr m + n\<rparr>)" using le n by (simp add: blk_get_def blk_bytes_def min_absorb1)
  show "blk_ok (m\<lparr>b_rptr := b_rptr m + n\<rparr>)" using m le by (simp add: blk_ok_def)
  show "blk_bytes (m\<lparr>b_rptr := b_rptr m + n\<rparr>) = drop n (blk_bytes m)" by (simp add: blk_bytes_def drop_take add.commute)
  show "blk_left (m\<lparr>b_rptr := b_rptr m + n\<rparr>) = blk_left m - of_nat n" by (simp add: blk_left_def)
qed

text \<open>One block has been used up; it does not matter whether it had any bytes.\<close>

lemma rok_Cons:
  "rok done (m # rest) \<longleftrightarrow> blk_ok m \<and> (\<forall>b \<in> set rest. blk_ok b \<and> 4 dvd b_wptr b - b_rptr b) \<and> 4 dvd rps done + b_wptr m + rps rest"
proof -
  have "rps (done @ m # rest) + (b_wptr m - b_rptr m) = rps done + b_wptr m + rps rest" if "blk_ok m" using that by (simp add: blk_ok_def)
  then show ?thesis by (auto simp: rok_def ac_simps)
qed

lemma rok_next: "rok done (m # m' # rest) \<Longrightarrow> b_rptr m1 = b_wptr m \<Longrightarrow> rok (done @ [m1]) (m' # rest)"
proof -
  assume r: "rok done (m # m' # rest)" and m1: "b_rptr m1 = b_wptr m"
  have "4 dvd (rps done + b_wptr m + rps (m' # rest)) + (b_wptr m' - b_rptr m')" by (rule dvd_add) (use r in \<open>simp_all add: rok_Cons\<close>)
  moreover have "rps done + b_wptr m + rps (m' # rest) + (b_wptr m' - b_rptr m') = rps (done @ [m1]) + b_wptr m' + rps rest"
    using r m1 by (simp add: rok_Cons blk_ok_def)
  ultimately have "4 dvd rps (done @ [m1]) + b_wptr m' + rps rest" by (simp only:)
  then show ?thesis using r by (simp add: rok_Cons)
qed

lemma rok_take: "rok done (m # rest) \<Longrightarrow> n \<le> b_wptr m - b_rptr m \<Longrightarrow> rok done (m\<lparr>b_rptr := b_rptr m + n\<rparr> # rest)"
  by (simp add: rok_Cons blk_get_ok)

lemma left_cases:
  assumes "blk_ok m"
  shows "sint (blk_left m - 4) < 0 \<longleftrightarrow> b_wptr m - b_rptr m < 4" "blk_left m - 4 = - 4 \<longleftrightarrow> b_wptr m = b_rptr m"
proof -
  show "sint (blk_left m - 4) < 0 \<longleftrightarrow> b_wptr m - b_rptr m < 4" using signed_cmp [of _ 4] blk_left_eq [OF assms] by simp
  have "blk_left m - 4 = - 4 \<longleftrightarrow> blk_left m = 0" by (simp add: algebra_simps)
  also have "\<dots> \<longleftrightarrow> b_wptr m - b_rptr m = 0" using blk_left_eq [OF assms] by (metis unat_0 unat_eq_zero)
  finally show "blk_left m - 4 = - 4 \<longleftrightarrow> b_wptr m = b_rptr m" using assms by (auto simp: blk_ok_def)
qed

lemma get4_append: "4 \<le> length bs \<Longrightarrow> get4 (bs @ cs) = get4 bs"
  by (cases bs rule: get4.cases) auto

text \<open>The outcome of reading a long from the blocks \<open>ms\<close>.\<close>

abbreviation got_long :: "mblk_st \<Rightarrow> dblk list \<Rightarrow> dblk list \<Rightarrow> (32 word option \<times> mblk_st) kres \<Rightarrow> bool" where
  "got_long s done ms res \<equiv> (\<exists>r done' ms' h. res = Inr (r, s\<lparr>mb_done := done', mb_chain := ms', mb_handy := h\<rparr>)
     \<and> (r \<noteq> None \<longrightarrow> rok done' ms' \<and> h = blk_left (hd ms'))
     \<and> (4 dvd rps (done @ ms) \<and> 4 \<le> length (chain_bytes ms) \<longrightarrow>
          r = Some (get4 (chain_bytes ms)) \<and> chain_bytes ms' = drop 4 (chain_bytes ms) \<and> rps (done' @ ms') = rps (done @ ms) + 4))"

lemma got_longI:
  assumes "res = Inr (r, s\<lparr>mb_done := done', mb_chain := ms', mb_handy := h\<rparr>)" "r \<noteq> None \<Longrightarrow> rok done' ms' \<and> h = blk_left (hd ms')"
    and "4 dvd rps (done @ ms) \<Longrightarrow> 4 \<le> length (chain_bytes ms) \<Longrightarrow>
      r = Some (get4 (chain_bytes ms)) \<and> chain_bytes ms' = drop 4 (chain_bytes ms) \<and> rps (done' @ ms') = rps (done @ ms) + 4"
  shows "got_long s done ms res"
  using assms by blast

lemma getlong_here:
  assumes r: "rok done (m # rest)" and n: "b_wptr m \<noteq> b_rptr m"
  shows "got_long s done (m # rest) (getlong_loop s done (blk_left m) m rest)"
proof (cases "4 \<le> b_wptr m - b_rptr m")
  case True
  have m: "blk_ok m" using r by (simp add: rok_Cons)
  note g = blk_get_ok [OF m True]
  have eq: "getlong_loop s done (blk_left m) m rest = Inr (Some (get4 (take 4 (blk_bytes m))),
      s\<lparr>mb_done := done, mb_chain := m\<lparr>b_rptr := b_rptr m + 4\<rparr> # rest, mb_handy := blk_left m - 4\<rparr>)"
    using True left_cases [OF m] g(1) by (simp add: Let_def)
  show ?thesis by (rule got_longI [OF eq]) (use rok_take [OF r True] g(3,4) True m in \<open>simp_all add: get4_take get4_append\<close>)
next
  case False
  have m: "blk_ok m" using r by (simp add: rok_Cons)
  have "\<not> 4 dvd rps (done @ m # rest)"
  proof
    assume d: "4 dvd rps (done @ m # rest)"
    have "4 dvd rps (done @ m # rest) + (b_wptr m - b_rptr m)" using r by (simp add: rok_def)
    then have "4 dvd b_wptr m - b_rptr m" using d by (simp only: dvd_add_right_iff)
    then show False using False n m by (auto simp: blk_ok_def dest: dvd_imp_le)
  qed
  moreover have "getlong_loop s done (blk_left m) m rest = Inr (None, s\<lparr>mb_done := done, mb_chain := m # rest, mb_handy := blk_left m - 4\<rparr>)"
    using False n left_cases [OF m] by (simp add: Let_def)
  ultimately show ?thesis by blast
qed

lemma getlong_loop_ok: "rok done (m # rest) \<Longrightarrow> got_long s done (m # rest) (getlong_loop s done (blk_left m) m rest)"
proof (induction rest arbitrary: "done" m)
  case Nil
  show ?case
  proof (cases "b_wptr m = b_rptr m")
    case True
    have "blk_ok m" using Nil by (simp add: rok_Cons)
    then have "getlong_loop s done (blk_left m) m [] = Inr (None, s\<lparr>mb_done := done @ [m], mb_chain := [], mb_handy := 0\<rparr>)"
      using True left_cases [of m] by (simp add: Let_def)
    then show ?thesis using True by (auto simp: blk_bytes_def)
  qed (rule getlong_here [OF Nil])
next
  case (Cons m' rest)
  show ?case
  proof (cases "b_wptr m = b_rptr m")
    case True
    have "blk_ok m" using Cons.prems by (simp add: rok_Cons)
    then have "getlong_loop s done (blk_left m) m (m' # rest) = getlong_loop s (done @ [m]) (blk_left m') m' rest"
      using True left_cases [of m] by (simp add: Let_def)
    moreover have "chain_bytes (m # m' # rest) = chain_bytes (m' # rest)" using True by (simp add: blk_bytes_def)
    ultimately show ?thesis using Cons.IH [OF rok_next [OF Cons.prems, of m]] True by simp
  qed (rule getlong_here [OF Cons.prems])
qed

text \<open>Reading bytes.\<close>

lemma copy_in_ok:
  assumes m: "blk_ok m" and n: "n \<le> b_wptr m - b_rptr m" "off + n \<le> length addr"
  shows "copy_in m addr off n = Inr (m\<lparr>b_rptr := b_rptr m + n\<rparr>, take off addr @ take n (blk_bytes m) @ drop (off + n) addr)"
  using n(2) blk_get_ok(1) [OF m n(1)] by (simp add: copy_in_def)

lemma getbytes_step:
  assumes m: "blk_ok m" and k: "k < 2 ^ 31" "off + k \<le> length addr" and n: "n = b_wptr m - b_rptr m"
  shows "getbytes_loop s done (blk_left m) m rest addr off (of_nat k) =
    (if n < k then
       let m1 = m\<lparr>b_rptr := b_rptr m + n\<rparr>; addr1 = take off addr @ blk_bytes m @ drop (off + n) addr in
       case rest of
         [] \<Rightarrow> Inr (False, addr1, s\<lparr>mb_done := done @ [m1], mb_chain := [], mb_handy := 0\<rparr>)
       | m' # rest' \<Rightarrow> getbytes_loop s (done @ [m1]) (blk_left m') m' rest' addr1 (off + n) (of_nat (k - n))
     else Inr (True, take off addr @ take k (blk_bytes m) @ drop (off + k) addr,
            s\<lparr>mb_done := done, mb_chain := m\<lparr>b_rptr := b_rptr m + k\<rparr> # rest, mb_handy := blk_left m - of_nat k\<rparr>))"
proof -
  have l: "blk_left m = of_nat n" "n < 2 ^ 31" "unat (blk_left m) = n" using blk_left_eq [OF m] n by simp_all
  have c: "sint (blk_left m - of_nat k) < 0 \<longleftrightarrow> n < k" "sint (blk_left m) > 0 \<longleftrightarrow> n > 0" unfolding l(1) using signed_cmp [OF l(2) k(1)] signed_pos [OF l(2)] by auto
  have u: "unat (of_nat k :: 32 word) = k" using k(1) by (simp add: unat_of_nat)
  show ?thesis
  proof (cases "n < k")
    case True
    have "copy_in m addr off n = Inr (m\<lparr>b_rptr := b_rptr m + n\<rparr>, take off addr @ blk_bytes m @ drop (off + n) addr)"
      using copy_in_ok [OF m, of n off addr] True k(2) n m by simp
    moreover have "of_nat (k - n) = (of_nat k - blk_left m :: 32 word)" using True unfolding l(1) by (simp add: of_nat_diff)
    moreover have "n = 0 \<Longrightarrow> blk_left m = 0 \<and> blk_bytes m = []" using l(1) n by (simp add: blk_bytes_def)
    ultimately show ?thesis using True c l(3)
      by (cases "n > 0"; cases rest) (simp_all add: Let_def)
  next
    case False
    then show ?thesis using copy_in_ok [OF m, of k off addr] k(2) n c u by simp
  qed
qed

abbreviation got_bytes :: "mblk_st \<Rightarrow> dblk list \<Rightarrow> dblk list \<Rightarrow> byte list \<Rightarrow> nat \<Rightarrow> nat \<Rightarrow> (bool \<times> byte list \<times> mblk_st) kres \<Rightarrow> bool" where
  "got_bytes s done ms addr off k res \<equiv> (\<exists>r addr' done' ms' h. res = Inr (r, addr', s\<lparr>mb_done := done', mb_chain := ms', mb_handy := h\<rparr>)
     \<and> length addr' = length addr \<and> take off addr' = take off addr \<and> drop (off + k) addr' = drop (off + k) addr
     \<and> (r \<longrightarrow> rok done' ms' \<and> h = blk_left (hd ms'))
     \<and> (k \<le> length (chain_bytes ms) \<longrightarrow> r \<and> take k (drop off addr') = take k (chain_bytes ms) \<and> chain_bytes ms' = drop k (chain_bytes ms)
          \<and> rps (done' @ ms') = rps (done @ ms) + k))"

lemma got_bytesI:
  assumes "res = Inr (r, addr', s\<lparr>mb_done := done', mb_chain := ms', mb_handy := h\<rparr>)"
    "length addr' = length addr" "take off addr' = take off addr" "drop (off + k) addr' = drop (off + k) addr"
    "r \<Longrightarrow> rok done' ms'" "r \<Longrightarrow> h = blk_left (hd ms')" "k \<le> length (chain_bytes ms) \<Longrightarrow> r"
    "k \<le> length (chain_bytes ms) \<Longrightarrow> take k (drop off addr') = take k (chain_bytes ms)"
    "k \<le> length (chain_bytes ms) \<Longrightarrow> chain_bytes ms' = drop k (chain_bytes ms)"
    "k \<le> length (chain_bytes ms) \<Longrightarrow> rps (done' @ ms') = rps (done @ ms) + k"
  shows "got_bytes s done ms addr off k res"
  using assms by blast

lemma getbytes_here:
  assumes r: "rok done (m # rest)" and k: "k < 2 ^ 31" "off + k \<le> length addr" "k \<le> b_wptr m - b_rptr m"
  shows "got_bytes s done (m # rest) addr off k (getbytes_loop s done (blk_left m) m rest addr off (of_nat k))"
proof -
  have m: "blk_ok m" using r by (simp add: rok_Cons)
  note g = blk_get_ok [OF m k(3)]
  have eq: "getbytes_loop s done (blk_left m) m rest addr off (of_nat k) = Inr (True, take off addr @ take k (blk_bytes m) @ drop (off + k) addr,
      s\<lparr>mb_done := done, mb_chain := m\<lparr>b_rptr := b_rptr m + k\<rparr> # rest, mb_handy := blk_left m - of_nat k\<rparr>)"
    using getbytes_step [OF m k(1,2) refl] k(3) by simp
  show ?thesis by (rule got_bytesI [OF eq]) (use rok_take [OF r k(3)] g(3,4) k m in \<open>simp_all add: min_absorb1 min_absorb2\<close>)
qed

lemma getbytes_loop_ok:
  "rok done (m # rest) \<Longrightarrow> k < 2 ^ 31 \<Longrightarrow> off + k \<le> length addr \<Longrightarrow>
   got_bytes s done (m # rest) addr off k (getbytes_loop s done (blk_left m) m rest addr off (of_nat k))"
proof (induction rest arbitrary: "done" m addr off k)
  case Nil
  show ?case
  proof (cases "k \<le> b_wptr m - b_rptr m")
    case False
    define n where "n = b_wptr m - b_rptr m"
    have m: "blk_ok m" using Nil(1) by (simp add: rok_Cons)
    have eq: "getbytes_loop s done (blk_left m) m [] addr off (of_nat k) = Inr (False, take off addr @ blk_bytes m @ drop (off + n) addr,
        s\<lparr>mb_done := done @ [m\<lparr>b_rptr := b_rptr m + n\<rparr>], mb_chain := [], mb_handy := 0\<rparr>)"
      using getbytes_step [OF m Nil(2,3) n_def] False by (simp add: n_def Let_def)
    have n: "n < k" "length (blk_bytes m) = n" using False m by (simp_all add: n_def)
    have "k - n + (off + n) = off + k" "off + (n + (length addr - (off + n))) = length addr" using n(1) Nil(3) by simp_all
    then show ?thesis by (intro got_bytesI [OF eq]) (use n Nil(3) in \<open>simp_all add: add.commute\<close>)
  qed (rule getbytes_here [OF Nil])
next
  case (Cons m' rest)
  show ?case
  proof (cases "k \<le> b_wptr m - b_rptr m")
    case False
    define n where "n = b_wptr m - b_rptr m"
    define m1 where "m1 = m\<lparr>b_rptr := b_rptr m + n\<rparr>"
    define addr1 where "addr1 = take off addr @ blk_bytes m @ drop (off + n) addr"
    have m: "blk_ok m" using Cons.prems(1) by (simp add: rok_Cons)
    have n: "n < k" "length (blk_bytes m) = n" "b_rptr m + n = b_wptr m" using False m by (simp_all add: n_def blk_ok_def)
    have eq: "getbytes_loop s done (blk_left m) m (m' # rest) addr off (of_nat k) =
        getbytes_loop s (done @ [m1]) (blk_left m') m' rest addr1 (off + n) (of_nat (k - n))"
      using getbytes_step [OF m Cons.prems(2,3) n_def] n(1) by (simp add: Let_def m1_def addr1_def)
    have l: "length addr1 = length addr" using Cons.prems(3) n by (simp add: addr1_def)
    have r1: "rok (done @ [m1]) (m' # rest)" by (rule rok_next [OF Cons.prems(1)]) (simp add: m1_def n)
    have p: "k - n < 2 ^ 31" "off + n + (k - n) \<le> length addr1" using Cons.prems(2,3) n l by auto
    obtain r addr' done' ms' h where ih: "getbytes_loop s (done @ [m1]) (blk_left m') m' rest addr1 (off + n) (of_nat (k - n)) = Inr (r, addr', s\<lparr>mb_done := done', mb_chain := ms', mb_handy := h\<rparr>)"
      "length addr' = length addr1" "take (off + n) addr' = take (off + n) addr1" "drop (off + k) addr' = drop (off + k) addr1"
      "r \<longrightarrow> rok done' ms' \<and> h = blk_left (hd ms')"
      "k - n \<le> length (chain_bytes (m' # rest)) \<longrightarrow> r \<and> take (k - n) (drop (off + n) addr') = take (k - n) (chain_bytes (m' # rest))
         \<and> chain_bytes ms' = drop (k - n) (chain_bytes (m' # rest)) \<and> rps (done' @ ms') = rps (done @ [m1] @ m' # rest) + (k - n)"
      using Cons.IH [OF r1 p] n(1) by auto
    have t: "take off addr' = take off addr" "take n (drop off addr') = blk_bytes m"
    proof -
      have "take off addr' = take off (take (off + n) addr')" "take n (drop off addr') = drop off (take (off + n) addr')" by (simp_all add: drop_take)
      then show "take off addr' = take off addr" "take n (drop off addr') = blk_bytes m" unfolding ih(3) using n Cons.prems(3) by (simp_all add: addr1_def)
    qed
    have d: "drop (off + k) addr1 = drop (off + k) addr" using n Cons.prems(3) by (simp add: addr1_def add.commute)
    have tk: "take k (drop off addr') = blk_bytes m @ take (k - n) (drop (off + n) addr')"
      using t(2) n(1) take_add [of n "k - n" "drop off addr'"] by (simp add: add.commute)
    have le: "k \<le> length (chain_bytes (m # m' # rest)) \<longleftrightarrow> k - n \<le> length (chain_bytes (m' # rest))" using n by auto
    show ?thesis unfolding eq
    proof (rule got_bytesI [OF ih(1)])
      show "length addr' = length addr" "take off addr' = take off addr" "drop (off + k) addr' = drop (off + k) addr" using ih(2,4) l t d by simp_all
      show "rok done' ms'" "h = blk_left (hd ms')" if r using ih(5) that by simp_all
      assume "k \<le> length (chain_bytes (m # m' # rest))"
      then have le': "k - n \<le> length (chain_bytes (m' # rest))" unfolding le .
      then show r using ih(6) by blast
      show "take k (drop off addr') = take k (chain_bytes (m # m' # rest))" using ih(6) le' tk n(1,2) by simp
      show "chain_bytes ms' = drop k (chain_bytes (m # m' # rest))" using ih(6) le' n(1,2) by simp
      show "rps (done' @ ms') = rps (done @ m # m' # rest) + k" using ih(6) le' n by (simp add: m1_def)
    qed
  qed (rule getbytes_here [OF Cons.prems])
qed

section \<open>Writing\<close>

lemma blk_put_put: "blk_put m bs = Inr m1 \<Longrightarrow> b_wptr m1 + length cs \<le> db_lim m \<Longrightarrow> blk_put m1 cs = blk_put m (bs @ cs)"
  by (auto simp: blk_put_def ac_simps split: if_splits)

lemma put_each_eq: "b_wptr m + length bs \<le> db_lim m \<Longrightarrow> put_each m bs = blk_put m bs"
proof (induction bs arbitrary: m)
  case Nil
  then show ?case by (simp add: blk_put_def)
next
  case (Cons b bs)
  then obtain m1 where m1: "blk_put m [b] = Inr m1" "b_wptr m1 = Suc (b_wptr m)" "db_lim m1 = db_lim m" by (auto simp: blk_put_def)
  then show ?case using Cons blk_put_put [OF m1(1), of bs] by simp
qed

lemma copy_out_ok: "n \<le> length addr \<Longrightarrow> b_wptr m + n \<le> db_lim m \<Longrightarrow> copy_out m addr n = blk_put m (take n addr)"
  by (simp add: copy_out_def put_each_eq)

lemma blk_put_ok:
  assumes m: "blk_ok m" and n: "b_wptr m + length bs \<le> db_lim m"
  shows "\<exists>m1. blk_put m bs = Inr m1 \<and> blk_ok m1 \<and> b_rptr m1 = b_rptr m \<and> b_wptr m1 = b_wptr m + length bs \<and> db_lim m1 = db_lim m \<and> blk_bytes m1 = blk_bytes m @ bs"
  using m n by (auto simp: blk_put_def blk_ok_def blk_bytes_def drop_take)

abbreviation cap :: "dblk \<Rightarrow> nat" where
  "cap b \<equiv> db_lim b - b_rptr b"

text \<open>A block that is empty, with room for some units.\<close>

definition fresh :: "dblk \<Rightarrow> bool" where
  "fresh b \<longleftrightarrow> blk_ok b \<and> b_wptr b = b_rptr b \<and> 0 < cap b \<and> 4 dvd cap b"

definition events_ok :: "int \<Rightarrow> alloc_event list \<Rightarrow> bool" where
  "events_ok sz es \<longleftrightarrow> 0 \<le> sz \<and> 4 dvd sz \<and> (\<forall>e \<in> set es. case e of AllocBlock _ lim \<Rightarrow> sz \<le> int lim \<and> lim < 2 ^ 31 \<and> 4 dvd lim | _ \<Rightarrow> True)"

text \<open>The room in the blocks that will be allocated until a signal comes, and with those of the chain.\<close>

fun alloc_room :: "int \<Rightarrow> alloc_event list \<Rightarrow> nat" where
  "alloc_room sz [] = 0"
| "alloc_room sz (AllocIntr # es) = 0"
| "alloc_room sz (AllocRetry # es) = alloc_room sz es"
| "alloc_room sz (AllocBlock _ lim # es) = (if int lim div 2 \<le> sz then nat sz else lim) + alloc_room sz es"

definition more :: "int \<Rightarrow> dblk list \<Rightarrow> alloc_event list \<Rightarrow> nat" where
  "more sz rest es = sum_list (map cap rest) + (if sz = 0 then 0 else alloc_room sz es)"

lemma events_ok_simps:
  "events_ok sz (AllocBlock b lim # es) \<longleftrightarrow> sz \<le> int lim \<and> lim < 2 ^ 31 \<and> 4 dvd lim \<and> events_ok sz es"
  "events_ok sz (AllocIntr # es) \<longleftrightarrow> events_ok sz es" "events_ok sz (AllocRetry # es) \<longleftrightarrow> events_ok sz es"
  by (auto simp: events_ok_def)

lemma alloc_wait_None: "alloc_wait es = (None, es') \<Longrightarrow> alloc_room sz es = 0"
  by (induction es rule: alloc_wait.induct) auto

lemma alloc_wait_Some:
  "alloc_wait es = (Some m, es') \<Longrightarrow> events_ok sz es \<Longrightarrow> \<exists>base lim. m = \<lparr>db_base = base, db_data = replicate lim 0, db_ref = 1, b_rptr = 0, b_wptr = 0\<rparr>
     \<and> sz \<le> int lim \<and> lim < 2 ^ 31 \<and> 4 dvd lim \<and> events_ok sz es' \<and> alloc_room sz es = (if int lim div 2 \<le> sz then nat sz else lim) + alloc_room sz es'"
  by (induction es rule: alloc_wait.induct) (auto simp: events_ok_simps)

lemma sethandy_ok:
  assumes "sz \<le> int lim" "lim < 2 ^ 31" "4 dvd lim" "4 dvd sz" "sz \<noteq> 0" "0 \<le> sz"
    and "XDRMBLK_SETHANDY \<lparr>db_base = base, db_data = replicate lim 0, db_ref = 1, b_rptr = 0, b_wptr = 0\<rparr> sz adj = (m, h)"
  shows "fresh m" "cap m = (if int lim div 2 \<le> sz then nat sz else lim)" "h = of_nat (cap m) - adj"
proof -
  obtain k where k: "sz = int k" using assms(6) nonneg_int_cases by blast
  have "4 dvd k" using assms(4) k by presburger
  then show "fresh m" "cap m = (if int lim div 2 \<le> sz then nat sz else lim)" "h = of_nat (cap m) - adj"
    using assms k by (auto simp: XDRMBLK_SETHANDY_def Let_def fresh_def blk_ok_def of_nat_diff nat_diff_distrib split: if_splits)
qed

lemma next_block_None: "next_block s adj rest = (None, es) \<Longrightarrow> more (mb_size s) rest (mb_alloc s) = 0"
  by (auto simp: next_block_def xdrmblk_alloc_def more_def dest: alloc_wait_None split: list.splits prod.splits option.splits if_splits)

lemma next_block_Some:
  assumes e: "next_block s adj rest = (Some (m, rest', h), es)" and r: "\<forall>b \<in> set rest. fresh b" and ev: "events_ok (mb_size s) (mb_alloc s)"
  shows "fresh m \<and> (\<forall>b \<in> set rest'. fresh b) \<and> events_ok (mb_size s) es \<and> h = of_nat (cap m) - adj
    \<and> more (mb_size s) rest (mb_alloc s) = cap m + more (mb_size s) rest' es"
proof (cases rest)
  case Nil
  obtain m0 where m0: "mb_size s \<noteq> 0" "alloc_wait (mb_alloc s) = (Some m0, es)" "XDRMBLK_SETHANDY m0 (mb_size s) adj = (m, h)" "rest' = []"
    using e Nil by (auto simp: next_block_def xdrmblk_alloc_def split: prod.splits option.splits if_splits)
  have "4 dvd mb_size s" "0 \<le> mb_size s" using ev by (simp_all add: events_ok_def)
  then show ?thesis using alloc_wait_Some [OF m0(2) ev] sethandy_ok m0 Nil by (auto simp: more_def)
next
  case (Cons b bs)
  then show ?thesis using e r ev by (auto simp: next_block_def more_def fresh_def blk_ok_def of_nat_diff)
qed

definition wok :: "int \<Rightarrow> dblk list \<Rightarrow> dblk \<Rightarrow> dblk list \<Rightarrow> alloc_event list \<Rightarrow> bool" where
  "wok sz done m rest es \<longleftrightarrow> blk_ok m \<and> (\<forall>b \<in> set rest. fresh b) \<and> events_ok sz es
     \<and> 4 dvd length (chain_bytes (done @ [m])) + (db_lim m - b_wptr m)"

definition winv :: "mblk_st \<Rightarrow> bool" where
  "winv s \<longleftrightarrow> (case mb_chain s of [] \<Rightarrow> False
     | m # rest \<Rightarrow> wok (mb_size s) (mb_done s) m rest (mb_alloc s) \<and> mb_handy s = of_nat (db_lim m - b_wptr m))"

definition room :: "mblk_st \<Rightarrow> nat" where
  "room s = (case mb_chain s of [] \<Rightarrow> 0 | m # rest \<Rightarrow> (db_lim m - b_wptr m) + more (mb_size s) rest (mb_alloc s))"

lemma fresh_bytes: "\<forall>b \<in> set rest. fresh b \<Longrightarrow> chain_bytes rest = []"
  by (induction rest) (auto simp: fresh_def blk_bytes_def)

lemma wok_put:
  assumes w: "wok sz done m rest es" and n: "b_wptr m + length bs \<le> db_lim m"
  shows "\<exists>m1. blk_put m bs = Inr m1 \<and> wok sz done m1 rest es \<and> chain_bytes (done @ m1 # rest) = chain_bytes (done @ m # rest) @ bs
    \<and> db_lim m1 - b_wptr m1 = db_lim m - b_wptr m - length bs"
proof -
  have "blk_ok m" using w by (simp add: wok_def)
  from blk_put_ok [OF this n] obtain m1 where m1: "blk_put m bs = Inr m1" "blk_ok m1" "b_wptr m1 = b_wptr m + length bs" "db_lim m1 = db_lim m" "blk_bytes m1 = blk_bytes m @ bs"
    by blast
  have e: "length (chain_bytes (done @ [m1])) + (db_lim m1 - b_wptr m1) = length (chain_bytes (done @ [m])) + (db_lim m - b_wptr m)"
    using m1(3,4,5) n by simp
  have "wok sz done m1 rest es" using w m1(2) unfolding wok_def e by blast
  moreover have "chain_bytes rest = []" using w fresh_bytes by (simp add: wok_def)
  ultimately show ?thesis using m1 by auto
qed

lemma wok_next:
  assumes w: "wok sz done m rest es" and f: "b_wptr m = db_lim m" and m': "fresh m'" "\<forall>b \<in> set rest'. fresh b" "events_ok sz es'"
  shows "wok sz (done @ [m]) m' rest' es'" "chain_bytes (done @ [m] @ m' # rest') = chain_bytes (done @ m # rest)"
proof -
  have b: "blk_bytes m' = []" using m'(1) by (simp add: fresh_def blk_bytes_def)
  have "4 dvd length (chain_bytes (done @ [m])) + (db_lim m - b_wptr m)" using w by (simp only: wok_def)
  then have "4 dvd length (chain_bytes (done @ [m]))" unfolding f by (simp only: diff_self_eq_0 add_0_right)
  then have "4 dvd length (chain_bytes (done @ [m])) + cap m'" using m'(1) by (intro dvd_add) (simp_all add: fresh_def)
  then show "wok sz (done @ [m]) m' rest' es'" using m' b by (simp add: wok_def fresh_def)
  show "chain_bytes (done @ [m] @ m' # rest') = chain_bytes (done @ m # rest)"
    using w b fresh_bytes [of rest] fresh_bytes [OF m'(2)] by (simp add: wok_def)
qed

text \<open>A long, which is in one block.\<close>

lemma putlong_ok:
  assumes s: "winv s" and a: "4 dvd length (chain_bytes (mb_done s @ mb_chain s))"
  shows "\<exists>s'. xdrmblk_putlong s w = Inr (4 \<le> room s, s') \<and> (4 \<le> room s \<longrightarrow> winv s'
    \<and> chain_bytes (mb_done s' @ mb_chain s') = chain_bytes (mb_done s @ mb_chain s) @ put4 w \<and> room s' = room s - 4)"
proof -
  obtain m rest where c: "mb_chain s = m # rest" "wok (mb_size s) (mb_done s) m rest (mb_alloc s)" "mb_handy s = of_nat (db_lim m - b_wptr m)"
    using s by (auto simp: winv_def split: list.splits)
  have m: "blk_ok m" "db_lim m - b_wptr m < 2 ^ 31" using c(2) by (auto simp: wok_def blk_ok_def)
  have neg: "sint (mb_handy s - 4) < 0 \<longleftrightarrow> db_lim m - b_wptr m < 4" using signed_cmp [OF m(2), of 4] c(3) by simp
  have "chain_bytes (mb_done s @ mb_chain s) = chain_bytes (mb_done s @ [m])" using c fresh_bytes [of rest] by (simp add: wok_def)
  then have "4 dvd length (chain_bytes (mb_done s @ [m]))" using a by simp
  then have d: "4 dvd db_lim m - b_wptr m" using c(2) dvd_add_right_iff by (simp only: wok_def) blast
  show ?thesis
  proof (cases "db_lim m - b_wptr m < 4")
    case False
    then have le: "b_wptr m + length (put4 w) \<le> db_lim m" by simp
    from wok_put [OF c(2) le]
    obtain m1 where m1: "blk_put m (put4 w) = Inr m1" "wok (mb_size s) (mb_done s) m1 rest (mb_alloc s)"
      "chain_bytes (mb_done s @ m1 # rest) = chain_bytes (mb_done s @ m # rest) @ put4 w" "db_lim m1 - b_wptr m1 = db_lim m - b_wptr m - 4"
      by auto
    have "xdrmblk_putlong s w = Inr (True, s\<lparr>mb_chain := m1 # rest, mb_handy := mb_handy s - 4\<rparr>)"
      using c(1) neg False m1(1) by (simp add: xdrmblk_putlong_def Let_def)
    then show ?thesis using m1 c False by (auto simp: winv_def room_def of_nat_diff)
  next
    case True
    then have f: "b_wptr m = db_lim m" using d m(1) by (auto simp: blk_ok_def dest: dvd_imp_le)
    show ?thesis
    proof (cases "next_block s 4 rest")
      case (Pair nb es)
      show ?thesis
      proof (cases nb)
        case None
        then show ?thesis using Pair next_block_None [of s 4 rest es] c neg True f by (simp add: xdrmblk_putlong_def Let_def room_def)
      next
        case (Some p)
        then obtain m' rest' h where nb: "next_block s 4 rest = (Some (m', rest', h), es)" using Pair by (cases p) auto
        from next_block_Some [OF this] c(2) have n: "fresh m'" "\<forall>b \<in> set rest'. fresh b" "events_ok (mb_size s) es" "h = of_nat (cap m') - 4"
          "more (mb_size s) rest (mb_alloc s) = cap m' + more (mb_size s) rest' es" by (auto simp: wok_def)
        note w' = wok_next [OF c(2) f n(1,2,3)]
        have "4 \<le> cap m'" using n(1) by (auto simp: fresh_def dest: dvd_imp_le)
        then have le: "b_wptr m' + length (put4 w) \<le> db_lim m'" "4 \<le> db_lim m' - b_wptr m'" using n(1) by (auto simp: fresh_def)
        from wok_put [OF w'(1) le(1)] obtain m1 where m1: "blk_put m' (put4 w) = Inr m1" "wok (mb_size s) (mb_done s @ [m]) m1 rest' es"
          "chain_bytes ((mb_done s @ [m]) @ m1 # rest') = chain_bytes ((mb_done s @ [m]) @ m' # rest') @ put4 w" "db_lim m1 - b_wptr m1 = cap m' - 4"
          using n(1) by (auto simp: fresh_def)
        have "xdrmblk_putlong s w = Inr (True, s\<lparr>mb_done := mb_done s @ [m], mb_chain := m1 # rest', mb_handy := h, mb_alloc := es\<rparr>)"
          using c(1) neg True nb m1(1) by (simp add: xdrmblk_putlong_def Let_def)
        then show ?thesis using m1 c(1) w'(2) n(4,5) f \<open>4 \<le> cap m'\<close> by (auto simp: winv_def room_def of_nat_diff)
      qed
    qed
  qed
qed

text \<open>Bytes, in one block or spread over several.\<close>

declare putbytes_loop.simps [simp del]

lemma putbytes_step:
  assumes m: "blk_ok m" and n: "n = db_lim m - b_wptr m" and k: "k < 2 ^ 31" "k \<le> length addr"
  shows "putbytes_loop s done (of_nat n) m rest addr (of_nat k) =
    (if n < k then
       case blk_put m (take n addr) of
         Inl f \<Rightarrow> Inl f
       | Inr m1 \<Rightarrow>
           (case next_block s 0 rest of
              (None, es) \<Rightarrow> Inr (False, s\<lparr>mb_done := done @ [m1], mb_chain := [], mb_handy := 0, mb_alloc := es\<rparr>)
            | (Some (m', rest', h'), es) \<Rightarrow> putbytes_loop (s\<lparr>mb_alloc := es\<rparr>) (done @ [m1]) h' m' rest' (drop n addr) (of_nat (k - n)))
     else map_sum id (\<lambda>m1. (True, s\<lparr>mb_done := done, mb_chain := m1 # rest, mb_handy := of_nat (n - k)\<rparr>)) (blk_put m (take k addr)))"
proof -
  have n': "n < 2 ^ 31" "b_wptr m + n \<le> db_lim m" using m n by (auto simp: blk_ok_def)
  then have u: "unat (of_nat n :: 32 word) = n" "unat (of_nat k :: 32 word) = k" using k(1) by (simp_all add: unat_of_nat)
  note c = signed_cmp [OF n'(1) k(1)] signed_pos [OF n'(1)]
  show ?thesis
  proof (cases "n < k")
    case True
    have "(if sint (of_nat n :: 32 word) > 0 then copy_out m addr n else Inr m) = blk_put m (take n addr)"
      using True k(2) n'(2) c(2) copy_out_ok [of n addr m] by (cases "n = 0") (auto simp: blk_put_def)
    moreover have "of_nat (k - n) = (if sint (of_nat n :: 32 word) > 0 then of_nat k - of_nat n else of_nat k :: 32 word)"
      using True c(2) by (auto simp: of_nat_diff)
    moreover have "drop n addr = (if sint (of_nat n :: 32 word) > 0 then drop n addr else addr)" using c(2) by auto
    ultimately show ?thesis using True c(1) by (subst putbytes_loop.simps) (simp only: u if_True)
  next
    case False
    then show ?thesis using k(2) n'(2) c(1) copy_out_ok [of k addr m] by (subst putbytes_loop.simps) (simp add: u of_nat_diff)
  qed
qed

lemma putbytes_loop_ok:
  "wok (mb_size s) done m rest (mb_alloc s) \<Longrightarrow> k < 2 ^ 31 \<Longrightarrow> k \<le> length addr \<Longrightarrow>
   \<exists>s'. putbytes_loop s done (of_nat (db_lim m - b_wptr m)) m rest addr (of_nat k) = Inr (k \<le> db_lim m - b_wptr m + more (mb_size s) rest (mb_alloc s), s')
     \<and> (k \<le> db_lim m - b_wptr m + more (mb_size s) rest (mb_alloc s) \<longrightarrow> winv s' \<and> chain_bytes (mb_done s' @ mb_chain s') = chain_bytes (done @ m # rest) @ take k addr
          \<and> room s' = db_lim m - b_wptr m + more (mb_size s) rest (mb_alloc s) - k)"
proof (induction "length rest + length (mb_alloc s)" arbitrary: s "done" m rest addr k rule: less_induct)
  case less
  define n where "n = db_lim m - b_wptr m"
  have m: "blk_ok m" using less.prems(1) by (simp add: wok_def)
  note step = putbytes_step [OF m n_def less.prems(2,3), of s "done" rest]
  show ?case
  proof (cases "n < k")
    case False
    then have le: "b_wptr m + length (take k addr) \<le> db_lim m" using m less.prems(3) by (auto simp: n_def blk_ok_def)
    from wok_put [OF less.prems(1) le] obtain m1 where m1: "blk_put m (take k addr) = Inr m1" "wok (mb_size s) done m1 rest (mb_alloc s)"
      "chain_bytes (done @ m1 # rest) = chain_bytes (done @ m # rest) @ take k addr" "db_lim m1 - b_wptr m1 = n - k"
      using less.prems(3) by (auto simp: n_def min_absorb2)
    then show ?thesis using step False unfolding n_def [symmetric] by (auto simp: winv_def room_def)
  next
    case True
    then have le: "b_wptr m + length (take n addr) \<le> db_lim m" using m by (auto simp: n_def blk_ok_def)
    from wok_put [OF less.prems(1) le] obtain m1 where m1: "blk_put m (take n addr) = Inr m1" "wok (mb_size s) done m1 rest (mb_alloc s)"
      "chain_bytes (done @ m1 # rest) = chain_bytes (done @ m # rest) @ take n addr" "db_lim m1 - b_wptr m1 = 0"
      using less.prems(3) True by (auto simp: n_def)
    have f: "b_wptr m1 = db_lim m1" using m1(2,4) by (simp add: wok_def blk_ok_def)
    obtain nb es where nb: "next_block s 0 rest = (nb, es)" by (cases "next_block s 0 rest")
    show ?thesis
    proof (cases nb)
      case None
      then show ?thesis using step True m1(1) nb next_block_None [of s 0 rest es] unfolding n_def [symmetric] by simp
    next
      case (Some p)
      then obtain m' rest' h where nb: "next_block s 0 rest = (Some (m', rest', h), es)" using nb by (cases p) auto
      have r: "\<forall>b \<in> set rest. fresh b" "events_ok (mb_size s) (mb_alloc s)" using m1(2) unfolding wok_def by blast+
      note x = next_block_Some [OF nb r]
      then have q: "fresh m'" "\<forall>b \<in> set rest'. fresh b" "events_ok (mb_size s) es" "b_rptr m' = b_wptr m'" by (auto simp: fresh_def)
      have h: "h = of_nat (db_lim m' - b_wptr m')" "more (mb_size s) rest (mb_alloc s) = db_lim m' - b_wptr m' + more (mb_size s) rest' es" using x q(4) by simp_all
      note w' = wok_next [OF m1(2) f q(1,2,3)]
      have "\<exists>s'. putbytes_loop (s\<lparr>mb_alloc := es\<rparr>) (done @ [m1]) h m' rest' (drop n addr) (of_nat (k - n)) = Inr (k - n \<le> more (mb_size s) rest (mb_alloc s), s')
          \<and> (k - n \<le> more (mb_size s) rest (mb_alloc s) \<longrightarrow> winv s' \<and> chain_bytes (mb_done s' @ mb_chain s') = chain_bytes ((done @ [m1]) @ m' # rest') @ take (k - n) (drop n addr)
            \<and> room s' = more (mb_size s) rest (mb_alloc s) - (k - n))"
        using less.hyps [of rest' "s\<lparr>mb_alloc := es\<rparr>" "done @ [m1]" m' "k - n" "drop n addr"] next_block_less [OF nb] w'(1) less.prems(2,3) h by simp
      moreover have "k - n \<le> more (mb_size s) rest (mb_alloc s) \<longleftrightarrow> k \<le> n + more (mb_size s) rest (mb_alloc s)" using True by auto
      moreover have "take k addr = take n addr @ take (k - n) (drop n addr)" using True take_add [of n "k - n" addr] by simp
      ultimately show ?thesis using step True m1(1,3) nb w'(2) unfolding n_def [symmetric] by auto
    qed
  qed
qed

section \<open>A stream\<close>

definition xdrmblk_view :: "mblk_st xview" where
  "xdrmblk_view = \<lparr>sv_ops = xdrmblk_ops, sv_winv = winv, sv_wr = (\<lambda>s. chain_bytes (mb_done s @ mb_chain s)), sv_room = room,
     sv_rinv = rinv, sv_rd = (\<lambda>s. chain_bytes (mb_chain s)), sv_rp = (\<lambda>s. rps (mb_done s @ mb_chain s))\<rparr>"

lemma rinv_chain: "rinv s \<Longrightarrow> \<exists>m rest. mb_chain s = m # rest \<and> rok (mb_done s) (m # rest) \<and> mb_handy s = blk_left m"
  by (cases "mb_chain s") (auto simp: rinv_def rok_def)

interpretation xmblk: xdr_stream xdrmblk_view
proof
  fix s :: mblk_st and w :: "32 word"
  assume "sv_winv xdrmblk_view s" "4 dvd length (sv_wr xdrmblk_view s)"
  then show "\<exists>s'. x_putlong (sv_ops xdrmblk_view) s w = Inr (4 \<le> sv_room xdrmblk_view s, s') \<and> (4 \<le> sv_room xdrmblk_view s \<longrightarrow>
      sv_winv xdrmblk_view s' \<and> sv_wr xdrmblk_view s' = sv_wr xdrmblk_view s @ put4 w \<and> sv_room xdrmblk_view s' = sv_room xdrmblk_view s - 4)"
    using putlong_ok [of s w] by (simp add: xdrmblk_view_def xdrmblk_ops_def)
next
  fix s :: mblk_st and n and bs :: "byte list"
  assume s: "sv_winv xdrmblk_view s" and n: "n < 2 ^ 31" "n \<le> length bs"
  then obtain m rest where m: "mb_chain s = m # rest" "wok (mb_size s) (mb_done s) m rest (mb_alloc s)" "mb_handy s = of_nat (db_lim m - b_wptr m)"
    by (auto simp: xdrmblk_view_def winv_def split: list.splits)
  then show "\<exists>s'. x_putbytes (sv_ops xdrmblk_view) s bs (of_nat n) = Inr (n \<le> sv_room xdrmblk_view s, s') \<and> (n \<le> sv_room xdrmblk_view s \<longrightarrow>
      sv_winv xdrmblk_view s' \<and> sv_wr xdrmblk_view s' = sv_wr xdrmblk_view s @ take n bs \<and> sv_room xdrmblk_view s' = sv_room xdrmblk_view s - n)"
    using putbytes_loop_ok [OF m(2) n] by (simp add: xdrmblk_view_def xdrmblk_ops_def xdrmblk_putbytes_def room_def)
next
  fix s :: mblk_st
  assume "sv_rinv xdrmblk_view s"
  then obtain m rest where m: "mb_chain s = m # rest" "rok (mb_done s) (m # rest)" "mb_handy s = blk_left m" using rinv_chain [of s] by (auto simp: xdrmblk_view_def)
  show "\<exists>r s'. x_getlong (sv_ops xdrmblk_view) s = Inr (r, s') \<and> (r \<noteq> None \<longrightarrow> sv_rinv xdrmblk_view s') \<and>
      (4 dvd sv_rp xdrmblk_view s \<and> 4 \<le> length (sv_rd xdrmblk_view s) \<longrightarrow>
        r = Some (get4 (sv_rd xdrmblk_view s)) \<and> sv_rd xdrmblk_view s' = drop 4 (sv_rd xdrmblk_view s) \<and> sv_rp xdrmblk_view s' = sv_rp xdrmblk_view s + 4)"
    using getlong_loop_ok [OF m(2), of s] m by (auto simp: xdrmblk_view_def xdrmblk_ops_def xdrmblk_getlong_def rinv_def simp del: getlong_loop.simps)
next
  fix s :: mblk_st and n and buf :: "byte list"
  assume s: "sv_rinv xdrmblk_view s" and n: "n < 2 ^ 31" "n \<le> length buf"
  then obtain m rest where m: "mb_chain s = m # rest" "rok (mb_done s) (m # rest)" "mb_handy s = blk_left m" using rinv_chain [of s] by (auto simp: xdrmblk_view_def)
  show "\<exists>r buf' s'. x_getbytes (sv_ops xdrmblk_view) s buf (of_nat n) = Inr (r, buf', s') \<and> length buf' = length buf \<and> drop n buf' = drop n buf \<and>
      (r \<longrightarrow> sv_rinv xdrmblk_view s') \<and> (n \<le> length (sv_rd xdrmblk_view s) \<longrightarrow> r \<and> take n buf' = take n (sv_rd xdrmblk_view s) \<and>
        sv_rd xdrmblk_view s' = drop n (sv_rd xdrmblk_view s) \<and> sv_rp xdrmblk_view s' = sv_rp xdrmblk_view s + n)"
    using getbytes_loop_ok [OF m(2) n(1), of 0 buf s] n(2) m by (auto simp: xdrmblk_view_def xdrmblk_ops_def xdrmblk_getbytes_def rinv_def simp del: getbytes_loop.simps)
qed

end
