(* ===== verification/Xdr_Free.thy ===== *)
theory Xdr_Free
  imports Xdr_Mem
begin

text \<open>
  The memory that decoding allocates. Whether it succeeds or fails, freeing the object that it
  leaves gives back what has been allocated and not yet been given back, on every stream.
\<close>

section \<open>Allocated and freed\<close>

text \<open>For each size, how many more blocks of it have been allocated than freed.\<close>

fun bal :: "mem_call list \<Rightarrow> 32 word \<Rightarrow> int" where
  "bal [] n = 0"
| "bal (MemAlloc k # l) n = (if k = n then 1 else 0) + bal l n"
| "bal (MemFree k # l) n = (if k = n then - 1 else 0) + bal l n"

text \<open>Freeing the object \<open>v\<close> gives back \<open>d\<close>; it succeeds if \<open>r\<close>.\<close>

definition frees :: "('s, 'a) xdrproc \<Rightarrow> bool \<Rightarrow> 'a \<Rightarrow> (32 word \<Rightarrow> int) \<Rightarrow> bool" where
  "frees p r v d \<longleftrightarrow> (\<forall>y. x_op y = XDR_FREE \<longrightarrow>
     (\<exists>r' v' y'. p y v = Inr (r', v', y') \<and> x_op y' = XDR_FREE \<and> (r \<longrightarrow> r') \<and> (\<forall>n. bal (x_mem y') n = bal (x_mem y) n - d n)))"

text \<open>Freeing the clear object \<open>z\<close> gives back nothing; decoding into it, then freeing, what has been allocated.\<close>

definition balanced :: "'s xview \<Rightarrow> ('s, 'a) xdrproc \<Rightarrow> 'a \<Rightarrow> bool" where
  "balanced sv p z \<longleftrightarrow> frees p False z (\<lambda>_. 0) \<and>
     (\<forall>x. rready sv x \<longrightarrow> (\<exists>r v x'. p x z = Inr (r, v, x') \<and> x_op x' = XDR_DECODE \<and> (r \<longrightarrow> rready sv x')
        \<and> frees p r v (\<lambda>n. bal (x_mem x') n - bal (x_mem x) n)))"

lemma freesI:
  assumes "\<And>y. x_op y = XDR_FREE \<Longrightarrow> p y v = Inr (r' y, v' y, y' y)" "\<And>y. x_op y = XDR_FREE \<Longrightarrow> x_op (y' y) = XDR_FREE"
    "\<And>y. x_op y = XDR_FREE \<Longrightarrow> r \<Longrightarrow> r' y" "\<And>y n. x_op y = XDR_FREE \<Longrightarrow> bal (x_mem (y' y)) n = bal (x_mem y) n - d n"
  shows "frees p r v d"
  using assms unfolding frees_def by blast

lemma frees_none: "(\<And>y. x_op y = XDR_FREE \<Longrightarrow> \<exists>v'. p y v = Inr (True, v', y)) \<Longrightarrow> frees p r v (\<lambda>_. 0)"
  unfolding frees_def by fastforce

lemma frees_fail: "frees p True v d \<Longrightarrow> frees p r v d"
  unfolding frees_def by blast

lemma frees_cong: "frees p r v d \<Longrightarrow> (\<And>n. d n = d' n) \<Longrightarrow> frees p r v d'"
  by (simp add: frees_def)

context xdr_stream
begin

lemma balancedI:
  assumes "frees p False z (\<lambda>_. 0)"
    and "\<And>x. rready sv x \<Longrightarrow> \<exists>r v x'. p x z = Inr (r, v, x') \<and> x_op x' = XDR_DECODE \<and> (r \<longrightarrow> rready sv x')
        \<and> frees p r v (\<lambda>n. bal (x_mem x') n - bal (x_mem x) n)"
  shows "balanced sv p z"
  using assms by (simp add: balanced_def)

lemma outcome_balI:
  assumes "res = Inr (r, v, x')" "x_op x' = XDR_DECODE" "r \<Longrightarrow> rready sv x'" "frees p r v d" "\<And>n. d n = bal (x_mem x') n - bal (x_mem x) n"
  shows "\<exists>r v x'. res = Inr (r, v, x') \<and> x_op x' = XDR_DECODE \<and> (r \<longrightarrow> rready sv x') \<and> frees p r v (\<lambda>n. bal (x_mem x') n - bal (x_mem x) n)"
proof -
  have "frees p r v (\<lambda>n. bal (x_mem x') n - bal (x_mem x) n)" by (rule frees_cong [OF assms(4,5)])
  then show ?thesis using assms(1-3) by blast
qed

lemma balancedE:
  assumes "balanced sv p z" "rready sv x"
  obtains r v x' where "p x z = Inr (r, v, x')" "x_op x' = XDR_DECODE" "r \<longrightarrow> rready sv x'" "frees p r v (\<lambda>n. bal (x_mem x') n - bal (x_mem x) n)"
  using assms unfolding balanced_def by blast

text \<open>A filter that allocates nothing.\<close>

lemma balanced_flat:
  assumes free: "\<And>y v. x_op y = XDR_FREE \<Longrightarrow> p y v = Inr (True, v, y)"
    and dec: "\<And>x. rready sv x \<Longrightarrow> \<exists>r v x'. p x z = Inr (r, v, x') \<and> x_op x' = XDR_DECODE \<and> (r \<longrightarrow> rready sv x') \<and> x_mem x' = x_mem x"
  shows "balanced sv p z"
proof (rule balancedI)
  have f: "frees p r v (\<lambda>_. 0)" for r v by (rule frees_none) (simp add: free)
  show "frees p False z (\<lambda>_. 0)" by (rule f)
  fix x assume "rready sv x"
  from dec [OF this] obtain r v x' where "p x z = Inr (r, v, x')" "x_op x' = XDR_DECODE" "r \<longrightarrow> rready sv x'" "x_mem x' = x_mem x" by blast
  then show "\<exists>r v x'. p x z = Inr (r, v, x') \<and> x_op x' = XDR_DECODE \<and> (r \<longrightarrow> rready sv x') \<and> frees p r v (\<lambda>n. bal (x_mem x') n - bal (x_mem x) n)"
    using f by auto
qed

lemma GETLONG_mem:
  assumes "rready sv x"
  obtains l x' where "XDR_GETLONG x = Inr (l, x')" "x_op x' = XDR_DECODE" "l \<noteq> None \<longrightarrow> rready sv x'" "x_mem x' = x_mem x"
proof -
  from GETLONG [OF assms] obtain l x' where l: "XDR_GETLONG x = Inr (l, x')" "l \<noteq> None \<longrightarrow> rready sv x'" by blast
  then have "x_op x' = XDR_DECODE" "x_mem x' = x_mem x" using assms by (auto simp: XDR_GETLONG_def rready_def map_sum_Inr)
  then show ?thesis using that l by blast
qed

lemma balanced_getlong:
  assumes "\<And>x. x_op x = XDR_DECODE \<Longrightarrow> p x z = map_sum id (\<lambda>(r, x'). case r of None \<Rightarrow> (False, z, x') | Some l \<Rightarrow> (True, f l, x')) (XDR_GETLONG x)"
    and "\<And>y v. x_op y = XDR_FREE \<Longrightarrow> p y v = Inr (True, v, y)"
  shows "balanced sv p z"
proof (rule balanced_flat [OF assms(2)])
  fix x assume x: "rready sv x"
  from GETLONG_mem [OF this] obtain l x' where "XDR_GETLONG x = Inr (l, x')" "x_op x' = XDR_DECODE" "l \<noteq> None \<longrightarrow> rready sv x'" "x_mem x' = x_mem x" .
  then show "\<exists>r v x'. p x z = Inr (r, v, x') \<and> x_op x' = XDR_DECODE \<and> (r \<longrightarrow> rready sv x') \<and> x_mem x' = x_mem x"
    using assms(1) [of x] x by (cases l) (auto simp: rready_def)
qed

lemma balanced_longs:
  "balanced sv xdr_long z" "balanced sv xdr_u_long z" "balanced sv xdr_int z" "balanced sv xdr_u_int z" "balanced sv xdr_enum z"
  "balanced sv xdr_bool z" "balanced sv xdr_short y" "balanced sv xdr_u_short y"
  by (rule balanced_getlong, simp add: long_defs, simp add: long_defs)+

lemma balanced_char: "balanced sv xdr_char z"
proof (rule balanced_flat)
  fix x assume x: "rready sv x"
  from GETLONG_mem [OF this] obtain l x' where "XDR_GETLONG x = Inr (l, x')" "x_op x' = XDR_DECODE" "l \<noteq> None \<longrightarrow> rready sv x'" "x_mem x' = x_mem x" .
  then show "\<exists>r v x'. xdr_char x z = Inr (r, v, x') \<and> x_op x' = XDR_DECODE \<and> (r \<longrightarrow> rready sv x') \<and> x_mem x' = x_mem x"
    using x by (cases l) (auto simp: xdr_char_def long_defs rready_def)
qed (simp add: xdr_char_def long_defs short_long)

lemma balanced_hyper: "balanced sv xdr_longlong_t z"
proof (rule balanced_flat)
  fix x assume x: "rready sv x"
  from GETLONG_mem [OF this] obtain l x1 where x1: "XDR_GETLONG x = Inr (l, x1)" "x_op x1 = XDR_DECODE" "l \<noteq> None \<longrightarrow> rready sv x1" "x_mem x1 = x_mem x" .
  show "\<exists>r v x'. xdr_longlong_t x z = Inr (r, v, x') \<and> x_op x' = XDR_DECODE \<and> (r \<longrightarrow> rready sv x') \<and> x_mem x' = x_mem x"
  proof (cases l)
    case None
    then show ?thesis using x x1 by (auto simp: xdr_longlong_t_def rready_def)
  next
    case (Some h)
    then have "rready sv x1" using x1(3) by simp
    from GETLONG_mem [OF this] obtain k x2 where "XDR_GETLONG x1 = Inr (k, x2)" "x_op x2 = XDR_DECODE" "k \<noteq> None \<longrightarrow> rready sv x2" "x_mem x2 = x_mem x1" .
    then show ?thesis using x x1 Some by (cases k) (auto simp: xdr_longlong_t_def rready_def)
  qed
qed (simp add: xdr_longlong_t_def)

lemma GETBYTES_mem:
  assumes "rready sv x" "n < 2 ^ 31" "n \<le> length buf"
  obtains r buf' x' where "XDR_GETBYTES x buf (of_nat n) = Inr (r, buf', x')" "x_op x' = XDR_DECODE" "r \<longrightarrow> rready sv x'" "x_mem x' = x_mem x"
proof -
  from GETBYTES [OF assms] obtain r buf' x' where b: "XDR_GETBYTES x buf (of_nat n) = Inr (r, buf', x')" "r \<longrightarrow> rready sv x'" by blast
  then have "x_op x' = XDR_DECODE" "x_mem x' = x_mem x" using assms(1) by (auto simp: XDR_GETBYTES_def rready_def map_sum_Inr)
  then show ?thesis using that b by blast
qed

lemma opaque_mem:
  assumes x: "rready sv x" and n: "n < 2 ^ 31" "n \<le> length z"
  shows "\<exists>r v x'. xdr_opaque x z (of_nat n) = Inr (r, v, x') \<and> x_op x' = XDR_DECODE \<and> (r \<longrightarrow> rready sv x') \<and> x_mem x' = x_mem x"
proof (cases "n = 0")
  case True
  then show ?thesis using x by (auto simp: xdr_opaque_def rready_def)
next
  case False
  have r: "rndup_left (of_nat n) = of_nat (pad n)" "(of_nat n :: 32 word) \<noteq> 0" using rndup_left_pad of_nat_zero [of n] n False by simp_all
  from GETBYTES_mem [OF x n] obtain t b x1 where x1: "XDR_GETBYTES x z (of_nat n) = Inr (t, b, x1)" "x_op x1 = XDR_DECODE" "t \<longrightarrow> rready sv x1" "x_mem x1 = x_mem x" .
  show ?thesis
  proof (cases "t \<and> pad n \<noteq> 0")
    case True
    then have "rready sv x1" "pad n \<le> length (replicate 16 (0 :: byte))" using x1(3) pad_less [of n] by simp_all
    from GETBYTES_mem [OF this(1) pad_zero(3) this(2)] obtain t2 b2 x2 where "XDR_GETBYTES x1 (replicate 16 0) (of_nat (pad n)) = Inr (t2, b2, x2)"
      "x_op x2 = XDR_DECODE" "t2 \<longrightarrow> rready sv x2" "x_mem x2 = x_mem x1" .
    then show ?thesis using True x x1 r pad_zero(1) [of n] by (auto simp: xdr_opaque_def Let_def rready_def)
  next
    case False
    then show ?thesis using x x1 r pad_zero(1) [of n] by (cases t) (auto simp: xdr_opaque_def Let_def rready_def)
  qed
qed

lemma balanced_opaque: "n < 2 ^ 31 \<Longrightarrow> n \<le> length z \<Longrightarrow> balanced sv (\<lambda>x cp. xdr_opaque x cp (of_nat n)) z"
  by (rule balanced_flat, simp add: xdr_opaque_def Let_def, rule opaque_mem)

text \<open>Combinations.\<close>

lemma frees_via: "frees p r v d \<Longrightarrow> is (con v) \<Longrightarrow> sel (con v) = v \<Longrightarrow> frees (via is sel con p) r (con v) d"
  unfolding frees_def via_def by fastforce

lemma balanced_via:
  assumes p: "balanced sv p z" and c: "\<And>a. is (con a)" "\<And>a. sel (con a) = a"
  shows "balanced sv (via is sel con p) (con z)"
proof (rule balancedI)
  show "frees (via is sel con p) False (con z) (\<lambda>_. 0)" using p c by (simp add: balanced_def frees_via)
  fix x assume "rready sv x"
  from balancedE [OF p this] obtain r v x' where "p x z = Inr (r, v, x')" "x_op x' = XDR_DECODE" "r \<longrightarrow> rready sv x'"
    "frees p r v (\<lambda>n. bal (x_mem x') n - bal (x_mem x) n)" .
  then show "\<exists>r v x'. via is sel con p x (con z) = Inr (r, v, x') \<and> x_op x' = XDR_DECODE \<and> (r \<longrightarrow> rready sv x')
      \<and> frees (via is sel con p) r v (\<lambda>n. bal (x_mem x') n - bal (x_mem x) n)"
    using c frees_via [of p r v _ "is" con sel] by (auto simp: via_def)
qed

lemma frees_fields2:
  assumes p: "frees p t a d" and q: "frees q r b e" and t: "\<not> t \<Longrightarrow> \<not> r \<and> e = (\<lambda>_. 0)"
  shows "frees (fields2 p q) r (a, b) (\<lambda>n. d n + e n)"
  unfolding frees_def
proof (intro allI impI)
  fix y :: "'a XDR" assume y: "x_op y = XDR_FREE"
  obtain r1 a' y1 where y1: "p y a = Inr (r1, a', y1)" "x_op y1 = XDR_FREE" "t \<longrightarrow> r1" "\<forall>n. bal (x_mem y1) n = bal (x_mem y) n - d n"
    using p y unfolding frees_def by blast
  obtain r2 b' y2 where y2: "q y1 b = Inr (r2, b', y2)" "x_op y2 = XDR_FREE" "r \<longrightarrow> r2" "\<forall>n. bal (x_mem y2) n = bal (x_mem y1) n - e n"
    using q y1(2) unfolding frees_def by blast
  show "\<exists>r' v' y'. fields2 p q y (a, b) = Inr (r', v', y') \<and> x_op y' = XDR_FREE \<and> (r \<longrightarrow> r') \<and> (\<forall>n. bal (x_mem y') n = bal (x_mem y) n - (d n + e n))"
    using y1 y2 t by (cases r1) (auto simp: fields2_def)
qed

lemma balanced_fields2:
  assumes p: "balanced sv p y" and q: "balanced sv q z"
  shows "balanced sv (fields2 p q) (y, z)"
proof (rule balancedI)
  have z: "frees p False y (\<lambda>_. 0)" "frees q False z (\<lambda>_. 0)" using p q by (simp_all add: balanced_def)
  show "frees (fields2 p q) False (y, z) (\<lambda>_. 0)" using frees_fields2 [OF z] by simp
  fix x assume "rready sv x"
  from balancedE [OF p this] obtain t a x1 where x1: "p x y = Inr (t, a, x1)" "x_op x1 = XDR_DECODE" "t \<longrightarrow> rready sv x1"
    "frees p t a (\<lambda>n. bal (x_mem x1) n - bal (x_mem x) n)" .
  show "\<exists>r v x'. fields2 p q x (y, z) = Inr (r, v, x') \<and> x_op x' = XDR_DECODE \<and> (r \<longrightarrow> rready sv x') \<and> frees (fields2 p q) r v (\<lambda>n. bal (x_mem x') n - bal (x_mem x) n)"
  proof (cases t)
    case True
    then have "rready sv x1" using x1(3) by simp
    from balancedE [OF q this] obtain r b x2 where x2: "q x1 z = Inr (r, b, x2)" "x_op x2 = XDR_DECODE" "r \<longrightarrow> rready sv x2" "frees q r b (\<lambda>n. bal (x_mem x2) n - bal (x_mem x1) n)" .
    have "frees (fields2 p q) r (a, b) (\<lambda>n. bal (x_mem x2) n - bal (x_mem x) n)"
      using frees_fields2 [OF x1(4) x2(4)] True by simp
    then show ?thesis using x1(1) x2 True by (auto simp: fields2_def)
  next
    case False
    have "frees (fields2 p q) False (a, z) (\<lambda>n. bal (x_mem x1) n - bal (x_mem x) n)" using frees_fields2 [OF x1(4) z(2)] False by simp
    then show ?thesis using x1 False by (auto simp: fields2_def)
  qed
qed

lemma u_int_free: "x_op y = XDR_FREE \<Longrightarrow> xdr_u_int y n = Inr (True, n, y)" "x_op y = XDR_FREE \<Longrightarrow> xdr_enum y n = Inr (True, n, y)" "x_op y = XDR_FREE \<Longrightarrow> xdr_bool y n = Inr (True, n, y)"
  by (simp_all add: long_defs)

lemma u_int_decode:
  assumes "rready sv x"
  obtains t c x1 where "xdr_u_int x 0 = Inr (t, c, x1)" "x_op x1 = XDR_DECODE" "t \<longrightarrow> rready sv x1" "x_mem x1 = x_mem x"
proof -
  from GETLONG_mem [OF assms] obtain l x1 where "XDR_GETLONG x = Inr (l, x1)" "x_op x1 = XDR_DECODE" "l \<noteq> None \<longrightarrow> rready sv x1" "x_mem x1 = x_mem x" .
  then show ?thesis using that assms by (cases l) (auto simp: long_defs rready_def)
qed

lemma bytes_free:
  "frees (xdr_bytes junk m) r (None, n) (\<lambda>_. 0)" "frees (xdr_bytes junk m) r (Some bs, n) (\<lambda>k. if n = k then 1 else 0)"
  by (auto simp: frees_def xdr_bytes_def u_int_free mem_free_def)

lemma balanced_bytes:
  assumes m: "unat m < 2 ^ 31"
  shows "balanced sv (xdr_bytes junk m) (None, 0)"
proof (rule balancedI)
  show "frees (xdr_bytes junk m) False (None, 0) (\<lambda>_. 0)" by (rule bytes_free)
  fix x assume x: "rready sv x"
  from u_int_decode [OF this] obtain t c x1 where x1: "xdr_u_int x 0 = Inr (t, c, x1)" "x_op x1 = XDR_DECODE" "t \<longrightarrow> rready sv x1" "x_mem x1 = x_mem x" .
  show "\<exists>r v x'. xdr_bytes junk m x (None, 0) = Inr (r, v, x') \<and> x_op x' = XDR_DECODE \<and> (r \<longrightarrow> rready sv x') \<and> frees (xdr_bytes junk m) r v (\<lambda>n. bal (x_mem x') n - bal (x_mem x) n)"
  proof (cases "t \<and> c \<le> m \<and> c \<noteq> 0")
    case True
    let ?x2 = "x1\<lparr>x_mem := MemAlloc c # x_mem x1\<rparr>" and ?z = "map junk [0 ..< unat c]"
    have "unat c < 2 ^ 31" using True m by (auto simp: word_le_nat_alt)
    from opaque_mem [OF _ this, of ?x2 ?z] obtain r v x' where o: "xdr_opaque ?x2 ?z c = Inr (r, v, x')" "x_op x' = XDR_DECODE" "r \<longrightarrow> rready sv x'" "x_mem x' = x_mem ?x2"
      using x1(3) True by auto
    have "xdr_bytes junk m x (None, 0) = Inr (r, (Some v, c), x')" using True x1 o(1) by (simp add: xdr_bytes_def mem_alloc_def not_less)
    moreover have "frees (xdr_bytes junk m) r (Some v, c) (\<lambda>n. bal (x_mem x') n - bal (x_mem x) n)"
      by (rule frees_cong [OF bytes_free(2)]) (simp add: o(4) x1(4))
    ultimately show ?thesis using o by blast
  next
    case False
    then have r: "xdr_bytes junk m x (None, 0) = Inr (t \<and> c \<le> m, (None, c), x1)" using x1 by (cases t; cases "c \<le> m") (auto simp: xdr_bytes_def not_le)
    show ?thesis by (rule outcome_balI [OF r x1(2) _ bytes_free(1)]) (use x1 in auto)
  qed
qed

lemma string_free:
  "frees (xdr_string junk m) r None (\<lambda>_. 0)"
  "0 \<notin> set bs \<Longrightarrow> of_nat (length bs) \<le> m \<Longrightarrow> frees (xdr_string junk m) r (Some (bs @ [0])) (\<lambda>k. if of_nat (length bs) + 1 = k then 1 else 0)"
  by (auto simp: frees_def xdr_string_def u_int_free mem_free_def strlen_ended not_less)

lemma balanced_string:
  assumes m: "unat m < 2 ^ 31"
  shows "balanced sv (xdr_string junk m) None"
proof (rule balancedI)
  show "frees (xdr_string junk m) False None (\<lambda>_. 0)" by (rule string_free)
  fix x assume x: "rready sv x"
  from u_int_decode [OF this] obtain t c x1 where x1: "xdr_u_int x 0 = Inr (t, c, x1)" "x_op x1 = XDR_DECODE" "t \<longrightarrow> rready sv x1" "x_mem x1 = x_mem x" .
  show "\<exists>r v x'. xdr_string junk m x None = Inr (r, v, x') \<and> x_op x' = XDR_DECODE \<and> (r \<longrightarrow> rready sv x') \<and> frees (xdr_string junk m) r v (\<lambda>n. bal (x_mem x') n - bal (x_mem x) n)"
  proof (cases "t \<and> c \<le> m")
    case True
    define n where "n = unat c"
    have n: "c = of_nat n" "n < 2 ^ 31" using True m by (auto simp: n_def word_le_nat_alt)
    let ?z = "(map junk [0 ..< Suc n])[n := 0]" and ?x2 = "x1\<lparr>x_mem := MemAlloc (of_nat n + 1) # x_mem x1\<rparr>"
    have eq: "xdr_string junk m x None = xdr_string_decode junk None (of_nat n) x1" using x x1 True n(1) by (auto simp: xdr_string_def rready_def not_less [symmetric])
    obtain r v x' where o: "xdr_opaque ?x2 ?z (of_nat n) = Inr (r, v, x')" "x_op x' = XDR_DECODE" "r \<longrightarrow> rready sv x'" "x_mem x' = x_mem ?x2"
      using opaque_mem [of ?x2 n ?z] n(2) x1(3) True string_buffer(1) [OF n(2), of junk] by auto
    have safe: "decodes_safe sv (\<lambda>x cp. xdr_opaque x cp (of_nat n)) ?z (\<lambda>v. length v = Suc n \<and> drop n v = [0])"
      using safe_opaque [OF n(2), of ?z] string_buffer(2) [OF n(2), of junk] by simp
    have "rready sv ?x2" using x1(3) True by simp
    then have "outcome_safe (\<lambda>v. length v = Suc n \<and> drop n v = [0]) (xdr_opaque ?x2 ?z (of_nat n))" using safe unfolding decodes_safe_def by blast
    then have "r \<longrightarrow> length v = Suc n \<and> drop n v = [0]" unfolding o(1) by auto
    then obtain l where l: "r \<longrightarrow> strlen v = Inr l" "r \<and> l = of_nat n \<longrightarrow> (\<exists>bs. v = bs @ [0] \<and> 0 \<notin> set bs \<and> length bs = n)"
      using strlen_full [of v n] n(2) by fastforce
    show ?thesis
    proof (cases "r \<and> l = of_nat n")
      case True
      then obtain bs where bs: "v = bs @ [0]" "0 \<notin> set bs" "length bs = n" using l(2) by blast
      have "frees (xdr_string junk m) True (Some v) (\<lambda>k. bal (x_mem x') k - bal (x_mem x) k)"
        unfolding bs(1) by (rule frees_cong [OF string_free(2) [OF bs(2)]]) (use bs(3) n(1) \<open>t \<and> c \<le> m\<close> o(4) x1(4) in simp_all)
      then show ?thesis using eq string_decode_eq [OF n(2) o(1) l(1)] True o by auto
    next
      case False
      have "bal (x_mem (mem_free (of_nat n + 1) x')) k = bal (x_mem x) k" for k using o(4) x1(4) by (simp add: mem_free_def)
      then show ?thesis using eq string_decode_eq [OF n(2) o(1) l(1)] False o string_free(1) [of junk m] by (auto simp: mem_free_def)
    qed
  next
    case False
    then have "xdr_string junk m x None = Inr (False, None, x1)" using x x1 by (cases t) (auto simp: xdr_string_def rready_def not_le)
    then show ?thesis using x1 string_free(1) [of junk m] by auto
  qed
qed

text \<open>Arrays.\<close>

lemma loop_fields2: "array_loop p (Suc n) x (t # ts) = map_sum id (\<lambda>(r, ab, x'). (r, fst ab # snd ab, x')) (fields2 p (\<lambda>x ts. array_loop p n x ts) x (t, ts))"
proof (cases "p x t")
  case (Inr a)
  obtain r t' x1 where "a = (r, t', x1)" by (cases a) auto
  then show ?thesis using Inr by (cases r) (simp_all add: fields2_def map_sum_comp split_def)
qed (simp add: fields2_def)

lemma frees_loop_Cons: "frees (fields2 p (\<lambda>x ts. array_loop p n x ts)) r (t, ts) d \<Longrightarrow> frees (\<lambda>x ts. array_loop p (Suc n) x ts) r (t # ts) d"
  unfolding frees_def loop_fields2 by fastforce

lemma balanced_loop:
  assumes p: "balanced sv p z"
  shows "balanced sv (\<lambda>x ts. array_loop p n x ts) (replicate n z)"
proof (induction n)
  case 0
  show ?case by (rule balanced_flat) (auto simp: rready_def)
next
  case (Suc n)
  have b: "balanced sv (fields2 p (\<lambda>x ts. array_loop p n x ts)) (z, replicate n z)" by (rule balanced_fields2 [OF p Suc])
  show ?case
  proof (rule balancedI)
    show "frees (\<lambda>x ts. array_loop p (Suc n) x ts) False (replicate (Suc n) z) (\<lambda>_. 0)"
      using frees_loop_Cons [of p n False z "replicate n z"] b by (simp add: balanced_def del: array_loop.simps)
    fix x assume "rready sv x"
    from balancedE [OF b this] obtain r v x' where v: "fields2 p (\<lambda>x ts. array_loop p n x ts) x (z, replicate n z) = Inr (r, v, x')" "x_op x' = XDR_DECODE" "r \<longrightarrow> rready sv x'"
      "frees (fields2 p (\<lambda>x ts. array_loop p n x ts)) r v (\<lambda>n. bal (x_mem x') n - bal (x_mem x) n)" .
    obtain a as where "v = (a, as)" by (cases v)
    then show "\<exists>r v x'. array_loop p (Suc n) x (replicate (Suc n) z) = Inr (r, v, x') \<and> x_op x' = XDR_DECODE \<and> (r \<longrightarrow> rready sv x')
        \<and> frees (\<lambda>x ts. array_loop p (Suc n) x ts) r v (\<lambda>n. bal (x_mem x') n - bal (x_mem x) n)"
      using v frees_loop_Cons [of p n r a as] by (auto simp: loop_fields2 simp del: array_loop.simps)
  qed
qed

lemma array_free:
  "frees (xdr_array es z p m) r (None, c) (\<lambda>_. 0)"
  "frees (\<lambda>x ts. array_loop p (unat c) x ts) r vs d \<Longrightarrow> frees (xdr_array es z p m) r (Some vs, c) (\<lambda>k. (if c * es = k then 1 else 0) + d k)"
proof -
  show "frees (xdr_array es z p m) r (None, c) (\<lambda>_. 0)" by (auto simp: frees_def xdr_array_def u_int_free)
  assume d: "frees (\<lambda>x ts. array_loop p (unat c) x ts) r vs d"
  show "frees (xdr_array es z p m) r (Some vs, c) (\<lambda>k. (if c * es = k then 1 else 0) + d k)"
    unfolding frees_def
  proof (intro allI impI)
    fix y :: "'a XDR" assume y: "x_op y = XDR_FREE"
    obtain r' v' y' where l: "array_loop p (unat c) y vs = Inr (r', v', y')" "x_op y' = XDR_FREE" "r \<longrightarrow> r'" "\<forall>n. bal (x_mem y') n = bal (x_mem y) n - d n"
      using d y unfolding frees_def by blast
    have "xdr_array es z p m y (Some vs, c) = Inr (r', (None, c), mem_free (c * es) y')" using y l by (simp add: xdr_array_def u_int_free)
    then show "\<exists>r' v' y'. xdr_array es z p m y (Some vs, c) = Inr (r', v', y') \<and> x_op y' = XDR_FREE \<and> (r \<longrightarrow> r')
        \<and> (\<forall>n. bal (x_mem y') n = bal (x_mem y) n - ((if c * es = n then 1 else 0) + d n))"
      using l by (auto simp: mem_free_def)
  qed
qed

lemma balanced_array:
  assumes m: "es > 0" "unat m * unat es < 2 ^ 32" and p: "balanced sv p z"
  shows "balanced sv (xdr_array es z p m) (None, 0)"
proof (rule balancedI)
  show "frees (xdr_array es z p m) False (None, 0) (\<lambda>_. 0)" by (rule array_free)
  fix x assume x: "rready sv x"
  from u_int_decode [OF this] obtain t c x1 where x1: "xdr_u_int x 0 = Inr (t, c, x1)" "x_op x1 = XDR_DECODE" "t \<longrightarrow> rready sv x1" "x_mem x1 = x_mem x" .
  show "\<exists>r v x'. xdr_array es z p m x (None, 0) = Inr (r, v, x') \<and> x_op x' = XDR_DECODE \<and> (r \<longrightarrow> rready sv x') \<and> frees (xdr_array es z p m) r v (\<lambda>n. bal (x_mem x') n - bal (x_mem x) n)"
  proof (cases "t \<and> c \<le> m \<and> c \<noteq> 0")
    case True
    let ?x2 = "x1\<lparr>x_mem := MemAlloc (c * es) # x_mem x1\<rparr>"
    have f: "unat (c * es) div unat es = unat c" by (rule array_fits [OF m]) (use True in blast)
    have "rready sv ?x2" using x1(3) True by simp
    from balancedE [OF balanced_loop [OF p, of "unat c"] this] obtain r vs x' where o: "array_loop p (unat c) ?x2 (replicate (unat c) z) = Inr (r, vs, x')" "x_op x' = XDR_DECODE"
      "r \<longrightarrow> rready sv x'" "frees (\<lambda>x ts. array_loop p (unat c) x ts) r vs (\<lambda>n. bal (x_mem x') n - bal (x_mem ?x2) n)" .
    have eq: "xdr_array es z p m x (None, 0) = Inr (r, (Some vs, c), x')" using True x1 o(1,2) f by (simp add: xdr_array_def not_less)
    show ?thesis by (rule outcome_balI [OF eq o(2) _ array_free(2) [OF o(4)]]) (use o(3) x1(4) in auto)
  next
    case False
    then have r: "xdr_array es z p m x (None, 0) = Inr (t \<and> c \<le> m, (None, c), x1)" using x1 by (cases t; cases "c \<le> m") (auto simp: xdr_array_def not_le)
    show ?thesis by (rule outcome_balI [OF r x1(2) _ array_free(1)]) (use x1 in auto)
  qed
qed

text \<open>Pointers.\<close>

lemma pointer_free:
  "frees (xdr_pointer sz z p) r None (\<lambda>_. 0)"
  "frees p r v d \<Longrightarrow> frees (xdr_pointer sz z p) r (Some v) (\<lambda>k. (if sz = k then 1 else 0) + d k)"
proof -
  show "frees (xdr_pointer sz z p) r None (\<lambda>_. 0)" by (auto simp: frees_def xdr_pointer_def u_int_free)
  assume d: "frees p r v d"
  show "frees (xdr_pointer sz z p) r (Some v) (\<lambda>k. (if sz = k then 1 else 0) + d k)"
    unfolding frees_def
  proof (intro allI impI)
    fix y :: "'a XDR" assume y: "x_op y = XDR_FREE"
    obtain r' v' y' where l: "p y v = Inr (r', v', y')" "x_op y' = XDR_FREE" "r \<longrightarrow> r'" "\<forall>n. bal (x_mem y') n = bal (x_mem y) n - d n"
      using d y unfolding frees_def by blast
    have "xdr_pointer sz z p y (Some v) = Inr (r', None, mem_free sz y')" using y l by (simp add: xdr_pointer_def xdr_reference_def u_int_free)
    then show "\<exists>r' v' y'. xdr_pointer sz z p y (Some v) = Inr (r', v', y') \<and> x_op y' = XDR_FREE \<and> (r \<longrightarrow> r')
        \<and> (\<forall>n. bal (x_mem y') n = bal (x_mem y) n - ((if sz = n then 1 else 0) + d n))"
      using l by (auto simp: mem_free_def)
  qed
qed

lemma balanced_pointer:
  assumes p: "balanced sv p z"
  shows "balanced sv (xdr_pointer sz z p) None"
proof (rule balancedI)
  show "frees (xdr_pointer sz z p) False None (\<lambda>_. 0)" by (rule pointer_free)
  fix x assume x: "rready sv x"
  from GETLONG_mem [OF x] obtain l x1 where x1: "XDR_GETLONG x = Inr (l, x1)" "x_op x1 = XDR_DECODE" "l \<noteq> None \<longrightarrow> rready sv x1" "x_mem x1 = x_mem x" .
  show "\<exists>r v x'. xdr_pointer sz z p x None = Inr (r, v, x') \<and> x_op x' = XDR_DECODE \<and> (r \<longrightarrow> rready sv x') \<and> frees (xdr_pointer sz z p) r v (\<lambda>n. bal (x_mem x') n - bal (x_mem x) n)"
  proof (cases "l = None \<or> l = Some 0")
    case True
    then have r: "xdr_pointer sz z p x None = Inr (l \<noteq> None, None, x1)"
      using x x1 by (cases l) (auto simp: xdr_pointer_def xdr_bool_def rready_def XDR_FALSE_def)
    show ?thesis by (rule outcome_balI [OF r x1(2) _ pointer_free(1)]) (use x1 in auto)
  next
    case False
    let ?x2 = "x1\<lparr>x_mem := MemAlloc sz # x_mem x1\<rparr>"
    have "rready sv ?x2" using x1(3) False by simp
    from balancedE [OF p this] obtain r v x' where o: "p ?x2 z = Inr (r, v, x')" "x_op x' = XDR_DECODE" "r \<longrightarrow> rready sv x'" "frees p r v (\<lambda>n. bal (x_mem x') n - bal (x_mem ?x2) n)" .
    have eq: "xdr_pointer sz z p x None = Inr (r, Some v, x')"
      using False x x1 o(1) by (cases l) (auto simp: xdr_pointer_def xdr_bool_def xdr_reference_def rready_def XDR_FALSE_def)
    show ?thesis by (rule outcome_balI [OF eq o(2) _ pointer_free(2) [OF o(4)]]) (use o(3) x1(4) in auto)
  qed
qed

text \<open>Unions.\<close>

lemma union_free:
  "pick cs df d = None \<Longrightarrow>
   frees (xdr_union (map (map_prod id (\<lambda>t. arm (zero_val t) (xdr_ty junk t))) cs) (map_option (\<lambda>t. arm (zero_val t) (xdr_ty junk t)) df)) False (d, u) (\<lambda>_. 0)"
  "pick cs df d = Some t \<Longrightarrow> frees (xdr_ty junk t :: ('s, xval) xdrproc) r (case u of None \<Rightarrow> zero_val t | Some a \<Rightarrow> a) e \<Longrightarrow>
   frees (xdr_union (map (map_prod id (\<lambda>t. arm (zero_val t) (xdr_ty junk t))) cs) (map_option (\<lambda>t. arm (zero_val t) (xdr_ty junk t :: ('s, xval) xdrproc)) df)) r (d, u) e"
proof -
  show "frees (xdr_union (map (map_prod id (\<lambda>t. arm (zero_val t) (xdr_ty junk t))) cs) (map_option (\<lambda>t. arm (zero_val t) (xdr_ty junk t)) df)) False (d, u) (\<lambda>_. 0)"
    if "pick cs df d = None" using that by (auto simp: frees_def union_eq u_int_free)
  assume t: "pick cs df d = Some t" and f: "frees (xdr_ty junk t :: ('s, xval) xdrproc) r (case u of None \<Rightarrow> zero_val t | Some a \<Rightarrow> a) e"
  show "frees (xdr_union (map (map_prod id (\<lambda>t. arm (zero_val t) (xdr_ty junk t))) cs) (map_option (\<lambda>t. arm (zero_val t) (xdr_ty junk t :: ('s, xval) xdrproc)) df)) r (d, u) e"
    unfolding frees_def union_eq
  proof (intro allI impI)
    fix y :: "'s XDR" assume y: "x_op y = XDR_FREE"
    then obtain r' v' y' where "xdr_ty junk t y (case u of None \<Rightarrow> zero_val t | Some a \<Rightarrow> a) = Inr (r', v', y')" "x_op y' = XDR_FREE" "r \<longrightarrow> r'"
      "\<forall>n. bal (x_mem y') n = bal (x_mem y) n - e n" using f unfolding frees_def by blast
    then show "\<exists>r' v' y'. (case xdr_enum y d of Inl f \<Rightarrow> Inl f | Inr (False, d', x1) \<Rightarrow> Inr (False, (d', u), x1) | Inr (True, d', x1) \<Rightarrow>
        (case pick cs df d' of None \<Rightarrow> Inr (False, (d', u), x1)
         | Some t \<Rightarrow> map_sum id (\<lambda>(r, w, x2). (r, (d', Some w), x2)) (xdr_ty junk t x1 (case u of None \<Rightarrow> zero_val t | Some a \<Rightarrow> a)))) = Inr (r', v', y')
        \<and> x_op y' = XDR_FREE \<and> (r \<longrightarrow> r') \<and> (\<forall>n. bal (x_mem y') n = bal (x_mem y) n - e n)"
      using y t by (simp add: u_int_free)
  qed
qed

lemma balanced_union:
  assumes p: "\<And>d t. pick cs df d = Some t \<Longrightarrow> balanced sv (xdr_ty junk t) (zero_val t)"
  shows "balanced sv (xdr_union (map (map_prod id (\<lambda>t. arm (zero_val t) (xdr_ty junk t))) cs) (map_option (\<lambda>t. arm (zero_val t) (xdr_ty junk t)) df)) (0, None)"
    (is "balanced sv ?u _")
proof (rule balancedI)
  have z: "frees ?u False (d, None) (\<lambda>_. 0)" for d
  proof (cases "pick cs df d")
    case None
    then show ?thesis by (rule union_free)
  next
    case (Some t)
    have "frees (xdr_ty junk t :: ('s, xval) xdrproc) False (zero_val t) (\<lambda>_. 0)" using p [OF Some] by (simp add: balanced_def)
    then show ?thesis by (intro union_free(2) [OF Some]) simp
  qed
  show "frees ?u False (0, None) (\<lambda>_. 0)" by (rule z)
  fix x assume x: "rready sv x"
  from GETLONG_mem [OF x] obtain l x1 where x1: "XDR_GETLONG x = Inr (l, x1)" "x_op x1 = XDR_DECODE" "l \<noteq> None \<longrightarrow> rready sv x1" "x_mem x1 = x_mem x" .
  show "\<exists>r v x'. ?u x (0, None) = Inr (r, v, x') \<and> x_op x' = XDR_DECODE \<and> (r \<longrightarrow> rready sv x') \<and> frees ?u r v (\<lambda>n. bal (x_mem x') n - bal (x_mem x) n)"
  proof (cases l)
    case None
    then have eq: "?u x (0, None) = Inr (False, (0, None), x1)" using x x1 by (simp add: union_eq long_defs rready_def)
    show ?thesis by (rule outcome_balI [OF eq x1(2) _ z]) (use x1 in auto)
  next
    case (Some d)
    have e: "xdr_enum x 0 = Inr (True, d, x1)" using Some x x1 by (simp add: long_defs rready_def)
    show ?thesis
    proof (cases "pick cs df d")
      case None
      then have eq: "?u x (0, None) = Inr (False, (d, None), x1)" using e by (simp add: union_eq)
      show ?thesis by (rule outcome_balI [OF eq x1(2) _ z]) (use x1 in auto)
    next
      case t: (Some t)
      have "rready sv x1" using x1(3) Some by simp
      from balancedE [OF p [OF t] this] obtain r v x' where o: "xdr_ty junk t x1 (zero_val t) = Inr (r, v, x')" "x_op x' = XDR_DECODE" "r \<longrightarrow> rready sv x'"
        "frees (xdr_ty junk t :: ('s, xval) xdrproc) r v (\<lambda>n. bal (x_mem x') n - bal (x_mem x1) n)" .
      have eq: "?u x (0, None) = Inr (r, (d, Some v), x')" using e t o(1) by (simp add: union_eq)
      have f: "frees ?u r (d, Some v) (\<lambda>n. bal (x_mem x') n - bal (x_mem x1) n)" by (rule union_free(2) [OF t]) (use o(4) in simp)
      show ?thesis by (rule outcome_balI [OF eq o(2) _ f]) (use o(3) x1(4) in auto)
    qed
  qed
qed

lemma balanced_vias:
  "balanced sv p1 z1 \<Longrightarrow> balanced sv (via is_long v_long VLong p1) (VLong z1)" "balanced sv p2 z2 \<Longrightarrow> balanced sv (via is_short v_short VShort p2) (VShort z2)"
  "balanced sv p3 z3 \<Longrightarrow> balanced sv (via is_char v_char VChar p3) (VChar z3)" "balanced sv p4 z4 \<Longrightarrow> balanced sv (via is_hyper v_hyper VHyper p4) (VHyper z4)"
  "balanced sv p5 z5 \<Longrightarrow> balanced sv (via is_opaque v_opaque VOpaque p5) (VOpaque z5)" "balanced sv p6 z6 \<Longrightarrow> balanced sv (via is_bytes v_bytes VBytes p6) (VBytes z6)"
  "balanced sv p7 z7 \<Longrightarrow> balanced sv (via is_string v_string VString p7) (VString z7)" "balanced sv p8 z8 \<Longrightarrow> balanced sv (via is_array v_array VArray p8) (VArray z8)"
  "balanced sv p9 z9 \<Longrightarrow> balanced sv (via is_ptr v_ptr VPtr p9) (VPtr z9)" "balanced sv p10 z10 \<Longrightarrow> balanced sv (via is_pair v_pair VPair p10) (VPair z10)"
  "balanced sv p11 z11 \<Longrightarrow> balanced sv (via is_union v_union VUnion p11) (VUnion z11)"
  by (erule balanced_via, simp, simp)+

lemma ty_balanced: "sane t \<Longrightarrow> balanced sv (xdr_ty junk t) (zero_val t)"
proof (induction t)
  case TVoid
  show ?case unfolding zero_val.simps xdr_ty.simps by (rule balanced_flat) (auto simp: xdr_void_def rready_def)
next
  case (TUnion cs df)
  have "balanced sv (xdr_ty junk t) (zero_val t)" if "pick cs df d = Some t" for d t
  proof -
    have "sane t" using pick_in [OF that] TUnion.prems(1) by auto
    then show ?thesis using pick_in [OF that] TUnion.IH by (auto simp: snds.simps)
  qed
  then show ?case unfolding zero_val.simps xdr_ty.simps by (intro balanced_vias balanced_union)
qed (simp_all add: u_longlong balanced_vias balanced_longs balanced_char balanced_hyper balanced_opaque balanced_bytes balanced_string balanced_pointer balanced_array balanced_fields2)

lemma decode_free:
  assumes "sane t" "rready sv x" "x_mem x = []"
  shows "\<exists>r v x' v' y. xdr_ty junk t x (zero_val t) = Inr (r, v, x') \<and> xdr_free (xdr_ty junk t) x' v = Inr (v', y) \<and> (\<forall>n. bal (x_mem y) n = 0)"
proof -
  from balancedE [OF ty_balanced [OF assms(1), of junk] assms(2)] obtain r v x' where v: "xdr_ty junk t x (zero_val t) = Inr (r, v, x')"
    "frees (xdr_ty junk t :: ('s, xval) xdrproc) r v (\<lambda>n. bal (x_mem x') n - bal (x_mem x) n)" .
  obtain r' v' y where "xdr_ty junk t (x'\<lparr>x_op := XDR_FREE\<rparr>) v = Inr (r', v', y)" "\<forall>n. bal (x_mem y) n = bal (x_mem x') n - (bal (x_mem x') n - bal (x_mem x) n)"
    using v(2) [unfolded frees_def, rule_format, of "x'\<lparr>x_op := XDR_FREE\<rparr>"] by auto
  then show ?thesis using v(1) assms(3) by (auto simp: xdr_free_def)
qed

end

end
