(* ===== verification/Xdr_Props.thy ===== *)
theory Xdr_Props
  imports Xdr_Mblk_Inv Xdr_Free
begin

text \<open>
  XDR on both kinds of stream. The properties are those of the locale \<open>xdr_stream\<close> at its two interpretations.
\<close>

section \<open>Handles to start with\<close>

lemma create_wready:
  assumes "length mem < 2 ^ 31" "x = xdrmem_create mem addr (of_nat (length mem)) XDR_ENCODE"
  shows "wready xdrmem_view x" "sv_room xdrmem_view (x_st x) = length mem" "sv_wr xdrmem_view (x_st x) = []"
  using assms by (simp_all add: wready_def xdrmem_create_def xdrmem_view_def mm_inv_def)

lemma create_rready:
  assumes "n < 2 ^ 31" "n \<le> length mem" "length mem < 2 ^ 32" "x = xdrmem_create mem addr (of_nat n) XDR_DECODE"
  shows "rready xdrmem_view x" "sv_rp xdrmem_view (x_st x) = 0" "sv_rd xdrmem_view (x_st x) = take n mem"
  using assms by (simp_all add: rready_def xdrmem_create_def xdrmem_view_def mm_inv_def)

text \<open>A chain to write to, the first block from its start, and one to read from.\<close>

definition wchain :: "int \<Rightarrow> dblk list \<Rightarrow> alloc_event list \<Rightarrow> bool" where
  "wchain sz ms es \<longleftrightarrow> ms \<noteq> [] \<and> (\<forall>b \<in> set ms. fresh b) \<and> b_rptr (hd ms) = 0 \<and> events_ok sz es"

definition rchain :: "dblk list \<Rightarrow> bool" where
  "rchain ms \<longleftrightarrow> ms \<noteq> [] \<and> (\<forall>b \<in> set ms. blk_ok b \<and> 4 dvd b_rptr b \<and> 4 dvd b_wptr b - b_rptr b)"

lemma init_wready:
  assumes "wchain sz ms es"
  shows "\<exists>x. xdrmblk_init ms XDR_ENCODE sz es = Inr x \<and> wready xdrmblk_view x \<and> sv_wr xdrmblk_view (x_st x) = [] \<and> sv_room xdrmblk_view (x_st x) = more sz ms es"
proof (cases ms)
  case (Cons m rest)
  have b: "chain_bytes rest = []" "blk_bytes m = []" using assms Cons fresh_bytes [of rest] fresh_bytes [of "[m]"] by (auto simp: wchain_def)
  then show ?thesis
    using assms Cons by (auto simp: wchain_def xdrmblk_init_def wready_def xdrmblk_view_def winv_def wok_def fresh_def room_def more_def)
qed (use assms in \<open>simp add: wchain_def\<close>)

lemma init_rready:
  assumes "rchain ms"
  shows "\<exists>x. xdrmblk_init ms XDR_DECODE sz es = Inr x \<and> rready xdrmblk_view x \<and> 4 dvd sv_rp xdrmblk_view (x_st x) \<and> sv_rd xdrmblk_view (x_st x) = chain_bytes ms"
proof (cases ms)
  case (Cons m rest)
  have r: "4 dvd rps ms" if "\<forall>b \<in> set ms. 4 dvd b_rptr b" for ms using that by (induction ms) auto
  have a: "4 dvd rps (m # rest)" "4 dvd b_wptr m - b_rptr m" using assms Cons r [of ms] by (auto simp: rchain_def)
  then have "4 dvd rps (m # rest) + (b_wptr m - b_rptr m)" by (rule dvd_add)
  then show ?thesis
    using assms Cons a by (auto simp: rchain_def xdrmblk_init_def rready_def xdrmblk_view_def rinv_def rok_def)
qed (use assms in \<open>simp add: rchain_def\<close>)

section \<open>Properties\<close>

definition demo_ty :: xty where
  "demo_ty = TPair TInt (TPair (TString 16) (TPair (TArray TShort 2 8) (TUnion [(0, TVoid), (7, THyper)] None)))"

definition demo_val :: xval where
  "demo_val = VPair (VLong 5, VPair (VString (Some [104, 105, 0]), VPair (VArray (Some [VShort 1, VShort 65535], 2), VUnion (7, Some (VHyper 9)))))"

lemma demo_typed: "sane demo_ty" "wt demo_ty demo_val"
  by (simp_all add: demo_ty_def demo_val_def pick_def)

lemma demo_bytes: "length (enc demo_ty demo_val) = 36"
  by (simp add: demo_ty_def demo_val_def pick_def pad_def Let_def)

text \<open>
  C8: A value of an XDR type that is written to a memory buffer of less than \<open>2\<^sup>3\<^sup>1\<close> bytes is read back from it.
  The type has bounds that the code can keep (\<open>sane\<close>): byte strings of less than \<open>2\<^sup>3\<^sup>1\<close> bytes, and arrays
  whose memory does not wrap around 32 bits; this excludes unbounded ones. Encoding
  succeeds exactly when the bytes of the XDR standard fit in the buffer; decoding the buffer into a
  cleared object then gives the
  same value, allocating what it needs, and stops at the byte after the last one written. Neither faults.
\<close>

theorem xdrmem_roundtrip:
  assumes "sane t" "wt t v" "length mem < 2 ^ 31"
  shows "\<exists>x. xdr_ty junk t (xdrmem_create mem addr (of_nat (length mem)) XDR_ENCODE) v = Inr (length (enc t v) \<le> length mem, v, x)
    \<and> (length (enc t v) \<le> length mem \<longrightarrow> take (length (enc t v)) (mm_buf (x_st x)) = enc t v
         \<and> (\<exists>y. xdr_ty junk' t (xdrmem_create (mm_buf (x_st x)) addr' (of_nat (length mem)) XDR_DECODE) (zero_val t) = Inr (True, v, y)
              \<and> xdrmem_getpos XDR_DECODE (x_st y) = Inr (of_nat (length (enc t v)))))"
proof -
  define w where "w = xdrmem_create mem addr (of_nat (length mem)) XDR_ENCODE"
  note w = create_wready [OF assms(3) w_def]
  obtain x where x: "xdr_ty junk t w v = Inr (length (enc t v) \<le> length mem, v, x)" "length (enc t v) \<le> length mem \<longrightarrow> wready xdrmem_view x
      \<and> sv_wr xdrmem_view (x_st x) = enc t v \<and> sv_room xdrmem_view (x_st x) = length mem - length (enc t v)"
    using xmem.ty_encodes [OF assms(1,2), of junk] w unfolding encodes_def by (metis append_Nil)
  have "\<exists>y. xdr_ty junk' t (xdrmem_create (mm_buf (x_st x)) addr' (of_nat (length mem)) XDR_DECODE) (zero_val t) = Inr (True, v, y)
      \<and> xdrmem_getpos XDR_DECODE (x_st y) = Inr (of_nat (length (enc t v)))"
    and t: "take (length (enc t v)) (mm_buf (x_st x)) = enc t v" if le: "length (enc t v) \<le> length mem"
  proof -
    let ?b = "mm_buf (x_st x)"
    have i: "mm_inv (x_st x)" "take (mm_off (x_st x)) ?b = enc t v" "unat (x_handy (x_st x)) = length mem - length (enc t v)"
      using x(2) le by (simp_all add: wready_def xdrmem_view_def)
    then have o: "mm_off (x_st x) = length (enc t v)" by (metis add_leD1 length_take min_absorb2 mm_inv_def)
    then show "take (length (enc t v)) ?b = enc t v" using i(2) by simp
    have b: "length mem \<le> length ?b" "length ?b < 2 ^ 32" using i o le by (auto simp: mm_inv_def)
    define r where "r = xdrmem_create ?b addr' (of_nat (length mem)) XDR_DECODE"
    note r = create_rready [OF assms(3) b r_def]
    have "sv_rd xdrmem_view (x_st r) = enc t v @ drop (length (enc t v)) (take (length mem) ?b)"
      using i(2) o le r(3) by (metis append_take_drop_id min_absorb1 take_take)
    then obtain y where y: "xdr_ty junk' t r (zero_val t) = Inr (True, v, y)" "sv_rp xdrmem_view (x_st y) = length (enc t v)"
      using xmem.ty_decodes [OF assms(1,2), of junk'] r(1,2) unfolding decodes_def by fastforce
    then have "x_private (x_st y) - x_base (x_st y) = of_nat (length (enc t v))" by (simp add: xdrmem_view_def flip: y(2))
    then show "\<exists>y. xdr_ty junk' t (xdrmem_create ?b addr' (of_nat (length mem)) XDR_DECODE) (zero_val t) = Inr (True, v, y)
        \<and> xdrmem_getpos XDR_DECODE (x_st y) = Inr (of_nat (length (enc t v)))"
      using y(1) by (auto simp: r_def xdrmem_getpos_def)
  qed
  then show ?thesis using x(1) w_def by blast
qed

theorem xdrmem_roundtrip_witness:
  "\<exists>x. xdr_ty (\<lambda>_. 170) demo_ty (xdrmem_create (replicate 64 0) 4096 (of_nat (length (replicate 64 (0 :: byte)))) XDR_ENCODE) demo_val = Inr (True, demo_val, x)
    \<and> (\<exists>y. xdr_ty (\<lambda>_. 85) demo_ty (xdrmem_create (mm_buf (x_st x)) 8192 (of_nat (length (replicate 64 (0 :: byte)))) XDR_DECODE) (zero_val demo_ty) = Inr (True, demo_val, y)
         \<and> xdrmem_getpos XDR_DECODE (x_st y) = Inr 36)"
proof -
  have l: "length (replicate 64 (0 :: byte)) < 2 ^ 31" by simp
  have le: "length (enc demo_ty demo_val) \<le> length (replicate 64 (0 :: byte))" by (simp add: demo_bytes)
  show ?thesis using xdrmem_roundtrip [OF demo_typed l, of "\<lambda>_. 170" 4096 "\<lambda>_. 85" 8192] le by (simp only: demo_bytes) auto
qed

text \<open>
  C9: Decoding untrusted bytes is safe. Over any memory whatever, the filter of a type with bounds in
  order never leaves the buffer or the memory that it has allocated, and when it succeeds the object
  is a value of the type: counts agree with the memory that is there and are within the bounds,
  strings end, the arm of a union is that of its discriminant.
\<close>

theorem xdrmem_decode_typed:
  assumes "sane t" "length mem < 2 ^ 31"
  shows "\<exists>r v x. xdr_ty junk t (xdrmem_create mem addr (of_nat (length mem)) XDR_DECODE) (zero_val t) = Inr (r, v, x) \<and> (r \<longrightarrow> wt t v)"
proof -
  have "rready xdrmem_view (xdrmem_create mem addr (of_nat (length mem)) XDR_DECODE)"
    by (rule create_rready(1) [OF assms(2) order_refl _ refl]) (use assms(2) in simp)
  then show ?thesis using xmem.ty_safe [OF assms(1), of junk] unfolding decodes_safe_def by blast
qed

theorem xdrmem_decode_typed_witness:
  "sane demo_ty \<and> (\<exists>r v x. xdr_ty (\<lambda>_. 170) demo_ty (xdrmem_create [0, 0, 0, 5, 255, 255, 255, 255] 4096 (of_nat (length [0, 0, 0, 5, 255, 255, 255, 255 :: byte])) XDR_DECODE)
     (zero_val demo_ty) = Inr (r, v, x) \<and> (r \<longrightarrow> wt demo_ty v))"
proof -
  have "length [0, 0, 0, 5, 255, 255, 255, 255 :: byte] < 2 ^ 31" by simp
  from xdrmem_decode_typed [OF demo_typed(1) this, of "\<lambda>_. 170" 4096] show ?thesis using demo_typed(1) by blast
qed

text \<open>
  C12: The two streams are equivalent. The filter of a type with \<open>sane\<close> bounds writes the same bytes to a memory buffer and
  to a chain of empty message blocks, however the chain is divided into blocks and whatever blocks
  \<^verbatim>\<open>allocb\<close> gives as it grows, and these are the bytes of the XDR standard; where the capacities of the blocks, the size asked for
  and the sizes that \<^verbatim>\<open>allocb\<close> gives are multiples of four, and the first block is written from its base. It fails on the chain exactly when
  the room in the chain and in the blocks that \<^verbatim>\<open>allocb\<close> gives before a signal ends a wait is short; with
  a size of zero no block is asked for.
\<close>

theorem xdr_streams_agree:
  assumes "sane t" "wt t v" "length mem < 2 ^ 31" "wchain sz ms es" "xdrmblk_init ms XDR_ENCODE sz es = Inr z"
  shows "\<exists>x y. xdr_ty junk t (xdrmem_create mem addr (of_nat (length mem)) XDR_ENCODE) v = Inr (length (enc t v) \<le> length mem, v, x)
    \<and> xdr_ty junk' t z v = Inr (length (enc t v) \<le> more sz ms es, v, y)
    \<and> (length (enc t v) \<le> length mem \<longrightarrow> take (mm_off (x_st x)) (mm_buf (x_st x)) = enc t v)
    \<and> (length (enc t v) \<le> more sz ms es \<longrightarrow> chain_bytes (mb_done (x_st y) @ mb_chain (x_st y)) = enc t v)"
proof -
  define w where "w = xdrmem_create mem addr (of_nat (length mem)) XDR_ENCODE"
  note w = create_wready [OF assms(3) w_def]
  have z: "wready xdrmblk_view z" "sv_wr xdrmblk_view (x_st z) = []" "sv_room xdrmblk_view (x_st z) = more sz ms es"
    using init_wready [OF assms(4)] assms(5) by auto
  obtain x where x: "xdr_ty junk t w v = Inr (length (enc t v) \<le> length mem, v, x)" "length (enc t v) \<le> length mem \<longrightarrow> sv_wr xdrmem_view (x_st x) = enc t v"
    using xmem.ty_encodes [OF assms(1,2), of junk] w unfolding encodes_def by (metis append_Nil)
  obtain y where y: "xdr_ty junk' t z v = Inr (length (enc t v) \<le> more sz ms es, v, y)" "length (enc t v) \<le> more sz ms es \<longrightarrow> sv_wr xdrmblk_view (x_st y) = enc t v"
    using xmblk.ty_encodes [OF assms(1,2), of junk'] z unfolding encodes_def by (metis append_Nil)
  show ?thesis
    by (rule exI [of _ x], rule exI [of _ y]) (use x y in \<open>simp add: w_def xdrmem_view_def xdrmblk_view_def\<close>)
qed

definition demo_blk :: "nat \<Rightarrow> dblk" where
  "demo_blk n = \<lparr>db_base = 4096, db_data = replicate n 0, db_ref = 1, b_rptr = 0, b_wptr = 0\<rparr>"

theorem xdr_streams_agree_witness:
  "\<exists>z. xdrmblk_init [demo_blk 8] XDR_ENCODE 16 [AllocRetry, AllocBlock 8192 32, AllocBlock 0 64] = Inr z
    \<and> (\<exists>y. xdr_ty (\<lambda>_. 85) demo_ty z demo_val = Inr (True, demo_val, y) \<and> chain_bytes (mb_done (x_st y) @ mb_chain (x_st y)) = enc demo_ty demo_val)"
proof -
  have l: "length (replicate 64 (0 :: byte)) < 2 ^ 31" by simp
  have c: "wchain 16 [demo_blk 8] [AllocRetry, AllocBlock 8192 32, AllocBlock 0 64]"
    by (simp add: wchain_def demo_blk_def fresh_def blk_ok_def events_ok_def)
  obtain z where z: "xdrmblk_init [demo_blk 8] XDR_ENCODE 16 [AllocRetry, AllocBlock 8192 32, AllocBlock 0 64] = Inr z" by (simp add: xdrmblk_init_def)
  have m: "length (enc demo_ty demo_val) \<le> more 16 [demo_blk 8] [AllocRetry, AllocBlock 8192 32, AllocBlock 0 64]"
    by (simp add: demo_bytes more_def demo_blk_def)
  show ?thesis using xdr_streams_agree [OF demo_typed l c z, of "\<lambda>_. 0" 0 "\<lambda>_. 85"] z m by auto
qed

text \<open>
  C13: A value of a type with \<open>sane\<close> bounds that arrives in a chain of message blocks is read into a cleared object as it was sent, however the network has
  divided the bytes into blocks of whole units, each of which begins at a multiple of four bytes from the base of its block: when the bytes of the chain begin with those of the
  XDR standard for a value, decoding succeeds with that value and leaves the bytes that follow. Whatever the
  bytes of such a chain are, decoding does not fault and gives a value of the type or fails.
\<close>

theorem xdrmblk_decodes:
  assumes "sane t" "rchain ms" "xdrmblk_init ms XDR_DECODE sz es = Inr x"
  shows "\<exists>r u y. xdr_ty junk t x (zero_val t) = Inr (r, u, y) \<and> (r \<longrightarrow> wt t u)
    \<and> (\<forall>v rest. wt t v \<and> chain_bytes ms = enc t v @ rest \<longrightarrow> r \<and> u = v \<and> chain_bytes (mb_chain (x_st y)) = rest)"
proof -
  have x: "rready xdrmblk_view x" "4 dvd sv_rp xdrmblk_view (x_st x)" "sv_rd xdrmblk_view (x_st x) = chain_bytes ms"
    using init_rready [OF assms(2), of sz es] assms(3) by auto
  obtain r u y where r: "xdr_ty junk t x (zero_val t) = Inr (r, u, y)" "r \<longrightarrow> wt t u"
    using xmblk.ty_safe [OF assms(1), of junk] x(1) unfolding decodes_safe_def by blast
  have "r \<and> u = v \<and> chain_bytes (mb_chain (x_st y)) = rest" if v: "wt t v" "chain_bytes ms = enc t v @ rest" for v rest
  proof -
    obtain y' where "xdr_ty junk t x (zero_val t) = Inr (True, v, y')" "sv_rd xdrmblk_view (x_st y') = rest"
      using xmblk.ty_decodes [OF assms(1) v(1), of junk] x v(2) unfolding decodes_def by metis
    then show ?thesis using r(1) by (simp add: xdrmblk_view_def)
  qed
  then show ?thesis using r by blast
qed

text \<open>Five, in a block that ends in the middle of a pair, and what follows in two more blocks.\<close>

definition demo_recv :: "dblk list" where
  "demo_recv = [\<lparr>db_base = 0, db_data = [9, 9, 9, 9, 0, 0, 0, 5], db_ref = 1, b_rptr = 4, b_wptr = 8\<rparr>,
     \<lparr>db_base = 64, db_data = [], db_ref = 1, b_rptr = 0, b_wptr = 0\<rparr>,
     \<lparr>db_base = 128, db_data = [0, 0, 0, 7, 0, 0, 0, 0], db_ref = 1, b_rptr = 0, b_wptr = 8\<rparr>]"

theorem xdrmblk_decodes_witness:
  "\<exists>x. xdrmblk_init demo_recv XDR_DECODE 0 [] = Inr x
    \<and> (\<exists>y. xdr_ty (\<lambda>_. 0) (TPair TInt TUInt) x (zero_val (TPair TInt TUInt)) = Inr (True, VPair (VLong 5, VLong 7), y) \<and> chain_bytes (mb_chain (x_st y)) = [0, 0, 0, 0])"
proof -
  let ?t = "TPair TInt TUInt" and ?v = "VPair (VLong 5, VLong 7)"
  have t: "sane ?t" "wt ?t ?v" by simp_all
  have c: "rchain demo_recv" by (simp add: rchain_def demo_recv_def blk_ok_def)
  have b: "chain_bytes demo_recv = enc ?t ?v @ [0, 0, 0, 0]" by (simp add: chain_bytes_def demo_recv_def blk_bytes_def put4_def)
  obtain x where x: "xdrmblk_init demo_recv XDR_DECODE 0 [] = Inr x" by (simp add: xdrmblk_init_def demo_recv_def)
  obtain r u y where r: "xdr_ty (\<lambda>_. 0) ?t x (zero_val ?t) = Inr (r, u, y)"
    and all: "\<forall>v rest. wt ?t v \<and> chain_bytes demo_recv = enc ?t v @ rest \<longrightarrow> r \<and> u = v \<and> chain_bytes (mb_chain (x_st y)) = rest"
    using xdrmblk_decodes [OF t(1) c x, of "\<lambda>_. 0"] by blast
  have "r \<and> u = ?v \<and> chain_bytes (mb_chain (x_st y)) = [0, 0, 0, 0]" by (rule all [rule_format]) (use t(2) b in blast)
  then have "xdr_ty (\<lambda>_. 0) ?t x (zero_val ?t) = Inr (True, ?v, y) \<and> chain_bytes (mb_chain (x_st y)) = [0, 0, 0, 0]" using r by simp
  then show ?thesis using x by blast
qed

lemma bal_count: "bal l n = int (count_list l (MemAlloc n)) - int (count_list l (MemFree n))"
  by (induction l n rule: bal.induct) auto

text \<open>
  C10: Decoding loses no memory. For a type with \<open>sane\<close> bounds and an object that has been cleared, over any bytes whatever, and whether decoding succeeds or fails in the
  middle, \<^verbatim>\<open>xdr_free\<close> on the object that it leaves does not fault, and then there have been as many
  blocks freed as allocated, of every size.
\<close>

theorem xdr_free_returns_all:
  assumes "sane t" "length mem < 2 ^ 31"
  shows "\<exists>r v x v' y. xdr_ty junk t (xdrmem_create mem addr (of_nat (length mem)) XDR_DECODE) (zero_val t) = Inr (r, v, x)
    \<and> xdr_free (xdr_ty junk t) x v = Inr (v', y) \<and> (\<forall>n. count_list (x_mem y) (MemAlloc n) = count_list (x_mem y) (MemFree n))"
proof -
  have "rready xdrmem_view (xdrmem_create mem addr (of_nat (length mem)) XDR_DECODE)"
    by (rule create_rready(1) [OF assms(2) order_refl _ refl]) (use assms(2) in simp)
  from xmem.decode_free [OF assms(1) this, of junk] show ?thesis by (simp add: bal_count xdrmem_create_def)
qed

theorem xdr_free_returns_all_witness:
  "\<exists>r v x v' y. xdr_ty (\<lambda>_. 170) demo_ty (xdrmem_create [0, 0, 0, 5, 0, 0, 0, 2, 104, 105, 0, 0] 4096 (of_nat (length [0, 0, 0, 5, 0, 0, 0, 2, 104, 105, 0, 0 :: byte])) XDR_DECODE)
       (zero_val demo_ty) = Inr (r, v, x)
    \<and> xdr_free (xdr_ty (\<lambda>_. 170) demo_ty) x v = Inr (v', y) \<and> (\<forall>n. count_list (x_mem y) (MemAlloc n) = count_list (x_mem y) (MemFree n))"
proof -
  have "length [0, 0, 0, 5, 0, 0, 0, 2, 104, 105, 0, 0 :: byte] < 2 ^ 31" by simp
  from xdr_free_returns_all [OF demo_typed(1) this] show ?thesis .
qed

section \<open>Outside the bounds\<close>

text \<open>
  What the bounds of \<open>sane\<close> exclude, and the stream operations besides those for longs and bytes. The size
  of an array that does not fit in 32 bits gives memory for fewer elements than are then decoded.
\<close>

lemma xdr_array_overflow:
  "xdr_array 65536 0 xdr_int LASTUNSIGNED (xdrmem_create [0, 1, 0, 0, 0, 0, 0, 7] 4096 8 XDR_DECODE) (None, 0) = Inl (Wild ''target'')"
proof -
  have "array_loop p n x [] = Inl (Wild ''target'')" if "0 < n" for p :: "(mem_st, 32 word) xdrproc" and n x using that by (cases n) simp_all
  then show ?thesis
    by (simp add: xdr_array_def xmem.long_defs XDR_GETLONG_def xdrmem_create_def xdrmem_ops_def xdrmem_getlong_def mm_read_def LASTUNSIGNED_def)
qed

text \<open>A count of \<open>2\<^sup>3\<^sup>1\<close> or more is a negative length for the stream, which passes its test and copies from outside the buffer.\<close>

lemma xdrmem_negative_length:
  assumes "length buf = 2147483649"
  shows "xdrmem_getbytes \<lparr>x_base = 4096, x_private = 4100, x_handy = 0, mm_buf = [128, 0, 0, 1]\<rparr> buf 2147483649 = Inl (Wild ''x_private'')"
  using assms by (simp add: xdrmem_getbytes_def mm_read_def)

text \<open>After a read that fails, the count is negative and a peek reads from outside the buffer.\<close>

lemma xdrmem_peek_past_end:
  "\<exists>s. xdrmem_getlong \<lparr>x_base = 4096, x_private = 4096, x_handy = 0, mm_buf = []\<rparr> = Inr (None, s) \<and> xdrmem_control s XDR_PEEK 0 = Inl (Wild ''x_private'')"
  by (simp add: xdrmem_getlong_def xdrmem_control_def mm_read_def)

text \<open>A string that is decoded into memory of the caller, and fails, has freed that memory while the caller keeps the pointer.\<close>

lemma xdr_string_frees_callers:
  "\<exists>x. xdr_string (\<lambda>_. 0) 16 (xdrmem_create [0, 0, 0, 2] 4096 4 XDR_DECODE) (Some [1, 2, 3]) = Inr (False, Some [1, 2, 3], x) \<and> x_mem x = [MemFree 3]"
  by (simp add: xdr_string_def xdr_string_decode_def xdr_opaque_def Let_def rndup_left_def xmem.long_defs XDR_GETLONG_def XDR_GETBYTES_def xdrmem_create_def xdrmem_ops_def
      xdrmem_getlong_def xdrmem_getbytes_def mm_read_def mem_free_def)

text \<open>A count that is negative as a signed number passes the test of \<^verbatim>\<open>xdrmblk_getmblk\<close>, however few bytes there are.\<close>

lemma xdrmblk_getmblk_short:
  "\<exists>s. xdrmblk_getmblk \<lparr>mb_done = [], mb_chain = [\<lparr>db_base = 0, db_data = [255, 255, 255, 252], db_ref = 1, b_rptr = 0, b_wptr = 4\<rparr>], mb_handy = 4, mb_size = 0, mb_alloc = []\<rparr>
     = Inr (True, Some ([\<lparr>db_base = 0, db_data = [255, 255, 255, 252], db_ref = 1, b_rptr = 4, b_wptr = 4\<rparr>], 4294967292), s)"
  by (simp add: xdrmblk_getmblk_def xdrmblk_getlong_def Let_def blk_get_def blk_left_def)

text \<open>A block that is put in as it is has its bytes in the stream as if they had been written.\<close>

lemma xdrmblk_putmblk_appends:
  assumes s: "winv s" "4 dvd length (chain_bytes (mb_done s @ mb_chain s))" "4 \<le> room s" and m: "blk_ok m" "4 dvd length (blk_bytes m)"
  shows "\<exists>s'. xdrmblk_putmblk s [m] len = Inr (True, s') \<and> chain_bytes (mb_done s' @ mb_chain s') = chain_bytes (mb_done s @ mb_chain s) @ put4 len @ blk_bytes m"
proof -
  obtain s1 where s1: "xdrmblk_putlong s len = Inr (True, s1)" "winv s1" "chain_bytes (mb_done s1 @ mb_chain s1) = chain_bytes (mb_done s @ mb_chain s) @ put4 len"
    using putlong_ok [OF s(1,2), of len] s(3) by auto
  obtain m1 rest where c: "mb_chain s1 = m1 # rest" "\<forall>b \<in> set rest. fresh b" using s1(2) by (auto simp: winv_def wok_def split: list.splits)
  have "(int (b_wptr m) - int (b_rptr m)) mod 4 = 0"
  proof -
    have "int (b_wptr m) - int (b_rptr m) = int (b_wptr m - b_rptr m)" using m(1) by (simp add: blk_ok_def)
    moreover have "4 dvd b_wptr m - b_rptr m" using m by simp
    ultimately show ?thesis by (metis dvd_imp_mod_0 int_dvd_int_iff of_nat_numeral)
  qed
  then have "xdrmblk_putmblk s [m] len = Inr (True, s1\<lparr>mb_done := mb_done s1 @ [m1], mb_chain := [m], mb_handy := 0\<rparr>)"
    using s1(1) c(1) by (simp add: xdrmblk_putmblk_def)
  then show ?thesis using s1(3) c fresh_bytes [OF c(2)] by simp
qed

end
