(* ===== verification/Spec2Isabelle.thy ===== *)
theory Spec2Isabelle
  imports Sem_Props Msg_Props Page_Lock Strq_Props Dsort Share Xdr_Props
begin

text \<open>
  \<^bold>\<open>Kernel services of the Solaris 2.6 sources\<close>

  A model of parts of the kernel under \<^verbatim>\<open>src/usr/src/uts/common\<close> (all paths below are relative to
  it) and the theorems that make them correct.

  \<^bold>\<open>The parts and how they interact.\<close>

  \<^item> The resource map allocator \<^verbatim>\<open>os/rmap.c\<close> hands out ranges of numbers. The System V semaphore
    module \<^verbatim>\<open>syscall/sem.c\<close> takes the semaphores of a set from one map, the message module
    \<^verbatim>\<open>os/msg.c\<close> the memory for texts from another. Both keep their objects in a table of the common
    code \<^verbatim>\<open>os/ipc.c\<close>, which looks at the credentials of \<^verbatim>\<open>os/cred.c\<close>.
  \<^item> The page locks of \<^verbatim>\<open>vm/page_lock.c\<close> call \<^verbatim>\<open>page_reclaim\<close> of \<^verbatim>\<open>vm/vm_page.c\<close> for a free page.
  \<^item> The STREAMS queue routines of \<^verbatim>\<open>io/stream.c\<close> keep messages by priority and do flow control.
  \<^item> The disk seek sort \<^verbatim>\<open>os/bdev_dsort.c\<close> and the share reservations \<^verbatim>\<open>os/share.c\<close> stand alone.
  \<^item> The XDR filters of \<^verbatim>\<open>rpc/xdr.c\<close>, \<^verbatim>\<open>rpc/xdr_array.c\<close> and \<^verbatim>\<open>rpc/xdr_refer.c\<close> work on any stream
    through its operations vector; \<^verbatim>\<open>rpc/xdr_mem.c\<close> and \<^verbatim>\<open>rpc/xdr_mblk.c\<close> are the two streams.

  \<^bold>\<open>Conventions.\<close> A C structure is a \<^verbatim>\<open>record\<close> with the fields of the source. Sizes, addresses and
  counters are natural numbers with the 32-bit wrap-around written out (\<open>uadd\<close>, \<open>usub\<close>, \<open>u32\<close>), or
  words where bits and signs matter; flag words are \<open>32 word\<close>. A linked list is a list, except in
  \<open>Dsort\<close>, where the links are a map because the code cuts and joins the chain. An error number is
  \<open>Inl\<close> of \<open>errno\<close>; an operation that can panic or leave its memory is a \<open>kres\<close>, with \<open>Panic\<close> and
  \<open>Wild\<close> as its faults, so that the absence of either is a theorem.

  \<^bold>\<open>Steps and interleaving.\<close> A routine is a function of the state, and a call up to the point where
  it returns or sleeps is one step of the transition systems (\<open>sem_step\<close>, \<open>msg_step\<close>, \<open>pl_step\<close>), which
  let the other processes run during a sleep; a routine that sleeps takes what happens meanwhile as
  an argument or returns what it waits for. Not every routine of the source holds one lock throughout.
  Where it drops its lock, the model does one of the following.

  \<^item> \<open>rmfree\<close> on a full map gives up a segment, drops the lock and starts again: \<open>rmfree_among\<close> takes
    what other threads do to the map at each of these points, \<open>rmfree\<close>, which the modules use, is the
    execution where they do nothing.
  \<^item> \<open>getq\<close>, \<open>rmvq\<close>, \<open>flushq\<close> and \<open>flushband\<close> of band 0 drop the lock of the queue between their parts, and the
    parts are operations of their own in \<open>q_reach\<close>, so that the invariant covers their
    interleavings. The functions \<open>getq\<close> to \<open>flushband\<close> themselves, and the runs of flow control
    (\<open>q_run\<close>), are executions without interference. \<open>flushband\<close> of another band, and
    \<open>strqset\<close> of a packet size, which takes the lock of the stream head's queue in between, are modelled as such only.
  \<^item> \<open>semget\<close> and \<open>msgget\<close> run under the lock of the module and not under that of the set or queue, which
    does not exclude other calls; each is one step here, and what a call on another processor can see
    in the middle of them is outside the transition systems (lemma \<open>semget_exposes_stale_range\<close> shows what).

  \<^bold>\<open>Theories.\<close>

  \<^item> \<open>Kernel_Prelude\<close>: error numbers, faults, 32-bit arithmetic, list lemmas.
  \<^item> \<open>Space_Alloc\<close>, \<open>Rmap\<close>: the locale \<open>space_alloc\<close> is what clients rely on, that an allocated range was
    free and is no longer and that a released one is again; it is interpreted on \<open>rmalloc\<close> and
    \<open>rmfree\<close>. \<open>Rmap\<close> models the array of segments of \<^verbatim>\<open>struct map\<close> with \<open>rmalloc\<close>, \<open>rmalloc_wait\<close>,
    \<open>rmget\<close>, \<open>rmfree_among\<close>, \<open>rmfree\<close> and the set-up of a map, and shows first fit, exact return of blocks, when \<open>rmfree\<close>
    panics and which segment is lost when the array is full.
  \<^item> \<open>Cred\<close>, \<open>Ipc\<close>: credentials and their tests, \<open>ipcaccess\<close> and \<open>ipcget\<close>. The locale \<open>ipc_ids\<close> is the
    numbering of objects by slot and sequence number, interpreted by both modules below.
  \<^item> \<open>Sem\<close>, \<open>Sem_Undo\<close>, \<open>Sem_Op\<close>, \<open>Sem_Inv\<close>, \<open>Sem_Props\<close>: \<^verbatim>\<open>semget\<close>, \<^verbatim>\<open>semctl\<close>, \<^verbatim>\<open>semop\<close>, \<^verbatim>\<open>semexit\<close> and the
    set-up of the tables. They show that \<open>semop\<close> takes effect as a whole or not at all, what undo
    entries amount to, and the invariant of the tables in every reachable state.
  \<^item> \<open>Msg\<close>, \<open>Msg_Inv\<close>, \<open>Msg_Props\<close>: \<^verbatim>\<open>msgget\<close>, \<^verbatim>\<open>msgctl\<close>, \<^verbatim>\<open>msgsnd\<close>, \<^verbatim>\<open>msgrcv\<close>. The contents of a queue
    (\<open>msg_view\<close>) is a list of typed texts; every step refines what its
    call and result do to such a list, and no call faults, with the one exception that the code has.
  \<^item> \<open>Page_Lock\<close>: the lock word of a page with its sharers, upgrades, downgrades, waiters, the I/O
    lock, the mutex tables and the reclaiming of a free page. It shows exclusion and that no thread
    sleeps for a page that it could have.
  \<^item> \<open>Strq\<close>, \<open>Strq_Inv\<close>, \<open>Strq_Flow\<close>, \<open>Strq_Props\<close>: \<^verbatim>\<open>putq\<close>, \<^verbatim>\<open>putbq\<close>, \<^verbatim>\<open>insq\<close>, \<^verbatim>\<open>getq\<close>, \<^verbatim>\<open>rmvq\<close>,
    \<^verbatim>\<open>flushq\<close>, \<^verbatim>\<open>flushband\<close>, \<^verbatim>\<open>canput\<close>, \<^verbatim>\<open>strqset\<close>, \<^verbatim>\<open>strqget\<close> and the helpers they call. They show the
    order of messages, the counts and pointers of every band, and flow control: while the water
    marks stay, no refused writer is forgotten.
  \<^item> \<open>Dsort\<close>: \<^verbatim>\<open>disksort\<close> ends and inserts into the two sorted sweeps. \<open>Share\<close>: \<^verbatim>\<open>add_share\<close>,
    \<^verbatim>\<open>del_share\<close> and \<^verbatim>\<open>cleanshares\<close> never let reservations clash, and giving one up undoes making it.
  \<^item> \<open>Xdr\<close>: every filter, for encoding, decoding and freeing, with a log of the sizes that the allocator
    is called with. \<open>Xdr_Type\<close>: the
    locale \<open>xdr_stream\<close>, the contract of a stream, with what each filter does on any such stream.
    \<open>Xdr_Univ\<close>: the types that filters are built for, their values, the bytes of the standard, and
    that the filter of a type writes and reads exactly these. \<open>Xdr_Mem\<close>, \<open>Xdr_Mblk\<close>, \<open>Xdr_Mblk_Inv\<close>: the
    two streams and their interpretations of the locale. \<open>Xdr_Free\<close>: freeing gives back what
    decoding allocated. \<open>Xdr_Props\<close>: the round trip, safety over any bytes, equality of the streams,
    for types with bounds that the code can keep (\<open>sane\<close>); what goes wrong beyond them is shown by example.

  \<^bold>\<open>Parameters and bounds.\<close> What code outside the model decides is an argument: the tunables of a
  module (\<open>seminfo\<close>, \<open>msginfo\<close>), whether an allocation succeeds, which of several sleepers runs
  next, the contents of freshly allocated memory (\<open>junk\<close> in the XDR filters), the outcomes of
  \<^verbatim>\<open>allocb\<close> and \<^verbatim>\<open>strwaitbuf\<close> for a message block stream. No loop is given fuel: the loops are
  structural recursions on the lists they walk, or come with a termination proof; those of
  \<^verbatim>\<open>disksort\<close>, which follow pointers, are partial functions with a theorem that they return on the
  chain of a queue. The state spaces are unbounded, and the theorems hold for any number of
  processes, sets, queues, pages, blocks and any sequence of calls. What the theorems ask of the
  tunables (\<open>seminfo_ok\<close>, \<open>msginfo_ok\<close>), of identifiers (\<open>semid_range\<close>), of the callers of the queue
  routines (\<open>q_legal\<close>, \<open>q_calm\<close>) and of XDR types and block chains (\<open>sane\<close>, \<open>wchain\<close>, \<open>rchain\<close>) is in these
  predicates.

  \<^bold>\<open>Not modelled.\<close> Of the files above: the routines that talk to the module loader (\<^verbatim>\<open>_fini\<close>,
  \<^verbatim>\<open>_info\<close>), set-up of locks and condition variables, tracing and DEBUG assertions, \<^verbatim>\<open>crset\<close> and
  \<^verbatim>\<open>crgetcred\<close> (they walk the threads of a process), and of \<^verbatim>\<open>io/stream.c\<close> the allocation and editing
  of message blocks and the entry points that call into other modules. The rest of the kernel
  (processes, scheduling, virtual memory, file systems, network protocols, drivers), the commands,
  the libraries and the boot programs are listed in the manifest with the reason.
\<close>

end
